(* ===== verification/Prelude.thy ===== *)
theory Prelude
  imports Main "HOL-Library.Code_Target_Numeral" "HOL-Library.Word" "HOL-Library.Monad_Syntax"
begin

text \<open>
  Shared vocabulary of the development: the machine integer types of the C sources, the errno
  values, the C library idioms used by several components (rounding up, conversions between
  integer widths) and the generic lemmas on words, lists and options that the component
  theories rely on.
\<close>

unbundle bit_operations_syntax

section \<open>Machine types and constants\<close>

type_synonym u8 = "8 word"
type_synonym u16 = "16 word"
type_synonym u32 = "32 word"
type_synonym u64 = "64 word"

text \<open>A C \<^verbatim>\<open>unsigned long\<close> passed where an \<^verbatim>\<open>int\<close> is expected keeps its low 32 bits, read signed.\<close>

definition int_of_ulong :: "u64 \<Rightarrow> int" where
  "int_of_ulong x = sint (ucast x :: u32)"

abbreviation (input) EINVAL :: int where "EINVAL \<equiv> 22"
abbreviation (input) ENOMEM :: int where "ENOMEM \<equiv> 12"
abbreviation (input) EAGAIN :: int where "EAGAIN \<equiv> 11"
abbreviation (input) ETIMEDOUT :: int where "ETIMEDOUT \<equiv> 110"

section \<open>Collections of facts\<close>

named_theorems bitmap_simps \<open>what the bitmap operations do to a single bit\<close>
named_theorems mem_simps \<open>field selections of the memory manager's state updates\<close>
named_theorems sched_simps \<open>field selections of the scheduler's state updates\<close>

section \<open>Results with errors\<close>

text \<open>Sequencing of operations that return an error on the left or a value on the right.\<close>

definition andThen :: "'e + 'a \<Rightarrow> ('a \<Rightarrow> 'e + 'b) \<Rightarrow> 'e + 'b" where
  "andThen m f = (case m of Inl e \<Rightarrow> Inl e | Inr x \<Rightarrow> f x)"

lemma andThen_simps [simp]: "andThen (Inl e) f = Inl e" "andThen (Inr x) f = f x"
  by (simp_all add: andThen_def)

lemma andThen_eq_Inr: "andThen m f = Inr y \<longleftrightarrow> (\<exists>x. m = Inr x \<and> f x = Inr y)"
  by (cases m) simp_all

lemma andThen_eq_Inl: "andThen m f = Inl e \<longleftrightarrow> m = Inl e \<or> (\<exists>x. m = Inr x \<and> f x = Inl e)"
  by (cases m) auto

lemma if_eq_Inr: "(if b then Inl e else m) = Inr y \<longleftrightarrow> \<not> b \<and> m = Inr y"
  "(if b then m else Inl e) = Inr y \<longleftrightarrow> b \<and> m = Inr y"
  by simp_all

section \<open>Decimal numbers\<close>

text \<open>What \<^verbatim>\<open>printf\<close> prints for \<^verbatim>\<open>%u\<close> and its longer variants.\<close>

definition digit_char :: "nat \<Rightarrow> char" where
  "digit_char d = char_of (48 + d)"

fun decimal :: "nat \<Rightarrow> string" where
  "decimal n = (if n < 10 then [digit_char n] else decimal (n div 10) @ [digit_char (n mod 10)])"

declare decimal.simps [simp del]

section \<open>Words\<close>

lemma unat_ucast_32 [simp]: "unat x < 2 ^ 32 \<Longrightarrow> unat (ucast (x::u64) :: u32) = unat x"
  by (simp add: unsigned_ucast_eq take_bit_nat_eq_self_iff)

lemma int_of_ulong_small: "unat x < 2 ^ 31 \<Longrightarrow> int_of_ulong x = int (unat x)"
proof -
  assume a: "unat x < 2 ^ 31"
  then have "unat (ucast x :: u32) = unat x" by simp
  then have "uint (ucast x :: u32) = int (unat x)" by (metis uint_nat)
  moreover have "uint x < 2 ^ 31"
    using a by (metis of_nat_less_iff of_nat_numeral of_nat_power uint_nat)
  moreover have "- (2 ^ 31) \<le> uint x"
    by (rule order_trans [OF _ uint_ge_0]) simp
  ultimately show ?thesis
    by (simp add: int_of_ulong_def sint_uint signed_take_bit_int_eq_self_iff)
qed

lemma unat_add_small: "unat (x::'a::len word) + unat y < 2 ^ LENGTH('a) \<Longrightarrow> unat (x + y) = unat x + unat y"
  by (simp add: unat_word_ariths)

lemma unat_sub_small: "y \<le> x \<Longrightarrow> unat (x - y :: 'a::len word) = unat x - unat y"
  by (simp add: unat_sub)

lemma unat_mult_small: "unat (x::'a::len word) * unat y < 2 ^ LENGTH('a) \<Longrightarrow> unat (x * y) = unat x * unat y"
  by (simp add: unat_word_ariths)

text \<open>A word with no bit set is zero, and a non-zero word has a lowest set bit.\<close>

lemma word_nonzero_bit: "(w::'a::len word) \<noteq> 0 \<longleftrightarrow> (\<exists>i<LENGTH('a). bit w i)"
  by (metis bit_0_eq bit_word_eqI bot_apply bot_bool_def)

lemma word_not_full_bit: "NOT (w::'a::len word) = 0 \<longleftrightarrow> (\<forall>i<LENGTH('a). bit w i)"
  using word_nonzero_bit [of "NOT w"] by (auto simp: bit_not_iff)

lemma unat_of_nat_small: "m < 2 ^ LENGTH('a) \<Longrightarrow> unat (of_nat m :: 'a::len word) = m"
  by (simp add: unat_of_nat)

lemma int_of_ulong_of_nat: "m < 2 ^ 31 \<Longrightarrow> int_of_ulong (of_nat m) = int m"
  by (simp add: int_of_ulong_small unat_of_nat_small)

lemma of_nat_unat [simp]: "of_nat (unat x) = (x :: 'a::len word)"
  by simp

lemma word_eq_unat: "(x::'a::len word) = y \<longleftrightarrow> unat x = unat y"
  by (simp add: word_unat_eq_iff)

lemma of_nat_u64_inj: "a < 2 ^ 64 \<Longrightarrow> b < 2 ^ 64 \<Longrightarrow> (of_nat a :: u64) = of_nat b \<longleftrightarrow> a = b"
  by (simp add: word_eq_unat unat_of_nat_small)

lemma unat_lt64: "unat (x :: u64) < 2 ^ 64"
  by (rule order_less_le_trans [OF unsigned_less]) simp

lemma sint_nonneg_iff: "0 \<le> sint (x :: u64) \<longleftrightarrow> unat x < 2 ^ 63"
proof -
  have u: "uint x = int (unat x)" by (rule uint_nat)
  have "0 \<le> sint x \<longleftrightarrow> \<not> bit (uint x) 63"
    by (simp add: sint_uint signed_take_bit_nonnegative_iff)
  also have "\<dots> \<longleftrightarrow> unat x < 2 ^ 63"
  proof (cases "unat x < 2 ^ 63")
    case True
    then have "uint x < 2 ^ 63"
      unfolding u by (metis of_nat_less_iff of_nat_numeral of_nat_power)
    then have "uint x div 2 ^ 63 = 0" by (intro div_pos_pos_trivial) simp_all
    with True show ?thesis by (simp add: bit_iff_odd)
  next
    case False
    then have "unat x div 2 ^ 63 = 1"
      using unat_lt64 [of x] by (intro div_nat_eqI) simp_all
    then have "uint x div 2 ^ 63 = 1"
      unfolding u by (metis of_nat_1 of_nat_numeral of_nat_power zdiv_int)
    with False show ?thesis by (simp add: bit_iff_odd)
  qed
  finally show ?thesis .
qed

section \<open>Lists\<close>

lemma find_upt_Some:
  "find P [m..<n] = Some i \<longleftrightarrow> m \<le> i \<and> i < n \<and> P i \<and> (\<forall>j. m \<le> j \<and> j < i \<longrightarrow> \<not> P j)"
proof (induction "n - m" arbitrary: m)
  case 0
  then show ?case by simp
next
  case (Suc d)
  then have mn: "[m..<n] = m # [Suc m..<n]" by (simp add: upt_conv_Cons)
  have IH: "find P [Suc m..<n] = Some i \<longleftrightarrow>
      Suc m \<le> i \<and> i < n \<and> P i \<and> (\<forall>j. Suc m \<le> j \<and> j < i \<longrightarrow> \<not> P j)"
    using Suc by simp
  show ?case
    using Suc.hyps(2) by (auto simp: mn IH Suc_le_eq less_Suc_eq_le nat_less_le)
qed

lemma find_upt_None: "find P [m..<n] = None \<longleftrightarrow> (\<forall>j. m \<le> j \<and> j < n \<longrightarrow> \<not> P j)"
  by (auto simp: find_None_iff)

section \<open>Reachability and simulation\<close>

text \<open>The states reachable by a step relation from its initial states.\<close>

inductive reachable :: "('s \<Rightarrow> bool) \<Rightarrow> ('s \<Rightarrow> 's \<Rightarrow> bool) \<Rightarrow> 's \<Rightarrow> bool" for init step where
  start: "init s \<Longrightarrow> reachable init step s"
| move: "reachable init step s \<Longrightarrow> step s s' \<Longrightarrow> reachable init step s'"

lemma reachable_invariant:
  assumes "reachable init step s" and "\<And>s. init s \<Longrightarrow> I s" and "\<And>s s'. I s \<Longrightarrow> step s s' \<Longrightarrow> I s'"
  shows "I s"
  using assms(1) by induction (auto intro: assms(2,3))

text \<open>
  What it means for the interleaved steps of a component to implement an abstract machine: every
  step keeps the relation to an abstract state that makes the corresponding abstract step or none.
\<close>

locale simulation =
  fixes cinit :: "'c \<Rightarrow> bool" and cstep :: "'c \<Rightarrow> 'c \<Rightarrow> bool"
    and ainit :: "'a \<Rightarrow> bool" and astep :: "'a \<Rightarrow> 'a \<Rightarrow> bool"
    and rel :: "'c \<Rightarrow> 'a \<Rightarrow> bool"
  assumes sim_init: "cinit c \<Longrightarrow> \<exists>a. ainit a \<and> rel c a"
    and sim_step: "rel c a \<Longrightarrow> cstep c c' \<Longrightarrow> \<exists>a'. rel c' a' \<and> (a' = a \<or> astep a a')"
begin

lemma related: "reachable cinit cstep c \<Longrightarrow> \<exists>a. reachable ainit astep a \<and> rel c a"
proof (induction rule: reachable.induct)
  case (start c)
  then show ?case using sim_init reachable.start by metis
next
  case (move c c')
  then obtain a where "reachable ainit astep a" "rel c a" by blast
  with sim_step [OF _ move(2)] show ?case by (metis reachable.move)
qed

lemma transfer_invariant:
  assumes "reachable cinit cstep c" and "\<And>a. reachable ainit astep a \<Longrightarrow> rel c a \<Longrightarrow> P c"
  shows "P c"
  using related [OF assms(1)] assms(2) by blast

end

end
