(* ===== verification/Bitops.thy ===== *)
theory Bitops
  imports Prelude
begin

text \<open>
  The bitmap routines of \<^verbatim>\<open>src/src/include/enclave/bitops.h\<close> that the enclave memory manager is
  built on. A bitmap is the array of \<^verbatim>\<open>unsigned long\<close> words the C code scans, a \<open>u64 list\<close>;
  \<open>bitmap_test\<close> reads one bit of it. Word indices and bit positions, \<^verbatim>\<open>int\<close> in the source, are
  \<open>nat\<close> (the two agree below \<open>2 ^ 31\<close> bits), while \<^verbatim>\<open>start\<close> and \<^verbatim>\<open>nr\<close> of \<open>bitmap_set\<close> and
  \<open>bitmap_clear\<close> are signed, as in the source. The lemmas relate every routine to \<open>bitmap_test\<close>;
  the locale \<open>bitmap_ops\<close> is the contract the memory manager relies on.
\<close>

unbundle bit_operations_syntax

section \<open>Masks and bit scanning in one word\<close>

abbreviation (input) BITS_PER_LONG :: nat where "BITS_PER_LONG \<equiv> 64"

definition BITMAP_FIRST_WORD_MASK :: "int \<Rightarrow> u64" where
  "BITMAP_FIRST_WORD_MASK start = push_bit (nat (start mod 64)) (NOT 0)"

text \<open>
  \<^verbatim>\<open>~0UL >> (64 - n)\<close>. For \<open>n\<close> outside \<open>1..63\<close> the shift count is not below 64 and the C expression is
  undefined; the x86-64 shift instruction takes the count modulo 64, which \<open>bitmap_set\<close> and
  \<open>bitmap_clear\<close> rely on, so the model does the same.
\<close>

definition BITMAP_LAST_WORD_MASK :: "int \<Rightarrow> u64" where
  "BITMAP_LAST_WORD_MASK n = drop_bit (nat ((64 - n) mod 64)) (NOT 0)"

text \<open>\<^verbatim>\<open>ffsl\<close>: one plus the index of the lowest set bit, 0 if there is none; \<^verbatim>\<open>__ffsl\<close>: the index.\<close>

definition ffsl :: "u64 \<Rightarrow> nat" where
  "ffsl w = (case find (bit w) [0..<64] of None \<Rightarrow> 0 | Some i \<Rightarrow> Suc i)"

definition ffsl0 :: "u64 \<Rightarrow> nat" where
  "ffsl0 msk = ffsl msk - 1"

text \<open>\<^verbatim>\<open>flsl\<close>: shift right until the value is one, counting.\<close>

function flsl_loop :: "u64 \<Rightarrow> nat \<Rightarrow> nat" where
  "flsl_loop msk k = (if msk = 0 \<or> msk = 1 then k else flsl_loop (drop_bit 1 msk) (Suc k))"
  by pat_completeness auto
termination
proof (relation "measure (\<lambda>(msk, k). unat msk)")
  fix msk :: u64 and k :: nat
  assume "\<not> (msk = 0 \<or> msk = 1)"
  then have "0 < unat msk" by (simp add: unat_gt_0)
  then have "unat (drop_bit 1 msk) < unat msk"
    by (simp add: drop_bit_Suc unat_div)
  then show "((drop_bit 1 msk, Suc k), msk, k) \<in> measure (\<lambda>(msk, k). unat msk)"
    by simp
qed simp

declare flsl_loop.simps [simp del]

definition flsl :: "u64 \<Rightarrow> nat" where
  "flsl msk = (if msk = 0 then 0 else flsl_loop msk 1)"

section \<open>Scanning a bitmap\<close>

text \<open>
  The word loop shared by the four searches: \<open>f\<close> is the identity when looking for a set bit and the
  complement when looking for a clear one.
\<close>

function scan_words :: "(u64 \<Rightarrow> u64) \<Rightarrow> u64 list \<Rightarrow> nat \<Rightarrow> nat \<Rightarrow> nat \<Rightarrow> nat" where
  "scan_words f addr p sz b =
     (if 64 \<le> sz then
        (if f (addr ! p) = 0 then scan_words f addr (Suc p) (sz - 64) (b + 64)
         else b + ffsl0 (f (addr ! p)))
      else if sz \<noteq> 0 then
        (let msk = f (addr ! p) AND BITMAP_LAST_WORD_MASK (int sz)
         in if msk \<noteq> 0 then b + ffsl0 msk else b + sz)
      else b)"
  by pat_completeness auto
termination by (relation "measure (\<lambda>(f, addr, p, sz, b). sz)") auto

declare scan_words.simps [simp del]

definition find_first_bit :: "u64 list \<Rightarrow> nat \<Rightarrow> nat" where
  "find_first_bit addr sz = scan_words (\<lambda>w. w) addr 0 sz 0"

definition find_first_zero_bit :: "u64 list \<Rightarrow> nat \<Rightarrow> nat" where
  "find_first_zero_bit addr sz = scan_words (\<lambda>w. NOT w) addr 0 sz 0"

definition find_next :: "(u64 \<Rightarrow> u64) \<Rightarrow> u64 list \<Rightarrow> nat \<Rightarrow> nat \<Rightarrow> nat" where
  "find_next f addr sz offset =
     (if offset \<ge> sz then sz
      else
        let pos = offset div BITS_PER_LONG;
            offs = offset mod BITS_PER_LONG;
            bit = BITS_PER_LONG * pos
        in if offs \<noteq> 0 then
             let msk = f (addr ! pos) AND NOT (BITMAP_LAST_WORD_MASK (int offs))
             in if msk \<noteq> 0 then bit + ffsl0 msk
                else if sz - bit \<le> BITS_PER_LONG then sz
                else scan_words f addr (Suc pos) (sz - (bit + BITS_PER_LONG)) (bit + BITS_PER_LONG)
           else scan_words f addr pos (sz - bit) bit)"

definition find_next_bit :: "u64 list \<Rightarrow> nat \<Rightarrow> nat \<Rightarrow> nat" where
  "find_next_bit addr sz offset = find_next (\<lambda>w. w) addr sz offset"

definition find_next_zero_bit :: "u64 list \<Rightarrow> nat \<Rightarrow> nat \<Rightarrow> nat" where
  "find_next_zero_bit addr sz offset = find_next (\<lambda>w. NOT w) addr sz offset"

section \<open>Setting and clearing ranges\<close>

text \<open>
  The loop of \<open>bitmap_set\<close> and \<open>bitmap_clear\<close>: \<open>g\<close> applies a mask to a word (\<^verbatim>\<open>*p |= m\<close> or
  \<^verbatim>\<open>*p &= ~m\<close>).
\<close>

function bitmap_apply :: "(u64 \<Rightarrow> u64 \<Rightarrow> u64) \<Rightarrow> u64 list \<Rightarrow> nat \<Rightarrow> int \<Rightarrow> int \<Rightarrow> u64 \<Rightarrow> int \<Rightarrow> u64 list" where
  "bitmap_apply g bm p nr bits msk sz =
     (if nr - bits \<ge> 0 then
        bitmap_apply g (bm[p := g (bm ! p) msk]) (Suc p) (nr - bits) 64 (NOT 0) sz
      else if nr \<noteq> 0 then bm[p := g (bm ! p) (msk AND BITMAP_LAST_WORD_MASK sz)]
      else bm)"
  by pat_completeness auto
termination
  by (relation "measures [\<lambda>(g, bm, p, nr, bits, msk, sz). if bits = 64 then 0 else 1,
                          \<lambda>(g, bm, p, nr, bits, msk, sz). nat nr]") auto

declare bitmap_apply.simps [simp del]

definition bitmap_set :: "u64 list \<Rightarrow> int \<Rightarrow> int \<Rightarrow> u64 list" where
  "bitmap_set bm start nr =
     bitmap_apply (\<lambda>w m. w OR m) bm (nat (start div 64)) nr (64 - start mod 64)
       (BITMAP_FIRST_WORD_MASK start) (start + nr)"

definition bitmap_clear :: "u64 list \<Rightarrow> int \<Rightarrow> int \<Rightarrow> u64 list" where
  "bitmap_clear bm start nr =
     bitmap_apply (\<lambda>w m. w AND NOT m) bm (nat (start div 64)) nr (64 - start mod 64)
       (BITMAP_FIRST_WORD_MASK start) (start + nr)"

section \<open>Correctness\<close>

definition bitmap_test :: "u64 list \<Rightarrow> nat \<Rightarrow> bool" where
  "bitmap_test bm i = bit (bm ! (i div 64)) (i mod 64)"

subsection \<open>Masks and single words\<close>

lemma bit_first_word_mask:
  "i < 64 \<Longrightarrow> bit (BITMAP_FIRST_WORD_MASK start) i \<longleftrightarrow> start mod 64 \<le> int i"
  by (auto simp: BITMAP_FIRST_WORD_MASK_def bit_simps nat_le_iff)

lemma bit_last_word_mask:
  assumes "n mod 64 \<noteq> 0" and "i < 64"
  shows "bit (BITMAP_LAST_WORD_MASK n) i \<longleftrightarrow> int i < n mod 64"
proof -
  have "(64 - n) mod 64 = 64 - n mod 64"
    using assms(1) by (smt (verit, ccfv_threshold) mod_diff_right_eq mod_pos_pos_trivial
        pos_mod_bound pos_mod_sign)
  moreover have "0 \<le> n mod 64" "n mod 64 < 64" by simp_all
  ultimately show ?thesis
    using assms(2) by (auto simp: BITMAP_LAST_WORD_MASK_def bit_simps nat_less_iff)
qed

lemma ffsl0_spec:
  assumes "w \<noteq> 0"
  shows "ffsl0 w < 64" and "bit w (ffsl0 w)" and "j < ffsl0 w \<Longrightarrow> \<not> bit w j"
proof -
  from assms obtain k where "k < 64" "bit w k" by (auto simp: word_nonzero_bit)
  then have "find (bit w) [0..<64] \<noteq> None" by (auto simp: find_upt_None)
  then obtain i where i: "find (bit w) [0..<64] = Some i" by auto
  then have "ffsl0 w = i" by (simp add: ffsl0_def ffsl_def)
  with i show "ffsl0 w < 64" and "bit w (ffsl0 w)" and "j < ffsl0 w \<Longrightarrow> \<not> bit w j"
    by (auto simp: find_upt_Some)
qed

subsection \<open>Searches\<close>

text \<open>The bit at position \<open>i\<close> of the words as seen through \<open>f\<close>.\<close>

definition seen :: "(u64 \<Rightarrow> u64) \<Rightarrow> u64 list \<Rightarrow> nat \<Rightarrow> bool" where
  "seen f bm i = bit (f (bm ! (i div 64))) (i mod 64)"

lemma seen_id [bitmap_simps]: "seen (\<lambda>w. w) bm i = bitmap_test bm i"
  by (simp add: seen_def bitmap_test_def)

lemma seen_not [bitmap_simps]: "seen (\<lambda>w. NOT w) bm i = (\<not> bitmap_test bm i)"
  by (simp add: seen_def bitmap_test_def bit_not_iff)

lemma seen_word: "j < 64 \<Longrightarrow> seen f bm (64 * p + j) = bit (f (bm ! p)) j"
  by (simp add: seen_def)

lemma split_word: "\<exists>p j. i = 64 * p + j \<and> j < (64 :: nat)"
  by (rule exI [of _ "i div 64"], rule exI [of _ "i mod 64"]) simp

text \<open>What a search that starts at \<open>lo\<close> and ends before \<open>hi\<close> has to return.\<close>

definition first_seen :: "(nat \<Rightarrow> bool) \<Rightarrow> nat \<Rightarrow> nat \<Rightarrow> nat \<Rightarrow> bool" where
  "first_seen P lo hi r \<longleftrightarrow>
     lo \<le> r \<and> (r < hi \<longrightarrow> P r) \<and> (\<forall>i. lo \<le> i \<and> i < r \<and> i < hi \<longrightarrow> \<not> P i)"

lemma first_seen_skip:
  assumes "first_seen P m hi r" and "lo \<le> m" and none: "\<And>i. lo \<le> i \<Longrightarrow> i < m \<Longrightarrow> \<not> P i"
  shows "first_seen P lo hi r"
proof -
  have "\<not> P i" if "lo \<le> i" "i < r" "i < hi" for i
    using assms(1) that none [of i] by (cases "i < m") (simp_all add: first_seen_def)
  with assms(1,2) show ?thesis by (simp add: first_seen_def)
qed

lemma first_seen_word:
  assumes w: "w \<noteq> 0" and eq: "\<And>j. j < 64 \<Longrightarrow> bit w j \<longleftrightarrow> k \<le> j \<and> j < n \<and> bit (f (bm ! p)) j"
    and k: "k \<le> 64"
  shows "first_seen (seen f bm) (64 * p + k) hi (64 * p + ffsl0 w)"
    and "ffsl0 w < n"
proof -
  note ff = ffsl0_spec [OF w]
  have at: "k \<le> ffsl0 w" "ffsl0 w < n" "bit (f (bm ! p)) (ffsl0 w)"
    using ff(1,2) eq by blast+
  then show "ffsl0 w < n" by simp
  have "\<not> seen f bm i" if i: "64 * p + k \<le> i" "i < 64 * p + ffsl0 w" for i
  proof -
    from i obtain j where j: "i = 64 * p + j" "k \<le> j" "j < ffsl0 w"
      by (metis add_less_cancel_left le_Suc_ex nat_add_left_cancel_le le_add1 le_trans)
    then have "\<not> bit w j" by (simp add: ff(3))
    with j ff(1) eq [of j] at show ?thesis by (auto simp: seen_word)
  qed
  with at ff(1) show "first_seen (seen f bm) (64 * p + k) hi (64 * p + ffsl0 w)"
    by (simp add: first_seen_def seen_word)
qed

lemma no_bit_below_word:
  assumes "\<And>j. j < 64 \<Longrightarrow> k \<le> j \<Longrightarrow> j < n \<Longrightarrow> \<not> bit (f (bm ! p)) j"
    and "n \<le> 64" and "64 * p + k \<le> i" and "i < 64 * p + n"
  shows "\<not> seen f bm i"
proof -
  from assms(3,4) obtain j where "i = 64 * p + j" "k \<le> j" "j < n"
    by (metis add_less_cancel_left le_Suc_ex nat_add_left_cancel_le le_add1 le_trans)
  with assms(1) [of j] assms(2) show ?thesis by (simp add: seen_word)
qed

lemma scan_words_spec:
  "first_seen (seen f bm) (64 * p) (64 * p + sz) (scan_words f bm p sz (64 * p))
     \<and> scan_words f bm p sz (64 * p) \<le> 64 * p + sz"
proof (induction sz arbitrary: p rule: less_induct)
  case (less sz)
  let ?w = "f (bm ! p)"
  let ?m = "?w AND BITMAP_LAST_WORD_MASK (int sz)"
  consider "64 \<le> sz" "?w = 0" | "64 \<le> sz" "?w \<noteq> 0" | "sz < 64" "sz \<noteq> 0" "?m \<noteq> 0"
    | "sz < 64" "sz \<noteq> 0" "?m = 0" | "sz = 0" by linarith
  then show ?case
  proof cases
    case 1
    have "first_seen (seen f bm) (64 * Suc p) (64 * p + sz) (scan_words f bm p sz (64 * p))
        \<and> scan_words f bm p sz (64 * p) \<le> 64 * p + sz"
      using less [of "sz - 64" "Suc p"] 1
      by (subst (1 2) scan_words.simps) (simp add: add.commute)
    moreover have "\<not> seen f bm i" if "64 * p \<le> i" "i < 64 * Suc p" for i
      using no_bit_below_word [of 0 64 f bm p i] 1 that by simp
    ultimately show ?thesis
      using first_seen_skip [of "seen f bm" "64 * Suc p" _ _ "64 * p"] by simp
  next
    case 2
    have "bit ?w j \<longleftrightarrow> 0 \<le> j \<and> j < 64 \<and> bit ?w j" if "j < 64" for j
      using that by simp
    from first_seen_word [of ?w 0 64 f bm p, OF 2(2) this] 2 show ?thesis
      by (subst (1 2) scan_words.simps) simp
  next
    case 3
    have "bit ?m j \<longleftrightarrow> 0 \<le> j \<and> j < sz \<and> bit ?w j" if "j < 64" for j
      using that 3 by (auto simp: bit_and_iff bit_last_word_mask)
    from first_seen_word [of ?m 0 sz f bm p, OF 3(3) this] 3 show ?thesis
      by (subst (1 2) scan_words.simps) (simp add: Let_def)
  next
    case 4
    have "\<not> bit ?w j" if "j < sz" for j
    proof -
      have "bit ?m j \<longleftrightarrow> bit ?w j"
        using that \<open>sz < 64\<close> \<open>sz \<noteq> 0\<close> by (simp add: bit_and_iff bit_last_word_mask)
      then show ?thesis by (simp add: \<open>?m = 0\<close>)
    qed
    then have "\<not> seen f bm i" if "64 * p \<le> i" "i < 64 * p + sz" for i
      using no_bit_below_word [of 0 sz f bm p i] 4 that by simp
    with 4 show ?thesis
      by (subst (1 2) scan_words.simps) (simp add: Let_def first_seen_def)
  next
    case 5
    then show ?thesis
      by (simp add: first_seen_def scan_words.simps [of f bm p 0] flip: not_le)
  qed
qed

lemma find_next_spec:
  assumes "offset < sz"
  shows "first_seen (seen f bm) offset sz (find_next f bm sz offset)"
proof -
  define p k where "p = offset div 64" and "k = offset mod 64"
  have off: "offset = 64 * p + k" and k: "k < 64" by (simp_all add: p_def k_def)
  let ?w = "f (bm ! p)"
  let ?m = "?w AND NOT (BITMAP_LAST_WORD_MASK (int k))"
  have word: "first_seen (seen f bm) (64 * q) sz (scan_words f bm q (sz - 64 * q) (64 * q))"
    if "64 * q \<le> sz" for q
    using scan_words_spec [of f bm q "sz - 64 * q"] that by simp
  show ?thesis
  proof (cases "k = 0")
    case True
    with word [of p] assms off show ?thesis by (simp add: find_next_def Let_def)
  next
    case False
    have m: "bit ?m j \<longleftrightarrow> k \<le> j \<and> j < 64 \<and> bit ?w j" if "j < 64" for j
      using that k False by (auto simp: bit_and_iff bit_not_iff bit_last_word_mask)
    show ?thesis
    proof (cases "?m = 0")
      case False
      with first_seen_word(1) [of ?m k 64 f bm p, OF False m] assms off k \<open>k \<noteq> 0\<close> show ?thesis
        by (simp add: find_next_def Let_def)
    next
      case True
      then have "\<not> bit ?w j" if "j < 64" "k \<le> j" for j
        using m [of j] that by simp
      then have none: "\<not> seen f bm i" if "offset \<le> i" "i < 64 * Suc p" for i
        using no_bit_below_word [of k 64 f bm p i] that off by simp
      show ?thesis
      proof (cases "sz \<le> 64 * Suc p")
        case True
        then have "sz - 64 * p \<le> 64" by simp
        with True none \<open>?m = 0\<close> \<open>k \<noteq> 0\<close> off k assms show ?thesis
          by (simp add: find_next_def Let_def first_seen_def)
      next
        case False
        then have "\<not> sz - 64 * p \<le> 64" by simp
        with \<open>?m = 0\<close> \<open>k \<noteq> 0\<close> off k assms
        have "find_next f bm sz offset = scan_words f bm (Suc p) (sz - 64 * Suc p) (64 * Suc p)"
          by (simp add: find_next_def Let_def add.commute)
        with first_seen_skip [OF word [of "Suc p"]] none False off k show ?thesis by simp
      qed
    qed
  qed
qed

lemma find_next_bit_spec:
  "offset < sz \<Longrightarrow> first_seen (bitmap_test bm) offset sz (find_next_bit bm sz offset)"
  using find_next_spec [of offset sz "\<lambda>w. w" bm]
  by (simp add: find_next_bit_def seen_id [abs_def])

lemma find_next_zero_bit_spec:
  "offset < sz \<Longrightarrow> first_seen (\<lambda>i. \<not> bitmap_test bm i) offset sz (find_next_zero_bit bm sz offset)"
  using find_next_spec [of offset sz "\<lambda>w. NOT w" bm]
  by (simp add: find_next_zero_bit_def seen_not [abs_def])

lemma find_next_bit_ge: "offset \<le> sz \<Longrightarrow> offset \<le> find_next_bit bm sz offset"
  using find_next_bit_spec [of offset sz bm]
  by (cases "offset = sz") (auto simp: first_seen_def find_next_bit_def find_next_def)

lemma find_next_zero_bit_ge: "offset \<le> sz \<Longrightarrow> offset \<le> find_next_zero_bit bm sz offset"
  using find_next_zero_bit_spec [of offset sz bm]
  by (cases "offset = sz") (auto simp: first_seen_def find_next_zero_bit_def find_next_def)

lemma find_next_past: "sz \<le> offset \<Longrightarrow> find_next f bm sz offset = sz"
  by (simp add: find_next_def)

lemma find_next_bound: "find_next f bm sz offset < sz + 64"
proof -
  have "64 * (offset div 64) \<le> offset" by simp
  moreover have "scan_words f bm q (sz - 64 * q) (64 * q) \<le> sz" if "64 * q \<le> sz" for q
    using scan_words_spec [of f bm q "sz - 64 * q"] that by simp
  from this [of "offset div 64"] this [of "Suc (offset div 64)"]
  have "64 * (offset div 64) \<le> sz \<Longrightarrow>
      scan_words f bm (offset div 64) (sz - 64 * (offset div 64)) (64 * (offset div 64)) \<le> sz"
    and "64 * (offset div 64) + 64 \<le> sz \<Longrightarrow>
      scan_words f bm (Suc (offset div 64)) (sz - (64 * (offset div 64) + 64)) (64 * (offset div 64) + 64) \<le> sz"
    by (simp_all add: add.commute)
  moreover note ffsl0_spec(1) [of "f (bm ! (offset div 64)) AND NOT (BITMAP_LAST_WORD_MASK (int (offset mod 64)))"]
  ultimately show ?thesis
    unfolding find_next_def Let_def by (auto split: if_splits) linarith+
qed

lemma find_next_zero_bit_bound: "find_next_zero_bit bm sz offset < sz + 64"
  by (simp add: find_next_zero_bit_def find_next_bound)

text \<open>The searches read only the words that hold the first \<open>sz\<close> bits.\<close>

lemma scan_words_local:
  "(\<And>q. q < p + (sz + 63) div 64 \<Longrightarrow> bm ! q = bm' ! q)
     \<Longrightarrow> scan_words f bm p sz b = scan_words f bm' p sz b"
proof (induction sz arbitrary: p b rule: less_induct)
  case (less sz)
  have here: "bm ! p = bm' ! p" if "sz \<noteq> 0"
    using less.prems [of p] that by (simp add: div_greater_zero_iff)
  have "scan_words f bm (Suc p) (sz - 64) (b + 64) = scan_words f bm' (Suc p) (sz - 64) (b + 64)"
    if "64 \<le> sz"
  proof (rule less.IH)
    show "sz - 64 < sz" using that by simp
    have "(sz + 63) div 64 = Suc ((sz - 64 + 63) div 64)"
      using that by (simp add: le_div_geq)
    then show "bm ! q = bm' ! q" if "q < Suc p + (sz - 64 + 63) div 64" for q
      using less.prems [of q] that by simp
  qed
  with here show ?case
    by (subst (1 2) scan_words.simps) (simp add: Let_def)
qed

lemma find_next_local:
  assumes "\<And>q. q < (sz + 63) div 64 \<Longrightarrow> bm ! q = bm' ! q"
  shows "find_next f bm sz offset = find_next f bm' sz offset"
proof (cases "offset < sz")
  case True
  then have here: "bm ! (offset div 64) = bm' ! (offset div 64)" by (intro assms) simp
  have "scan_words f bm q (sz - 64 * q) b = scan_words f bm' q (sz - 64 * q) b"
    if "64 * q \<le> sz" for q b
    using that by (intro scan_words_local assms) (simp add: div_mult_self2)
  from this [of "offset div 64"] this [of "Suc (offset div 64)"] here True show ?thesis
    by (simp add: find_next_def Let_def add.commute)
qed (simp add: find_next_def)

subsection \<open>Range updates\<close>

lemma length_bitmap_apply [simp]: "length (bitmap_apply g bm p nr b msk sz) = length bm"
proof (induction g bm p nr b msk sz rule: bitmap_apply.induct)
  case (1 g bm p nr b msk sz)
  then show ?case by (subst bitmap_apply.simps) simp
qed

lemma bitmap_test_update:
  assumes "p < length bm"
  shows "bitmap_test (bm[p := w]) i = (if i div 64 = p then bit w (i mod 64) else bitmap_test bm i)"
  using assms by (auto simp: bitmap_test_def)

text \<open>
  A word operation \<open>g\<close> that writes the value \<open>v\<close> to the bits of the mask and keeps the others: \<open>OR\<close>
  with \<open>v = True\<close>, \<open>AND NOT\<close> with \<open>v = False\<close>.
\<close>

definition writes :: "(u64 \<Rightarrow> u64 \<Rightarrow> u64) \<Rightarrow> bool \<Rightarrow> bool" where
  "writes g v \<longleftrightarrow> (\<forall>w m i. i < 64 \<longrightarrow> bit (g w m) i = (if bit m i then v else bit w i))"

lemma writes_or: "writes (\<lambda>w m. w OR m) True"
  by (simp add: writes_def bit_or_iff)

lemma writes_and_not: "writes (\<lambda>w m. w AND NOT m) False"
  by (auto simp: writes_def bit_and_iff bit_not_iff)

lemma word_index:
  assumes "i div 64 = (p :: nat)"
  obtains j where "i = 64 * p + j" and "i mod 64 = j" and "j < 64"
  using assms that [of "i mod 64"] by auto

lemma div_in_word: "64 * p + s \<le> i \<Longrightarrow> i < 64 * p + 64 \<Longrightarrow> i div 64 = (p :: nat)"
  by (rule div_nat_eqI) simp_all

text \<open>
  The loop invariant: at word \<open>p\<close>, with \<open>nr\<close> bits left to write of which the first is bit \<open>s\<close> of the
  word, the mask has exactly the bits from \<open>s\<close> up.
\<close>

lemma bitmap_apply_test:
  assumes "writes g v"
    and "s < 64" and "b = 64 - int s" and "0 \<le> nr"
    and "\<And>j. j < 64 \<Longrightarrow> bit msk j \<longleftrightarrow> s \<le> j"
    and "sz = 64 * int p + int s + nr"
    and "sz \<le> 64 * int (length bm)"
  shows "bitmap_test (bitmap_apply g bm p nr b msk sz) i =
    (if 64 * int p + int s \<le> int i \<and> int i < sz then v else bitmap_test bm i)"
  using assms
proof (induction g bm p nr b msk sz arbitrary: s rule: bitmap_apply.induct)
  case (1 g bm p nr b msk sz)
  note IH = "1.IH" and prems = "1.prems"
  note w = prems(1) [unfolded writes_def, rule_format]
  show ?case
  proof (cases "0 \<le> nr - b")
    case True
    then have p: "p < length bm" using prems(2,3,6,7) by linarith
    have "bitmap_test (bitmap_apply g bm p nr b msk sz) i =
        (if 64 * int (Suc p) \<le> int i \<and> int i < sz then v
         else bitmap_test (bm[p := g (bm ! p) msk]) i)"
    proof -
      have "bitmap_test (bitmap_apply g (bm[p := g (bm ! p) msk]) (Suc p) (nr - b) 64 (NOT 0) sz) i =
          (if 64 * int (Suc p) + int 0 \<le> int i \<and> int i < sz then v
           else bitmap_test (bm[p := g (bm ! p) msk]) i)"
      proof (rule IH [OF True prems(1)])
        show "sz = 64 * int (Suc p) + int 0 + (nr - b)" using prems(3,6) by simp
      qed (use True prems(7) in \<open>simp_all add: bit_not_iff\<close>)
      with True show ?thesis by (subst bitmap_apply.simps) simp
    qed
    also have "\<dots> = (if 64 * int p + int s \<le> int i \<and> int i < sz then v else bitmap_test bm i)"
    proof (cases "i div 64 = p")
      case here: True
      from word_index [OF this] obtain j where j: "i = 64 * p + j" "i mod 64 = j" "j < 64" .
      with prems(3,6) True have "int i < sz" "\<not> 64 * int (Suc p) \<le> int i" by simp_all
      then show ?thesis
        using here p j w [of j] prems(5) [of j] by (simp add: bitmap_test_update bitmap_test_def)
    next
      case False
      then show ?thesis
        using p prems(2) div_in_word [of p s i] by (auto simp: bitmap_test_update)
    qed
    finally show ?thesis .
  next
    case False
    show ?thesis
    proof (cases "nr = 0")
      case True
      with False prems(6) show ?thesis by (subst bitmap_apply.simps) auto
    next
      case nz: False
      have p: "p < length bm" using False nz prems(2-4,6,7) by linarith
      have "sz = (int s + nr) + int p * 64" using prems(6) by simp
      then have e: "sz mod 64 = int s + nr"
        using False prems(2-4) by (simp only: mod_mult_self1) simp
      have m: "bit (msk AND BITMAP_LAST_WORD_MASK sz) j \<longleftrightarrow> s \<le> j \<and> int j < int s + nr"
        if "j < 64" for j
        using that nz e prems(2,4) prems(5) [of j] by (simp add: bit_and_iff bit_last_word_mask)
      have "bitmap_test (bitmap_apply g bm p nr b msk sz) i =
          bitmap_test (bm[p := g (bm ! p) (msk AND BITMAP_LAST_WORD_MASK sz)]) i"
        using False nz by (subst bitmap_apply.simps) simp
      also have "\<dots> = (if 64 * int p + int s \<le> int i \<and> int i < sz then v else bitmap_test bm i)"
      proof (cases "i div 64 = p")
        case here: True
        from word_index [OF this] obtain j where j: "i = 64 * p + j" "i mod 64 = j" "j < 64" .
        then show ?thesis
          using here p prems(6) w [of j] m [of j] by (simp add: bitmap_test_update bitmap_test_def)
      next
        case other: False
        then show ?thesis
          using p False prems(2,3,6) div_in_word [of p s i] by (auto simp: bitmap_test_update)
      qed
      finally show ?thesis .
    qed
  qed
qed

lemma range_start:
  "64 * int (start div 64) + int (start mod 64) = int start"
  by (metis mult_div_mod_eq of_nat_add of_nat_mult of_nat_numeral)

lemma bit_first_word_mask_nat:
  assumes "i < 64"
  shows "bit (BITMAP_FIRST_WORD_MASK (int start)) i \<longleftrightarrow> start mod 64 \<le> i"
proof -
  have "int start mod 64 = int (start mod 64)" by (simp add: of_nat_mod)
  with assms show ?thesis by (simp only: bit_first_word_mask of_nat_le_iff)
qed

lemma bitmap_apply_range:
  assumes "writes g v" and "start + nr \<le> 64 * length bm"
  shows "bitmap_test (bitmap_apply g bm (nat (int start div 64)) (int nr) (64 - int start mod 64)
      (BITMAP_FIRST_WORD_MASK (int start)) (int start + int nr)) i =
    (if start \<le> i \<and> i < start + nr then v else bitmap_test bm i)"
proof -
  have p: "nat (int start div 64) = start div 64" by (simp add: nat_div_distrib)
  have b: "64 - int start mod 64 = 64 - int (start mod 64)" by (simp add: of_nat_mod)
  have e: "int start + int nr = 64 * int (start div 64) + int (start mod 64) + int nr"
    by (simp only: range_start)
  show ?thesis
    unfolding p using assms
    by (subst bitmap_apply_test [OF assms(1) _ b _ bit_first_word_mask_nat e])
      (simp_all only: range_start, auto)
qed

lemma bitmap_set_test [bitmap_simps]:
  "start + nr \<le> 64 * length bm \<Longrightarrow> bitmap_test (bitmap_set bm (int start) (int nr)) i \<longleftrightarrow>
    start \<le> i \<and> i < start + nr \<or> bitmap_test bm i"
  by (auto simp add: bitmap_set_def bitmap_apply_range [OF writes_or])

lemma bitmap_clear_test [bitmap_simps]:
  "start + nr \<le> 64 * length bm \<Longrightarrow> bitmap_test (bitmap_clear bm (int start) (int nr)) i \<longleftrightarrow>
    \<not> (start \<le> i \<and> i < start + nr) \<and> bitmap_test bm i"
  by (simp add: bitmap_clear_def bitmap_apply_range [OF writes_and_not])

lemma length_bitmap_set [simp]: "length (bitmap_set bm start nr) = length bm"
  by (simp add: bitmap_set_def)

lemma length_bitmap_clear [simp]: "length (bitmap_clear bm start nr) = length bm"
  by (simp add: bitmap_clear_def)

subsection \<open>The contract of a bitmap\<close>

text \<open>
  What the memory manager relies on: an array of at least \<open>n\<close> bits whose ranges can be set and
  cleared. Inside the locale the array is viewed as the set of its set positions.
\<close>

locale bitmap_ops =
  fixes room :: "'b \<Rightarrow> nat \<Rightarrow> bool"
    and tst :: "'b \<Rightarrow> nat \<Rightarrow> bool"
    and set_range :: "'b \<Rightarrow> nat \<Rightarrow> nat \<Rightarrow> 'b"
    and clear_range :: "'b \<Rightarrow> nat \<Rightarrow> nat \<Rightarrow> 'b"
  assumes room_set: "room (set_range b s k) n = room b n"
    and room_clear: "room (clear_range b s k) n = room b n"
    and tst_set: "room b (s + k) \<Longrightarrow> tst (set_range b s k) i \<longleftrightarrow> s \<le> i \<and> i < s + k \<or> tst b i"
    and tst_clear: "room b (s + k) \<Longrightarrow> tst (clear_range b s k) i \<longleftrightarrow> \<not> (s \<le> i \<and> i < s + k) \<and> tst b i"
begin

definition taken :: "'b \<Rightarrow> nat \<Rightarrow> nat set" where
  "taken b n = {i. i < n \<and> tst b i}"

lemma finite_taken [simp]: "finite (taken b n)"
  by (simp add: taken_def)

lemma card_taken: "card (taken b n) \<le> n"
  using card_mono [of "{..<n}" "taken b n"] by (auto simp: taken_def)

lemma taken_set:
  "room b (s + k) \<Longrightarrow> s + k \<le> n \<Longrightarrow> taken (set_range b s k) n = taken b n \<union> {s..<s + k}"
  by (auto simp: taken_def tst_set)

lemma taken_clear:
  "room b (s + k) \<Longrightarrow> taken (clear_range b s k) n = taken b n - {s..<s + k}"
  by (auto simp: taken_def tst_clear)

lemma clear_after_set:
  "room b (s + k) \<Longrightarrow> s + k \<le> n \<Longrightarrow> taken b n \<inter> {s..<s + k} = {}
     \<Longrightarrow> taken (clear_range (set_range b s k) s k) n = taken b n"
  by (auto simp: taken_clear taken_set room_set)

lemma card_taken_set:
  assumes "room b (s + k)" and "s + k \<le> n" and "taken b n \<inter> {s..<s + k} = {}"
  shows "card (taken (set_range b s k) n) = card (taken b n) + k"
  using assms by (simp add: taken_set card_Un_disjoint)

lemma card_taken_clear:
  assumes "room b (s + k)" and "{s..<s + k} \<subseteq> taken b n"
  shows "card (taken (clear_range b s k) n) + k = card (taken b n)"
proof -
  have "card {s..<s + k} \<le> card (taken b n)" using assms(2) by (intro card_mono) simp_all
  then show ?thesis using assms by (simp add: taken_clear card_Diff_subset)
qed

end

interpretation pages: bitmap_ops "\<lambda>bm n. n \<le> 64 * length bm" bitmap_test
  "\<lambda>bm s k. bitmap_set bm (int s) (int k)" "\<lambda>bm s k. bitmap_clear bm (int s) (int k)"
  by unfold_locales (simp_all add: bitmap_simps)

end
