(* ===== verification/Enclave_Mem.thy ===== *)
theory Enclave_Mem
  imports Bitops
begin

text \<open>
  The enclave memory manager, \<^verbatim>\<open>src/src/enclave/enclave_mem.c\<close>: a page allocator for the enclave heap over
  two bitmaps. Bit \<open>i\<close> of \<open>mmap_bitmap\<close> says that the page at \<open>mmap_end - i * PAGE_SIZE\<close> is mapped; bit
  \<open>i\<close> of \<open>mmap_fresh_bitmap\<close> that the page has never been handed out and therefore still holds zeroes.
  The file's static variables are the record \<open>enclave_mem\<close>, which also carries the contents of memory
  (\<open>heap\<close>), the calls made to the host's \<^verbatim>\<open>mprotect\<close> in order (\<open>mprotect_log\<close>) and whether \<open>mmaplock\<close>
  is held. Addresses and sizes are 64-bit words and wrap as in C. An operation returns \<open>None\<close> when it
  does not return: a counting loop that never ends, or a lock taken twice.
\<close>

unbundle bit_operations_syntax

section \<open>State and address arithmetic\<close>

abbreviation (input) PAGE_SIZE :: u64 where "PAGE_SIZE \<equiv> 4096"
abbreviation (input) EN_INVAL :: u64 where "EN_INVAL \<equiv> 22"
abbreviation (input) EN_NOMEM :: u64 where "EN_NOMEM \<equiv> 12"
abbreviation (input) PROT_WRITE :: u32 where "PROT_WRITE \<equiv> 2"

record enclave_mem =
  mmap_bitmap :: "u64 list"
  mmap_fresh_bitmap :: "u64 list"
  mmap_base :: u64
  mmap_end :: u64
  mmap_num_pages :: u64
  mmap_files :: int
  used_pages :: u64
  sgxlkl_trace_mmap :: bool
  mmap_max_allocated :: u64
  mmaplock_held :: bool
  heap :: "u64 \<Rightarrow> u8"
  mprotect_log :: "(u64 \<times> u64 \<times> u32) list"

definition DIV_ROUNDUP :: "u64 \<Rightarrow> u64 \<Rightarrow> u64" where
  "DIV_ROUNDUP x y = (x + (y - 1)) div y"

text \<open>The loop of \<open>bitmap_count_set_bits\<close>; \<open>bound\<close> is \<^verbatim>\<open>start + nr\<close>.\<close>

partial_function (option) count_set_bits_loop :: "u64 list \<Rightarrow> nat \<Rightarrow> nat \<Rightarrow> nat \<Rightarrow> nat \<Rightarrow> nat option" where
  "count_set_bits_loop bm sz bound b retval =
     (if b < bound then count_set_bits_loop bm sz bound (find_next_bit bm sz (b + 1)) (retval + 1)
      else Some retval)"

declare count_set_bits_loop.simps [code]

definition bitmap_count_set_bits :: "u64 list \<Rightarrow> u64 \<Rightarrow> u64 \<Rightarrow> u64 \<Rightarrow> nat option" where
  "bitmap_count_set_bits bm sz start nr =
     count_set_bits_loop bm (unat sz) (unat (start + nr)) (find_next_bit bm (unat sz) (unat start)) 0"

text \<open>First fit: \<open>nr\<close> consecutive clear bits at or after \<open>start\<close>; past \<open>size\<close> if there are none.\<close>

function bitmap_find_next_zero_area :: "u64 list \<Rightarrow> nat \<Rightarrow> nat \<Rightarrow> nat \<Rightarrow> nat" where
  "bitmap_find_next_zero_area bm sz start nr =
     (let index = find_next_zero_bit bm sz start;
          stop = (index + nr) mod 2 ^ 64
      in if stop > sz then stop
         else
           let i = find_next_bit bm stop index
           in if i < stop then bitmap_find_next_zero_area bm sz (i + 1) nr else index)"
  by pat_completeness auto
termination
proof (relation "measure (\<lambda>(bm, sz, start, nr). sz - start)", simp)
  fix bm :: "u64 list" and sz start nr index stop i :: nat
  assume index: "index = find_next_zero_bit bm sz start" and e: "\<not> sz < stop"
    and i: "i = find_next_bit bm stop index" "i < stop"
  have le: "index \<le> i"
    using i find_next_bit_ge [of index stop bm] by (cases "index \<le> stop")
      (auto simp: find_next_bit_def find_next_past)
  have "start \<le> index"
  proof (cases "start \<le> sz")
    case True
    then show ?thesis using index find_next_zero_bit_ge by blast
  next
    case False
    then have "index = sz" using index by (simp add: find_next_zero_bit_def find_next_past)
    with le i e show ?thesis by simp
  qed
  with le i e show "((bm, sz, i + 1, nr), bm, sz, start, nr) \<in> measure (\<lambda>(bm, sz, start, nr). sz - start)"
    by auto
qed

declare bitmap_find_next_zero_area.simps [simp del]

definition in_mmap_range :: "enclave_mem \<Rightarrow> u64 \<Rightarrow> u64 \<Rightarrow> bool" where
  "in_mmap_range s addr sz \<longleftrightarrow> mmap_base s \<le> addr \<and> addr + sz \<le> mmap_end s"

definition index_to_addr :: "enclave_mem \<Rightarrow> u64 \<Rightarrow> u64" where
  "index_to_addr s index = mmap_end s - index * PAGE_SIZE"

text \<open>The pointer difference is signed, so the division truncates towards zero.\<close>

definition addr_to_index :: "enclave_mem \<Rightarrow> u64 \<Rightarrow> u64" where
  "addr_to_index s addr =
     (let d = mmap_end s - addr
      in if 0 \<le> sint d then d div PAGE_SIZE else - ((- d) div PAGE_SIZE))"

definition enclave_mem_info :: "enclave_mem \<Rightarrow> u64 \<times> u64" where
  "enclave_mem_info s =
     (mmap_num_pages s * PAGE_SIZE, (mmap_num_pages s - used_pages s) * PAGE_SIZE)"

section \<open>Operations\<close>

text \<open>\<^verbatim>\<open>bitmap_set\<close> and \<^verbatim>\<open>bitmap_clear\<close> take \<^verbatim>\<open>int\<close>, so their arguments are converted from \<^verbatim>\<open>size_t\<close>.\<close>

definition bitmap_set_ul :: "u64 list \<Rightarrow> u64 \<Rightarrow> u64 \<Rightarrow> u64 list" where
  "bitmap_set_ul bm start nr = bitmap_set bm (int_of_ulong start) (int_of_ulong nr)"

definition bitmap_clear_ul :: "u64 list \<Rightarrow> u64 \<Rightarrow> u64 \<Rightarrow> u64 list" where
  "bitmap_clear_ul bm start nr = bitmap_clear bm (int_of_ulong start) (int_of_ulong nr)"

text \<open>
  \<open>enclave_mman_init\<close>. The two bitmaps are the words found at their addresses before the call,
  \<open>bitmap_words\<close> and \<open>fresh_words\<close>; the heap keeps its contents.
\<close>

definition enclave_mman_init ::
    "u64 list \<Rightarrow> u64 list \<Rightarrow> u64 \<Rightarrow> u64 \<Rightarrow> int \<Rightarrow> enclave_mem \<Rightarrow> enclave_mem" where
  "enclave_mman_init bitmap_words fresh_words base0 num_pages0 files s =
     (let (base, num_pages) = (if base0 = 0 then (base0 + PAGE_SIZE, num_pages0 - 1) else (base0, num_pages0));
          bitmap_req_pages = DIV_ROUNDUP num_pages (8 * PAGE_SIZE);
          n = num_pages - 2 * bitmap_req_pages;
          mbase = base + 2 * bitmap_req_pages * PAGE_SIZE
      in s \<lparr> mmap_num_pages := n,
             mmap_base := mbase,
             mmap_end := mbase + (n - 2) * PAGE_SIZE,
             mmap_bitmap := bitmap_clear_ul bitmap_words 0 n,
             mmap_fresh_bitmap := bitmap_set_ul fresh_words 0 n,
             mmap_files := files \<rparr>)"

definition lock_mmap :: "enclave_mem \<Rightarrow> enclave_mem option" where
  "lock_mmap s = (if mmaplock_held s then None else Some (s \<lparr> mmaplock_held := True \<rparr>))"

definition unlock_mmap :: "enclave_mem \<Rightarrow> enclave_mem" where
  "unlock_mmap s = s \<lparr> mmaplock_held := False \<rparr>"

definition memset :: "(u64 \<Rightarrow> u8) \<Rightarrow> u64 \<Rightarrow> u8 \<Rightarrow> u64 \<Rightarrow> u64 \<Rightarrow> u8" where
  "memset h p c n = (\<lambda>a. if a - p < n then c else h a)"

definition memcpy :: "(u64 \<Rightarrow> u8) \<Rightarrow> u64 \<Rightarrow> u64 \<Rightarrow> u64 \<Rightarrow> u64 \<Rightarrow> u8" where
  "memcpy h dst src n = (\<lambda>a. if a - dst < n then h (src + (a - dst)) else h a)"

definition host_mprotect :: "u64 \<Rightarrow> u64 \<Rightarrow> u32 \<Rightarrow> enclave_mem \<Rightarrow> enclave_mem" where
  "host_mprotect addr len prot s = s \<lparr> mprotect_log := mprotect_log s @ [(addr, len, prot)] \<rparr>"

text \<open>The first free area of \<open>npages\<close> pages, or \<open>-ENOMEM\<close>.\<close>

definition mmap_search :: "u64 \<Rightarrow> enclave_mem \<Rightarrow> u64 \<times> u64 \<times> enclave_mem" where
  "mmap_search npages s =
     (let index_top =
        of_nat (bitmap_find_next_zero_area (mmap_bitmap s) (unat (mmap_num_pages s)) 0 (unat npages))
      in if index_top + npages > mmap_num_pages s then (- EN_NOMEM, index_top, s)
         else (index_to_addr s (index_top + (npages - 1)), index_top,
               s \<lparr> mmap_bitmap := bitmap_set_ul (mmap_bitmap s) index_top npages \<rparr>))"

text \<open>
  \<open>enclave_mmap\<close>, in the three stages of the source. The first, under the lock, chooses the pages: a
  fixed address, the hint if its range is free, else the first free area. It returns the address or
  error, the top bitmap index and the number of pages that were already mapped.
\<close>

definition mmap_place ::
    "u64 \<Rightarrow> u64 \<Rightarrow> bool \<Rightarrow> u64 \<Rightarrow> enclave_mem \<Rightarrow> (u64 \<times> u64 \<times> u64 \<times> enclave_mem) option" where
  "mmap_place addr len fixed npages s =
     (let try_hint =
        (if fixed then
           (if \<not> in_mmap_range s addr len then Some (- EN_NOMEM, 0, 0, s)
            else
              let index_top = addr_to_index s addr - (npages - 1)
              in do {
                replaced \<leftarrow>
                  (if sgxlkl_trace_mmap s
                   then bitmap_count_set_bits (mmap_bitmap s) (mmap_num_pages s) index_top npages
                   else Some 0);
                Some (addr, index_top, of_nat replaced,
                      s \<lparr> mmap_bitmap := bitmap_set_ul (mmap_bitmap s) index_top npages \<rparr>) })
         else if addr \<noteq> 0 \<and> in_mmap_range s addr len then
           let index_top = addr_to_index s addr - (npages - 1)
           in do {
             c \<leftarrow> bitmap_count_set_bits (mmap_bitmap s) (mmap_num_pages s) index_top npages;
             if c = 0
             then Some (addr, index_top, 0,
                        s \<lparr> mmap_bitmap := bitmap_set_ul (mmap_bitmap s) index_top npages \<rparr>)
             else Some (0, index_top, 0, s) }
         else Some (0, 0, 0, s))
      in do {
        (ret, index_top, replaced, s1) \<leftarrow> try_hint;
        if ret = 0 then
          let (ret, index_top, s2) = mmap_search npages s1 in Some (ret, index_top, replaced, s2)
        else Some (ret, index_top, replaced, s1) })"

text \<open>
  The second stage, after a successful placement: freshness is read and cleared, the lock released,
  the pages zeroed if one of them was not fresh, and the protection set.
\<close>

definition mmap_finish ::
    "u64 \<Rightarrow> u64 \<Rightarrow> u64 \<Rightarrow> u64 \<Rightarrow> u32 \<Rightarrow> bool \<Rightarrow> u64 \<Rightarrow> enclave_mem \<Rightarrow> enclave_mem option" where
  "mmap_finish ret len npages index_top prot zero_pages replaced s =
     do {
       found_only_fresh_pages \<leftarrow>
         (if zero_pages
          then do {
            c \<leftarrow> bitmap_count_set_bits (mmap_fresh_bitmap s) (mmap_num_pages s) index_top npages;
            Some (of_nat c = npages) }
          else Some False);
       let s1 = unlock_mmap
         (s \<lparr> mmap_fresh_bitmap := bitmap_clear_ul (mmap_fresh_bitmap s) index_top npages \<rparr>);
       let s2 =
         (if zero_pages \<and> \<not> found_only_fresh_pages then
            let t1 = (if prot \<noteq> -1 then host_mprotect ret len (prot OR PROT_WRITE) s1 else s1);
                t2 = t1 \<lparr> heap := memset (heap t1) ret 0 (npages * PAGE_SIZE) \<rparr>
            in if prot \<noteq> -1 \<and> prot OR PROT_WRITE \<noteq> prot then host_mprotect ret len prot t2 else t2
          else s1);
       let s3 =
         (if prot \<noteq> -1 \<and> (\<not> zero_pages \<or> found_only_fresh_pages) then host_mprotect ret len prot s2
          else s2);
       Some (s3 \<lparr> used_pages := used_pages s3 + (npages - replaced) \<rparr>)
     }"

text \<open>The statistics of the tracing build.\<close>

definition mmap_trace :: "enclave_mem \<Rightarrow> enclave_mem" where
  "mmap_trace s =
     (if sgxlkl_trace_mmap s then
        let total = mmap_num_pages s * PAGE_SIZE;
            free = (mmap_num_pages s - used_pages s) * PAGE_SIZE;
            used = total - free
        in if mmap_max_allocated s < used then s \<lparr> mmap_max_allocated := used \<rparr> else s
      else s)"

definition enclave_mmap ::
    "u64 \<Rightarrow> u64 \<Rightarrow> bool \<Rightarrow> u32 \<Rightarrow> bool \<Rightarrow> enclave_mem \<Rightarrow> (u64 \<times> enclave_mem) option" where
  "enclave_mmap addr len mmap_fixed prot zero_pages s =
     (let npages = DIV_ROUNDUP len PAGE_SIZE
      in if addr mod PAGE_SIZE \<noteq> 0 \<or> len = 0 then Some (- EN_INVAL, s)
         else do {
           s0 \<leftarrow> lock_mmap s;
           (ret, index_top, replaced, s1) \<leftarrow> mmap_place addr len mmap_fixed npages s0;
           s2 \<leftarrow> (if 0 \<le> sint ret
                 then mmap_finish ret len npages index_top prot zero_pages replaced s1
                 else Some (unlock_mmap s1));
           Some (ret, mmap_trace s2) })"

definition enclave_munmap :: "u64 \<Rightarrow> u64 \<Rightarrow> enclave_mem \<Rightarrow> (u64 \<times> enclave_mem) option" where
  "enclave_munmap addr len s =
     (let npages = DIV_ROUNDUP len PAGE_SIZE
      in if addr mod PAGE_SIZE \<noteq> 0 \<or> len = 0 \<or> \<not> in_mmap_range s addr len then Some (- EN_INVAL, s)
         else
           let index_top = addr_to_index s addr - (npages - 1)
           in do {
             s0 \<leftarrow> lock_mmap s;
             occupied \<leftarrow> bitmap_count_set_bits (mmap_bitmap s0) (mmap_num_pages s0) index_top npages;
             let s1 = s0 \<lparr> used_pages := used_pages s0 - of_nat occupied \<rparr>;
             let s2 = s1 \<lparr> mmap_bitmap := bitmap_clear_ul (mmap_bitmap s1) index_top npages \<rparr>;
             Some (0, unlock_mmap s2) })"

definition enclave_mremap ::
    "u64 \<Rightarrow> u64 \<Rightarrow> u64 \<Rightarrow> u64 \<Rightarrow> bool \<Rightarrow> enclave_mem \<Rightarrow> (u64 \<times> enclave_mem) option" where
  "enclave_mremap old_addr old_len new_addr new_len mremap_fixed s =
     (if mremap_fixed then Some (- EN_INVAL, s)
      else do {
        (ret, s1) \<leftarrow> enclave_mmap new_addr new_len False (-1) False s;
        if 0 \<le> sint ret then do {
          let s2 = s1 \<lparr> heap := memcpy (heap s1) ret old_addr
                          (if old_len > new_len then new_len else old_len) \<rparr>;
          (_, s3) \<leftarrow> enclave_munmap old_addr old_len s2;
          Some (ret, s3) }
        else Some (ret, s1) })"

section \<open>Counting and searching\<close>

lemma count_set_bits_loop_spec:
  assumes "bound \<le> sz" and "k \<le> bound"
  shows "count_set_bits_loop bm sz bound (find_next_bit bm sz k) r =
    Some (r + card {i. k \<le> i \<and> i < bound \<and> bitmap_test bm i})"
  using assms
proof (induction "bound - k" arbitrary: k r rule: less_induct)
  case less
  let ?b = "find_next_bit bm sz k" and ?S = "\<lambda>k. {i. k \<le> i \<and> i < bound \<and> bitmap_test bm i}"
  show ?case
  proof (cases "k < sz")
    case False
    then have "?b = sz" "?S k = {}" using less.prems by (auto simp: find_next_bit_def find_next_past)
    with less.prems show ?thesis by (simp add: count_set_bits_loop.simps)
  next
    case True
    have fs: "first_seen (bitmap_test bm) k sz ?b" by (rule find_next_bit_spec [OF True])
    show ?thesis
    proof (cases "?b < bound")
      case True
      have "?S k = insert ?b (?S (?b + 1))"
      proof (intro set_eqI iffI)
        fix i
        assume "i \<in> ?S k"
        then show "i \<in> insert ?b (?S (?b + 1))"
          using fs True less.prems unfolding first_seen_def
          by (cases i ?b rule: linorder_cases) auto
      next
        fix i
        assume "i \<in> insert ?b (?S (?b + 1))"
        then show "i \<in> ?S k"
          using fs True less.prems unfolding first_seen_def by auto
      qed
      then have "card (?S k) = Suc (card (?S (?b + 1)))" by simp
      moreover have "k \<le> ?b" using fs by (simp add: first_seen_def)
      then have "count_set_bits_loop bm sz bound (find_next_bit bm sz (?b + 1)) (r + 1) =
          Some (r + 1 + card (?S (?b + 1)))"
        using True less.prems by (intro less.hyps) auto
      ultimately show ?thesis
        using True by (subst count_set_bits_loop.simps) simp
    next
      case False
      then have "?S k = {}"
        using fs less.prems unfolding first_seen_def by auto
      with False show ?thesis by (subst count_set_bits_loop.simps) simp
    qed
  qed
qed

lemma bitmap_count_set_bits_spec:
  assumes "unat start + unat nr \<le> unat sz"
  shows "bitmap_count_set_bits bm sz start nr =
    Some (card {i. unat start \<le> i \<and> i < unat start + unat nr \<and> bitmap_test bm i})"
proof -
  have "unat sz < 2 ^ 64" by (rule unat_lt64)
  then have "unat (start + nr) = unat start + unat nr"
    using assms by (intro unat_add_small) simp
  with assms show ?thesis
    by (simp add: bitmap_count_set_bits_def count_set_bits_loop_spec)
qed

definition free_run :: "u64 list \<Rightarrow> nat \<Rightarrow> nat \<Rightarrow> bool" where
  "free_run bm start nr \<longleftrightarrow> (\<forall>i. start \<le> i \<and> i < start + nr \<longrightarrow> \<not> bitmap_test bm i)"

lemma free_run_count:
  "card {i. start \<le> i \<and> i < start + nr \<and> bitmap_test bm i} = 0 \<longleftrightarrow> free_run bm start nr"
  by (auto simp: free_run_def)

lemma run_count_le: "card {i. start \<le> i \<and> i < start + nr \<and> bitmap_test bm i} \<le> nr"
proof -
  have "{i. start \<le> i \<and> i < start + nr \<and> bitmap_test bm i} \<subseteq> {start..<start + nr}" by auto
  from card_mono [OF finite_atLeastLessThan this] show ?thesis by simp
qed

lemma full_run_count:
  "card {i. start \<le> i \<and> i < start + nr \<and> bitmap_test bm i} = nr \<longleftrightarrow>
     (\<forall>i. start \<le> i \<and> i < start + nr \<longrightarrow> bitmap_test bm i)"
proof -
  define S where "S = {i. start \<le> i \<and> i < start + nr \<and> bitmap_test bm i}"
  define R where "R = {start..<start + nr}"
  have sub: "S \<subseteq> R" and fin: "finite R" and card: "card R = nr" by (auto simp: S_def R_def)
  have "card S = nr \<longleftrightarrow> S = R"
    using card_subset_eq [OF fin sub] card by auto
  also have "\<dots> \<longleftrightarrow> (\<forall>i. start \<le> i \<and> i < start + nr \<longrightarrow> bitmap_test bm i)"
    using sub by (auto simp: S_def R_def)
  finally show ?thesis by (simp only: S_def)
qed

text \<open>First fit is sound, complete and returns the lowest free area.\<close>

definition first_fit :: "u64 list \<Rightarrow> nat \<Rightarrow> nat \<Rightarrow> nat \<Rightarrow> nat \<Rightarrow> bool" where
  "first_fit bm sz start nr r \<longleftrightarrow>
     (r + nr \<le> sz \<longrightarrow> start \<le> r \<and> free_run bm r nr) \<and>
     (\<forall>t. start \<le> t \<and> t + nr \<le> sz \<and> free_run bm t nr \<longrightarrow> r \<le> t)"

lemma first_fit_skip:
  assumes "first_fit bm sz m nr r" and "start \<le> m"
    and none: "\<And>t. start \<le> t \<Longrightarrow> t < m \<Longrightarrow> t + nr \<le> sz \<Longrightarrow> \<not> free_run bm t nr"
  shows "first_fit bm sz start nr r"
proof -
  have "r \<le> t" if "start \<le> t" "t + nr \<le> sz" "free_run bm t nr" for t
    using assms(1) that none [of t] by (cases "t < m") (simp_all add: first_fit_def)
  with assms(1,2) show ?thesis by (auto simp: first_fit_def)
qed

lemma zero_area_unfold:
  assumes "sz + 64 + nr < 2 ^ 64" and "index = find_next_zero_bit bm sz start"
  shows "bitmap_find_next_zero_area bm sz start nr =
    (if index + nr > sz then index + nr
     else if find_next_bit bm (index + nr) index < index + nr
     then bitmap_find_next_zero_area bm sz (find_next_bit bm (index + nr) index + 1) nr
     else index)"
proof -
  have "(index + nr) mod 2 ^ 64 = index + nr"
    using assms find_next_zero_bit_bound [of bm sz start] by simp
  then show ?thesis
    unfolding bitmap_find_next_zero_area.simps [of bm sz start] Let_def assms(2) [symmetric] by simp
qed

lemma not_free_run: "bitmap_test bm i \<Longrightarrow> t \<le> i \<Longrightarrow> i < t + nr \<Longrightarrow> \<not> free_run bm t nr"
  by (auto simp: free_run_def)

lemma zero_area_first_fit:
  assumes "start \<le> sz" and "0 < nr" and "sz + 64 + nr < 2 ^ 64"
  shows "first_fit bm sz start nr (bitmap_find_next_zero_area bm sz start nr)"
  using assms(1)
proof (induction "sz - start" arbitrary: start rule: less_induct)
  case less
  define index where "index = find_next_zero_bit bm sz start"
  note unfold = zero_area_unfold [OF assms(3) index_def]
  have ge: "start \<le> index" unfolding index_def by (rule find_next_zero_bit_ge [OF less.prems(1)])
  have low: "\<not> free_run bm t nr" if t: "start \<le> t" "t < index" "t + nr \<le> sz" for t
  proof (rule not_free_run [of bm t])
    have "start < sz" "t < sz" using t assms(2) by linarith+
    from find_next_zero_bit_spec [OF this(1), of bm] show "bitmap_test bm t"
      using t \<open>t < sz\<close> unfolding first_seen_def index_def by blast
  qed (use assms(2) in simp_all)
  define i where "i = find_next_bit bm (index + nr) index"
  have "first_seen (bitmap_test bm) index (index + nr) i"
    unfolding i_def by (rule find_next_bit_spec) (use assms(2) in simp)
  then have fs: "index \<le> i" "i < index + nr \<Longrightarrow> bitmap_test bm i"
      "\<And>j. index \<le> j \<Longrightarrow> j < i \<Longrightarrow> j < index + nr \<Longrightarrow> \<not> bitmap_test bm j"
    unfolding first_seen_def by blast+
  consider (full) "sz < index + nr" | (hit) "index + nr \<le> sz" "i < index + nr"
    | (free) "index + nr \<le> sz" "index + nr \<le> i" by linarith
  then show ?case
  proof cases
    case full
    then have "first_fit bm sz index nr (index + nr)" by (auto simp: first_fit_def)
    from first_fit_skip [OF this ge low] have "first_fit bm sz start nr (index + nr)" .
    with full show ?thesis unfolding unfold by simp
  next
    case hit
    have "first_fit bm sz (i + 1) nr (bitmap_find_next_zero_area bm sz (i + 1) nr)"
      by (rule less.hyps) (use hit ge fs(1) in linarith)+
    moreover have "\<not> free_run bm t nr" if t: "start \<le> t" "t < i + 1" "t + nr \<le> sz" for t
    proof (cases "t < index")
      case True
      with low t show ?thesis by blast
    next
      case False
      with t hit fs(2) show ?thesis by (intro not_free_run [of bm i]) simp_all
    qed
    moreover have "start \<le> i + 1" using ge fs(1) by simp
    ultimately have "first_fit bm sz start nr (bitmap_find_next_zero_area bm sz (i + 1) nr)"
      using first_fit_skip [of bm sz "i + 1" nr _ start] by blast
    with hit show ?thesis unfolding unfold i_def [symmetric] by simp
  next
    case free
    have "free_run bm index nr" unfolding free_run_def using fs(3) free(2) by simp
    then have "first_fit bm sz index nr index" by (simp add: first_fit_def)
    from first_fit_skip [OF this ge low] have "first_fit bm sz start nr index" .
    with free show ?thesis unfolding unfold i_def [symmetric] by simp
  qed
qed

lemma zero_area_bound: "bitmap_find_next_zero_area bm sz start nr < sz + 64 + nr"
proof (induction bm sz start nr rule: bitmap_find_next_zero_area.induct)
  case (1 bm sz start nr)
  have "find_next_zero_bit bm sz start < sz + 64" by (rule find_next_zero_bit_bound)
  moreover have "(find_next_zero_bit bm sz start + nr) mod 2 ^ 64 \<le> find_next_zero_bit bm sz start + nr"
    by simp
  ultimately show ?case
    using 1 [OF refl refl _ refl] unfolding bitmap_find_next_zero_area.simps [of bm sz start nr] Let_def
    by (auto simp del: mod_less_eq_dividend)
qed

section \<open>The invariant and the page layout\<close>

definition npages_of :: "enclave_mem \<Rightarrow> nat" where
  "npages_of s = unat (mmap_num_pages s)"

text \<open>
  The layout \<open>enclave_mman_init\<close> sets up: bitmaps large enough, fewer than \<open>2 ^ 31\<close> pages so that
  the conversions to \<^verbatim>\<open>int\<close> keep their value, a page-aligned heap in the positive half of the
  address space with room for the bitmaps below it. Between operations the lock is free.
\<close>

definition mem_layout :: "enclave_mem \<Rightarrow> bool" where
  "mem_layout s \<longleftrightarrow>
     2 \<le> npages_of s \<and> npages_of s < 2 ^ 31 \<and>
     npages_of s \<le> 64 * length (mmap_bitmap s) \<and>
     npages_of s \<le> 64 * length (mmap_fresh_bitmap s) \<and>
     unat (mmap_base s) mod 4096 = 0 \<and> 8192 \<le> unat (mmap_base s) \<and>
     unat (mmap_end s) = unat (mmap_base s) + (npages_of s - 2) * 4096 \<and>
     unat (mmap_end s) + 4096 \<le> 2 ^ 63"

definition mem_inv :: "enclave_mem \<Rightarrow> bool" where
  "mem_inv s \<longleftrightarrow> mem_layout s \<and> \<not> mmaplock_held s"

definition page_addr :: "enclave_mem \<Rightarrow> nat \<Rightarrow> u64" where
  "page_addr s i = index_to_addr s (of_nat i)"

lemma mem_layoutD:
  assumes "mem_layout s"
  shows "2 \<le> npages_of s" and "npages_of s < 2 ^ 31"
    and "npages_of s \<le> 64 * length (mmap_bitmap s)"
    and "npages_of s \<le> 64 * length (mmap_fresh_bitmap s)"
    and "unat (mmap_base s) mod 4096 = 0" and "8192 \<le> unat (mmap_base s)"
    and "unat (mmap_end s) = unat (mmap_base s) + (npages_of s - 2) * 4096"
    and "unat (mmap_end s) + 4096 \<le> 2 ^ 63"
  using assms unfolding mem_layout_def by blast+

lemma unat_page_addr:
  assumes "mem_layout s" and "i < npages_of s"
  shows "unat (page_addr s i) + i * 4096 = unat (mmap_end s)"
proof -
  note inv = mem_layoutD [OF assms(1)]
  have "unat (of_nat i :: u64) = i"
    using assms(2) inv(2) by (intro unat_of_nat_small) simp
  then have m: "unat (of_nat i * 4096 :: u64) = i * 4096"
    using assms(2) inv(2) by (subst unat_mult_small) simp_all
  have "i * 4096 \<le> unat (mmap_end s)"
    using assms(2) inv(1,6,7) by simp
  then have "of_nat i * 4096 \<le> mmap_end s" by (simp add: word_le_nat_alt m)
  then have "unat (page_addr s i) = unat (mmap_end s) - i * 4096"
    by (simp add: page_addr_def index_to_addr_def unat_sub_small m)
  with \<open>i * 4096 \<le> unat (mmap_end s)\<close> show ?thesis by simp
qed

text \<open>Rounding a request up to pages, when adding the page size does not wrap.\<close>

definition req_pages :: "u64 \<Rightarrow> nat" where
  "req_pages len = (unat len + 4095) div 4096"

lemma unat_DIV_ROUNDUP:
  assumes "unat len + 4095 < 2 ^ 64"
  shows "unat (DIV_ROUNDUP len 4096) = req_pages len"
proof -
  have "unat (len + 4095) = unat len + 4095"
    using assms by (subst unat_add_small) simp_all
  then show ?thesis by (simp add: DIV_ROUNDUP_def unat_div req_pages_def)
qed

lemma req_pages_pos: "len \<noteq> 0 \<Longrightarrow> 0 < req_pages len"
  by (simp add: req_pages_def div_greater_zero_iff unat_gt_0 Suc_le_eq)

lemma req_pages_cover: "unat len \<le> req_pages len * 4096"
  unfolding req_pages_def by linarith

lemma req_pages_least: "unat len \<le> k * 4096 \<Longrightarrow> req_pages len \<le> k"
  unfolding req_pages_def by linarith

text \<open>
  A page-aligned range inside \<open>mmap_base .. mmap_end\<close>: its pages are the indices
  \<open>top, \<dots>, top + k - 1\<close>, the last of them at the given address, and index 0 is never among them.
\<close>

lemma in_range_index:
  assumes inv: "mem_layout s" and al: "addr mod 4096 = 0" and nw: "unat addr + unat len < 2 ^ 64"
    and r: "in_mmap_range s addr len" and len: "len \<noteq> 0"
  defines "k \<equiv> req_pages len"
  obtains top where "addr_to_index s addr - (of_nat k - 1) = of_nat top"
    and "1 \<le> top" and "top + k < npages_of s" and "addr = page_addr s (top + k - 1)"
proof -
  note I = mem_layoutD [OF inv]
  have sum: "unat (addr + len) = unat addr + unat len" using nw by (intro unat_add_small) simp
  have lo: "unat (mmap_base s) \<le> unat addr" and hi: "unat addr + unat len \<le> unat (mmap_end s)"
    using r by (simp_all add: in_mmap_range_def word_le_nat_alt sum)
  have al': "unat addr mod 4096 = 0"
    using arg_cong [OF al, of unat] by (simp add: unat_mod)
  have "unat (mmap_end s) mod 4096 = 0" using I(5,7) by simp
  with al' lo hi have ex: "4096 dvd unat (mmap_end s) - unat addr"
    by (meson dvd_diff_nat mod_eq_0_iff_dvd)
  define ix where "ix = (unat (mmap_end s) - unat addr) div 4096"
  have E: "unat (mmap_end s) = unat addr + ix * 4096"
    using ex hi unfolding ix_def by (simp add: dvd_div_mult_self)
  have k: "0 < k" "k \<le> ix" unfolding k_def
    using E hi by (auto intro!: req_pages_pos len req_pages_least)
  have ix: "ix \<le> npages_of s - 2" using E lo I(7) by simp
  have "unat (mmap_end s - addr) = ix * 4096"
    using E by (subst unat_sub_small) (simp_all add: word_le_nat_alt)
  moreover from this have "0 \<le> sint (mmap_end s - addr)"
    unfolding sint_nonneg_iff using I(8) E by linarith
  ultimately have "unat (addr_to_index s addr) = ix"
    by (simp add: addr_to_index_def unat_div)
  then have "addr_to_index s addr = of_nat ix" by (metis of_nat_unat)
  then have top: "addr_to_index s addr - (of_nat k - 1) = of_nat (ix - (k - 1))"
    using k by (simp add: of_nat_diff)
  have pa: "addr = page_addr s ix"
    using unat_page_addr [OF inv, of ix] ix I(1) E by (simp add: word_eq_unat)
  have "ix - (k - 1) + k - 1 = ix" using k by linarith
  with pa have "addr = page_addr s (ix - (k - 1) + k - 1)" by (simp only:)
  then show thesis by (rule that [OF top, rotated 2]) (use k ix I(1) in linarith)+
qed

section \<open>Placement\<close>

text \<open>
  A placement of \<open>k\<close> pages at index \<open>t\<close>: the range lies in the bitmap, the address is that of its
  last index, and exactly its bits are set.
\<close>

definition placed :: "enclave_mem \<Rightarrow> nat \<Rightarrow> nat \<Rightarrow> u64 \<Rightarrow> enclave_mem \<Rightarrow> bool" where
  "placed s k t ret s' \<longleftrightarrow>
     t + k \<le> npages_of s \<and> ret = page_addr s (t + k - 1) \<and>
     s' = s \<lparr> mmap_bitmap := bitmap_set (mmap_bitmap s) (int t) (int k) \<rparr>"

lemma bitmap_set_ul_nat:
  assumes "mem_layout s" and "t + k \<le> npages_of s"
  shows "bitmap_set_ul bm (of_nat t) (of_nat k) = bitmap_set bm (int t) (int k)"
    and "bitmap_clear_ul bm (of_nat t) (of_nat k) = bitmap_clear bm (int t) (int k)"
  using assms(2) mem_layoutD(2) [OF assms(1)]
  by (simp_all add: bitmap_set_ul_def bitmap_clear_ul_def int_of_ulong_of_nat)

lemma bitmap_count_nat:
  assumes "mem_layout s" and "t + k \<le> npages_of s"
  shows "bitmap_count_set_bits bm (mmap_num_pages s) (of_nat t) (of_nat k) =
    Some (card {i. t \<le> i \<and> i < t + k \<and> bitmap_test bm i})"
proof -
  have "unat (of_nat t :: u64) = t" "unat (of_nat k :: u64) = k"
    using assms(2) mem_layoutD(2) [OF assms(1)] by (auto intro!: unat_of_nat_small)
  with assms(2) show ?thesis
    using bitmap_count_set_bits_spec [of "of_nat t" "of_nat k" "mmap_num_pages s" bm]
    by (simp add: npages_of_def)
qed

lemma page_addr_nonzero:
  assumes "mem_layout s" and "i < npages_of s"
  shows "page_addr s i \<noteq> 0" and "0 \<le> sint (page_addr s i)"
proof -
  note I = mem_layoutD [OF assms(1)] and u = unat_page_addr [OF assms]
  have "i * 4096 < unat (mmap_end s)" using I(1,6,7) assms(2) by simp
  with u show "page_addr s i \<noteq> 0" by auto
  show "0 \<le> sint (page_addr s i)" unfolding sint_nonneg_iff using u I(8) by linarith
qed

lemma area_none:
  assumes "first_fit bm sz 0 k r"
  shows "sz < r + k \<longleftrightarrow> (\<forall>t. t + k \<le> sz \<longrightarrow> \<not> free_run bm t k)"
proof
  assume less: "sz < r + k"
  show "\<forall>t. t + k \<le> sz \<longrightarrow> \<not> free_run bm t k"
  proof (intro allI impI notI)
    fix t
    assume "t + k \<le> sz" "free_run bm t k"
    with assms have "r \<le> t" by (simp add: first_fit_def)
    with less \<open>t + k \<le> sz\<close> show False by simp
  qed
next
  assume "\<forall>t. t + k \<le> sz \<longrightarrow> \<not> free_run bm t k"
  with assms show "sz < r + k" by (auto simp: first_fit_def not_le [symmetric])
qed

text \<open>Searching for a free area, the last step of the placement.\<close>

lemma place_area:
  assumes inv: "mem_layout s" and k: "0 < k" "k < 2 ^ 62"
  defines "r \<equiv> bitmap_find_next_zero_area (mmap_bitmap s) (npages_of s) 0 k"
  shows "(mmap_num_pages s < of_nat r + of_nat k) = (npages_of s < r + k)"
    and "npages_of s < r + k \<longleftrightarrow> (\<forall>t. t + k \<le> npages_of s \<longrightarrow> \<not> free_run (mmap_bitmap s) t k)"
    and "r + k \<le> npages_of s \<Longrightarrow> free_run (mmap_bitmap s) r k"
proof -
  note I = mem_layoutD [OF inv]
  have ff: "first_fit (mmap_bitmap s) (npages_of s) 0 k r"
    unfolding r_def by (rule zero_area_first_fit) (use I(2) k in simp_all)
  then show "r + k \<le> npages_of s \<Longrightarrow> free_run (mmap_bitmap s) r k"
    by (simp add: first_fit_def)
  with ff show "npages_of s < r + k \<longleftrightarrow> (\<forall>t. t + k \<le> npages_of s \<longrightarrow> \<not> free_run (mmap_bitmap s) t k)"
    using area_none [OF ff] by simp
  have "r < npages_of s + 64 + k" unfolding r_def by (rule zero_area_bound)
  then have "unat (of_nat r + of_nat k :: u64) = r + k"
    using I(2) k unfolding of_nat_add [symmetric] by (intro unat_of_nat_small) simp
  then show "(mmap_num_pages s < of_nat r + of_nat k) = (npages_of s < r + k)"
    by (simp add: word_less_nat_alt npages_of_def)
qed

text \<open>A request: page-aligned, not empty, and not wrapping around the address space.\<close>

definition request_ok :: "u64 \<Rightarrow> u64 \<Rightarrow> bool" where
  "request_ok addr len \<longleftrightarrow> addr mod 4096 = 0 \<and> len \<noteq> 0 \<and> unat addr + unat len + 4095 < 2 ^ 64"

lemma request_okD:
  assumes "request_ok addr len"
  shows "addr mod 4096 = 0" and "len \<noteq> 0" and "unat addr + unat len < 2 ^ 64"
    and "0 < req_pages len" and "req_pages len < 2 ^ 62"
    and "DIV_ROUNDUP len 4096 = of_nat (req_pages len)"
proof -
  show "addr mod 4096 = 0" "len \<noteq> 0" "unat addr + unat len < 2 ^ 64"
    using assms by (simp_all add: request_ok_def)
  show "0 < req_pages len" using assms by (simp add: request_ok_def req_pages_pos)
  have l: "unat len + 4095 < 2 ^ 64" using assms by (simp add: request_ok_def)
  then have "req_pages len * 4096 < 2 ^ 64" unfolding req_pages_def by linarith
  then show "req_pages len < 2 ^ 62" by simp
  show "DIV_ROUNDUP len 4096 = of_nat (req_pages len)"
    using unat_DIV_ROUNDUP [OF l] by (metis of_nat_unat)
qed

lemma in_range_pages:
  assumes inv: "mem_layout s" and req: "request_ok addr len" and r: "in_mmap_range s addr len"
  defines "k \<equiv> req_pages len"
  obtains t where "t + k \<le> npages_of s" and "addr = page_addr s (t + k - 1)"
    and "addr_to_index s addr - (of_nat k - 1) = of_nat t" and "addr \<noteq> 0"
proof -
  note R = request_okD [OF req, folded k_def]
  from in_range_index [OF inv R(1,3) r R(2), folded k_def] obtain t where
    t: "addr_to_index s addr - (of_nat k - 1) = of_nat t" "t + k < npages_of s"
       "addr = page_addr s (t + k - 1)" by metis
  have "addr \<noteq> 0" using page_addr_nonzero(1) [OF inv, of "t + k - 1"] t R(4) by simp
  from that [OF less_imp_le [OF t(2)] t(3,1) this] show thesis .
qed

definition replaced_count :: "enclave_mem \<Rightarrow> nat \<Rightarrow> nat \<Rightarrow> nat" where
  "replaced_count s t k =
     (if sgxlkl_trace_mmap s then card {i. t \<le> i \<and> i < t + k \<and> bitmap_test (mmap_bitmap s) i} else 0)"

lemma mmap_place_fixed:
  assumes inv: "mem_layout s" and req: "request_ok addr len" and r: "in_mmap_range s addr len"
  defines "k \<equiv> req_pages len"
  obtains t s' where
    "mmap_place addr len True (of_nat k) s = Some (addr, of_nat t, of_nat (replaced_count s t k), s')"
    and "placed s k t addr s'"
proof -
  from in_range_pages [OF inv req r, folded k_def] obtain t where
    t: "t + k \<le> npages_of s" "addr = page_addr s (t + k - 1)"
       "addr_to_index s addr - (of_nat k - 1) = of_nat t" "addr \<noteq> 0" .
  have "mmap_place addr len True (of_nat k) s =
      Some (addr, of_nat t, of_nat (replaced_count s t k),
        s \<lparr> mmap_bitmap := bitmap_set (mmap_bitmap s) (int t) (int k) \<rparr>)"
    using r t(4) by (simp add: mmap_place_def t(3) bitmap_count_nat [OF inv t(1)]
        bitmap_set_ul_nat [OF inv t(1)] replaced_count_def)
  with t(1,2) show thesis by (intro that) (simp_all add: placed_def)
qed

lemma mmap_search_spec:
  assumes inv: "mem_layout s" and k: "0 < k" "k < 2 ^ 62"
  defines "r \<equiv> bitmap_find_next_zero_area (mmap_bitmap s) (npages_of s) 0 k"
  shows "mmap_search (of_nat k) s =
    (if npages_of s < r + k then (- 12, of_nat r, s)
     else (page_addr s (r + k - 1), of_nat r,
        s \<lparr> mmap_bitmap := bitmap_set (mmap_bitmap s) (int r) (int k) \<rparr>))"
proof -
  note A = place_area [OF inv k, folded r_def]
  have u: "unat (of_nat k :: u64) = k" using k(2) by (intro unat_of_nat_small) simp
  have "index_to_addr s (of_nat r + (of_nat k - 1)) = page_addr s (r + k - 1)"
    using k(1) by (simp add: page_addr_def of_nat_diff algebra_simps)
  with A(1) bitmap_set_ul_nat(1) [OF inv] show ?thesis
    by (simp add: mmap_search_def u not_less r_def [symmetric] npages_of_def [symmetric])
qed

text \<open>The three ways a placement ends; \<open>fits\<close> says which pages the caller may receive.\<close>

definition fits :: "bool \<Rightarrow> u64 \<Rightarrow> u64 \<Rightarrow> nat \<Rightarrow> enclave_mem \<Rightarrow> bool" where
  "fits fixed addr len t s =
     (if fixed then in_mmap_range s addr len \<and> addr = page_addr s (t + req_pages len - 1)
      else free_run (mmap_bitmap s) t (req_pages len))"

definition no_fit :: "bool \<Rightarrow> u64 \<Rightarrow> u64 \<Rightarrow> enclave_mem \<Rightarrow> bool" where
  "no_fit fixed addr len s =
     (if fixed then \<not> in_mmap_range s addr len
      else \<forall>t. t + req_pages len \<le> npages_of s \<longrightarrow> \<not> free_run (mmap_bitmap s) t (req_pages len))"

lemma mmap_place_cases:
  assumes inv: "mem_layout s" and req: "request_ok addr len"
  defines "k \<equiv> req_pages len"
  obtains (fail) top where "mmap_place addr len fixed (of_nat k) s = Some (- 12, top, 0, s)"
      and "no_fit fixed addr len s"
  | (ok) t s' where "mmap_place addr len fixed (of_nat k) s =
        Some (page_addr s (t + k - 1), of_nat t, of_nat (if fixed then replaced_count s t k else 0), s')"
      and "placed s k t (page_addr s (t + k - 1)) s'" and "fits fixed addr len t s"
proof (cases fixed)
  case True
  show thesis
  proof (cases "in_mmap_range s addr len")
    case r: True
    from mmap_place_fixed [OF inv req r] obtain t s' where
      *: "mmap_place addr len True (of_nat k) s = Some (addr, of_nat t, of_nat (replaced_count s t k), s')"
      "placed s k t addr s'" unfolding k_def .
    then have a: "addr = page_addr s (t + k - 1)" by (simp add: placed_def)
    show thesis
      by (rule ok [of t s']) (use * a r True in \<open>simp_all add: fits_def k_def\<close>)
  next
    case False
    then show thesis using True by (intro fail [of 0]) (simp_all add: mmap_place_def no_fit_def)
  qed
next
  case False
  note R = request_okD [OF req, folded k_def]
  note search = mmap_search_spec [OF inv R(4,5)] and area = place_area(2,3) [OF inv R(4,5)]
  let ?r = "bitmap_find_next_zero_area (mmap_bitmap s) (npages_of s) 0 k"
  have searched: thesis if p: "mmap_place addr len fixed (of_nat k) s =
      (if npages_of s < ?r + k then Some (- 12, of_nat ?r, 0, s)
       else Some (page_addr s (?r + k - 1), of_nat ?r, 0,
          s \<lparr> mmap_bitmap := bitmap_set (mmap_bitmap s) (int ?r) (int k) \<rparr>))"
  proof (cases "npages_of s < ?r + k")
    case True
    with p area(1) False show thesis by (intro fail) (simp_all add: no_fit_def k_def)
  next
    case t: False
    with p area(2) False show thesis
      by (intro ok [of ?r]) (simp_all add: placed_def fits_def k_def)
  qed
  show thesis
  proof (cases "addr \<noteq> 0 \<and> in_mmap_range s addr len")
    case hint: True
    from in_range_pages [OF inv req conjunct2 [OF hint], folded k_def] obtain t where
      t: "t + k \<le> npages_of s" "addr = page_addr s (t + k - 1)"
         "addr_to_index s addr - (of_nat k - 1) = of_nat t" "addr \<noteq> 0" .
    note count = bitmap_count_nat [OF inv t(1)] free_run_count
    show thesis
    proof (cases "free_run (mmap_bitmap s) t k")
      case free: True
      have "mmap_place addr len fixed (of_nat k) s = Some (addr, of_nat t, 0,
          s \<lparr> mmap_bitmap := bitmap_set (mmap_bitmap s) (int t) (int k) \<rparr>)"
        using hint False free by (simp add: mmap_place_def t(3) count bitmap_set_ul_nat [OF inv t(1)])
      with t(1,2) free False show thesis by (intro ok [of t]) (simp_all add: placed_def fits_def k_def)
    next
      case taken: False
      show thesis
        by (rule searched) (use hint False taken in \<open>simp add: mmap_place_def t(3) count search\<close>)
    qed
  next
    case nohint: False
    show thesis
      by (rule searched) (use nohint False in \<open>auto simp: mmap_place_def search\<close>)
  qed
qed

section \<open>What the operations return and change\<close>

definition all_fresh :: "enclave_mem \<Rightarrow> nat \<Rightarrow> nat \<Rightarrow> bool" where
  "all_fresh s t k \<longleftrightarrow> (\<forall>i. t \<le> i \<and> i < t + k \<longrightarrow> bitmap_test (mmap_fresh_bitmap s) i)"

definition prot_calls :: "u64 \<Rightarrow> u64 \<Rightarrow> u32 \<Rightarrow> bool \<Rightarrow> (u64 \<times> u64 \<times> u32) list" where
  "prot_calls ret len prot zeroing =
     (if prot = -1 then []
      else if zeroing
      then (ret, len, prot OR 2) # (if prot OR 2 \<noteq> prot then [(ret, len, prot)] else [])
      else [(ret, len, prot)])"

definition mapped_state ::
    "u64 \<Rightarrow> u64 \<Rightarrow> nat \<Rightarrow> nat \<Rightarrow> u32 \<Rightarrow> bool \<Rightarrow> nat \<Rightarrow> enclave_mem \<Rightarrow> enclave_mem" where
  "mapped_state ret len t k prot zero_pages replaced s =
     (let zeroing = (zero_pages \<and> \<not> all_fresh s t k)
      in s \<lparr> mmap_bitmap := bitmap_set (mmap_bitmap s) (int t) (int k),
             mmap_fresh_bitmap := bitmap_clear (mmap_fresh_bitmap s) (int t) (int k),
             heap := (if zeroing then memset (heap s) ret 0 (of_nat k * 4096) else heap s),
             mprotect_log := mprotect_log s @ prot_calls ret len prot zeroing,
             used_pages := used_pages s + (of_nat k - of_nat replaced) \<rparr>)"

lemma mmap_finish_spec:
  assumes inv: "mem_layout s" and t: "t + k \<le> npages_of s"
  shows "mmap_finish ret len (of_nat k) (of_nat t) prot zero_pages (of_nat replaced)
      (s \<lparr> mmap_bitmap := bitmap_set (mmap_bitmap s) (int t) (int k), mmaplock_held := True \<rparr>) =
    Some (mapped_state ret len t k prot zero_pages replaced s \<lparr> mmaplock_held := False \<rparr>)"
proof -
  let ?c = "card {i. t \<le> i \<and> i < t + k \<and> bitmap_test (mmap_fresh_bitmap s) i}"
  have c: "?c \<le> k" by (rule run_count_le)
  have "k < 2 ^ 31" using t mem_layoutD(2) [OF inv] by simp
  then have "unat (of_nat ?c :: u64) = ?c" "unat (of_nat k :: u64) = k"
    using c by (auto intro!: unat_of_nat_small)
  then have eq: "(of_nat ?c :: u64) = of_nat k \<longleftrightarrow> all_fresh s t k"
    by (simp add: word_eq_unat full_run_count all_fresh_def)
  show ?thesis
    by (cases "all_fresh s t k")
      (simp_all add: mmap_finish_def eq bitmap_count_nat [OF inv t] bitmap_set_ul_nat [OF inv t]
        mapped_state_def prot_calls_def unlock_mmap_def host_mprotect_def Let_def)
qed

lemma layout_lock [simp]:
  "mem_layout (s \<lparr> mmaplock_held := b \<rparr>) = mem_layout s"
  by (simp add: mem_layout_def npages_of_def)

lemma unlocked: "mmaplock_held s = False \<Longrightarrow> s \<lparr> mmaplock_held := False \<rparr> = s"
  by (cases s) simp

lemma minus_12_negative: "\<not> 0 \<le> sint (- 12 :: u64)"
  unfolding sint_nonneg_iff by simp

text \<open>The complete behaviour of \<open>enclave_mmap\<close> on a well-formed request.\<close>

lemma enclave_mmap_cases:
  assumes inv: "mem_inv s" and req: "request_ok addr len"
  defines "k \<equiv> req_pages len"
  obtains (fail) "enclave_mmap addr len fixed prot zero_pages s = Some (- 12, mmap_trace s)"
      and "no_fit fixed addr len s"
  | (ok) t ret where "enclave_mmap addr len fixed prot zero_pages s =
        Some (ret, mmap_trace (mapped_state ret len t k prot zero_pages
                    (if fixed then replaced_count s t k else 0) s))"
      and "t + k \<le> npages_of s" and "ret = page_addr s (t + k - 1)" and "fits fixed addr len t s"
proof -
  let ?s = "s \<lparr> mmaplock_held := True \<rparr>"
  have lay: "mem_layout s" and free: "mmaplock_held s = False" using inv by (simp_all add: mem_inv_def)
  then have lay': "mem_layout ?s" by simp
  have same: "page_addr ?s = page_addr s" "npages_of ?s = npages_of s" "fits fixed addr len t ?s = fits fixed addr len t s"
    "no_fit fixed addr len ?s = no_fit fixed addr len s" "replaced_count ?s = replaced_count s" for t
    by (simp_all add: page_addr_def index_to_addr_def npages_of_def fits_def no_fit_def
        replaced_count_def in_mmap_range_def fun_eq_iff)
  note R = request_okD [OF req, folded k_def]
  have lock: "lock_mmap s = Some ?s" by (simp add: lock_mmap_def free)
  have restore: "s \<lparr> mmaplock_held := False \<rparr> = s" using free by (rule unlocked)
  from mmap_place_cases [OF lay' req, of fixed, folded k_def] show thesis
  proof cases
    case (1 top)
    with R(1,2) lock show thesis
      by (intro that(1)) (simp_all add: enclave_mmap_def R(6) minus_12_negative unlock_mmap_def restore same)
  next
    case (2 t s')
    then have t: "t + k \<le> npages_of s" by (simp add: placed_def same)
    have s': "s' = s \<lparr> mmap_bitmap := bitmap_set (mmap_bitmap s) (int t) (int k), mmaplock_held := True \<rparr>"
      using 2(2) by (simp add: placed_def)
    let ?ret = "page_addr s (t + k - 1)"
    have pos: "0 \<le> sint ?ret" using page_addr_nonzero(2) [OF lay] t R(4) by simp
    have out: "mapped_state r len t k prot zero_pages c s \<lparr> mmaplock_held := False \<rparr> =
        mapped_state r len t k prot zero_pages c s" for r c
      by (rule unlocked) (simp add: mapped_state_def Let_def free)
    show thesis
    proof (rule that(2) [OF _ t refl])
      show "fits fixed addr len t s" using 2(3) by (simp add: same)
      show "enclave_mmap addr len fixed prot zero_pages s =
        Some (?ret, mmap_trace (mapped_state ?ret len t k prot zero_pages
                    (if fixed then replaced_count s t k else 0) s))"
        using R(1,2) 2(1) pos
        by (simp add: enclave_mmap_def lock R(6) same s' mmap_finish_spec [OF lay t] out)
    qed
  qed
qed

text \<open>Without an address hint, the pages are the ones first fit finds.\<close>

lemma enclave_mmap_anywhere:
  assumes inv: "mem_inv s" and req: "request_ok 0 len"
  defines "k \<equiv> req_pages len"
  defines "t \<equiv> bitmap_find_next_zero_area (mmap_bitmap s) (npages_of s) 0 k"
  assumes t: "t + k \<le> npages_of s"
  shows "enclave_mmap 0 len False prot zero_pages s =
    Some (page_addr s (t + k - 1),
      mmap_trace (mapped_state (page_addr s (t + k - 1)) len t k prot zero_pages 0 s))"
proof -
  let ?s = "s \<lparr> mmaplock_held := True \<rparr>" and ?ret = "page_addr s (t + k - 1)"
  have lay: "mem_layout s" and free: "mmaplock_held s = False" using inv by (simp_all add: mem_inv_def)
  note R = request_okD [OF req, folded k_def]
  have same: "page_addr ?s = page_addr s" "npages_of ?s = npages_of s"
    by (simp_all add: page_addr_def index_to_addr_def npages_of_def fun_eq_iff)
  have "mmap_search (of_nat k) ?s =
      (?ret, of_nat t, ?s \<lparr> mmap_bitmap := bitmap_set (mmap_bitmap s) (int t) (int k) \<rparr>)"
    using mmap_search_spec [of ?s k] lay R(4,5) t by (simp add: same t_def)
  then have place: "mmap_place 0 len False (of_nat k) ?s =
      Some (?ret, of_nat t, 0, s \<lparr> mmap_bitmap := bitmap_set (mmap_bitmap s) (int t) (int k), mmaplock_held := True \<rparr>)"
    by (simp add: mmap_place_def)
  have pos: "0 \<le> sint ?ret" using page_addr_nonzero(2) [OF lay] t R(4) by simp
  have "mapped_state ?ret len t k prot zero_pages 0 s \<lparr> mmaplock_held := False \<rparr> =
      mapped_state ?ret len t k prot zero_pages 0 s"
    by (rule unlocked) (simp add: mapped_state_def Let_def free)
  then show ?thesis
    using R(2) place pos mmap_finish_spec [OF lay t, of ?ret len prot zero_pages 0]
    by (simp add: enclave_mmap_def lock_mmap_def free R(6))
qed

text \<open>The complete behaviour of \<open>enclave_munmap\<close> on a well-formed request.\<close>

definition unmapped_state :: "nat \<Rightarrow> nat \<Rightarrow> enclave_mem \<Rightarrow> enclave_mem" where
  "unmapped_state t k s =
     s \<lparr> used_pages := used_pages s - of_nat (card {i. t \<le> i \<and> i < t + k \<and> bitmap_test (mmap_bitmap s) i}),
         mmap_bitmap := bitmap_clear (mmap_bitmap s) (int t) (int k) \<rparr>"

lemma enclave_munmap_cases:
  assumes inv: "mem_inv s" and req: "request_ok addr len"
  defines "k \<equiv> req_pages len"
  obtains (fail) "enclave_munmap addr len s = Some (- 22, s)" and "\<not> in_mmap_range s addr len"
  | (ok) t where "enclave_munmap addr len s = Some (0, unmapped_state t k s)"
      and "in_mmap_range s addr len"
      and "t + k \<le> npages_of s" and "addr = page_addr s (t + k - 1)"
proof (cases "in_mmap_range s addr len")
  case False
  then show thesis using fail by (simp add: enclave_munmap_def)
next
  case r: True
  let ?s = "s \<lparr> mmaplock_held := True \<rparr>"
  have lay: "mem_layout s" and free: "mmaplock_held s = False" using inv by (simp_all add: mem_inv_def)
  note R = request_okD [OF req, folded k_def]
  from in_range_pages [OF lay req r, folded k_def] obtain t where
    t: "t + k \<le> npages_of s" "addr = page_addr s (t + k - 1)"
       "addr_to_index s addr - (of_nat k - 1) = of_nat t" .
  have "enclave_munmap addr len s = Some (0, unmapped_state t k s \<lparr> mmaplock_held := False \<rparr>)"
    using r R(1,2) by (simp add: enclave_munmap_def R(6) t(3) lock_mmap_def free Let_def
        bitmap_count_nat [OF lay t(1)] bitmap_set_ul_nat [OF lay t(1)] unlock_mmap_def unmapped_state_def)
  moreover have "unmapped_state t k s \<lparr> mmaplock_held := False \<rparr> = unmapped_state t k s"
    by (rule unlocked) (simp add: unmapped_state_def free)
  ultimately show thesis using ok [OF _ r t(1,2)] by simp
qed

lemma mmap_trace_fields [mem_simps]:
  "mmap_bitmap (mmap_trace s) = mmap_bitmap s" "mmap_fresh_bitmap (mmap_trace s) = mmap_fresh_bitmap s"
  "mmap_base (mmap_trace s) = mmap_base s" "mmap_end (mmap_trace s) = mmap_end s"
  "mmap_num_pages (mmap_trace s) = mmap_num_pages s" "used_pages (mmap_trace s) = used_pages s"
  "sgxlkl_trace_mmap (mmap_trace s) = sgxlkl_trace_mmap s"
  "mmaplock_held (mmap_trace s) = mmaplock_held s"
  "heap (mmap_trace s) = heap s" "mprotect_log (mmap_trace s) = mprotect_log s"
  by (simp_all add: mmap_trace_def Let_def)

lemma mapped_state_fields [mem_simps]:
  fixes ret len t k prot z c s
  defines "s' \<equiv> mapped_state ret len t k prot z c s"
  shows "mmap_bitmap s' = bitmap_set (mmap_bitmap s) (int t) (int k)"
    and "mmap_fresh_bitmap s' = bitmap_clear (mmap_fresh_bitmap s) (int t) (int k)"
    and "mmap_base s' = mmap_base s" and "mmap_end s' = mmap_end s"
    and "mmap_num_pages s' = mmap_num_pages s" and "sgxlkl_trace_mmap s' = sgxlkl_trace_mmap s"
    and "used_pages s' = used_pages s + (of_nat k - of_nat c)"
    and "mmaplock_held s' = mmaplock_held s"
    and "heap s' = (if z \<and> \<not> all_fresh s t k then memset (heap s) ret 0 (of_nat k * 4096) else heap s)"
    and "mprotect_log s' = mprotect_log s @ prot_calls ret len prot (z \<and> \<not> all_fresh s t k)"
  by (simp_all add: s'_def mapped_state_def Let_def)

lemma unmapped_state_fields [mem_simps]:
  fixes t k s
  defines "s' \<equiv> unmapped_state t k s"
  shows "mmap_bitmap s' = bitmap_clear (mmap_bitmap s) (int t) (int k)"
    and "mmap_fresh_bitmap s' = mmap_fresh_bitmap s"
    and "mmap_base s' = mmap_base s" and "mmap_end s' = mmap_end s"
    and "mmap_num_pages s' = mmap_num_pages s" and "sgxlkl_trace_mmap s' = sgxlkl_trace_mmap s"
    and "used_pages s' =
      used_pages s - of_nat (card {i. t \<le> i \<and> i < t + k \<and> bitmap_test (mmap_bitmap s) i})"
    and "mmaplock_held s' = mmaplock_held s" and "heap s' = heap s"
  by (simp_all add: s'_def unmapped_state_def)

lemma layout_fields:
  assumes "mmap_base s' = mmap_base s" and "mmap_end s' = mmap_end s"
    and "mmap_num_pages s' = mmap_num_pages s"
  shows "npages_of s' = npages_of s" and "page_addr s' = page_addr s"
    and "in_mmap_range s' = in_mmap_range s"
  using assms by (simp_all add: npages_of_def page_addr_def index_to_addr_def in_mmap_range_def fun_eq_iff)

lemma npages_of_simps [mem_simps]:
  "npages_of (mmap_trace s) = npages_of s"
  "npages_of (mapped_state ret len t k prot z c s) = npages_of s"
  "npages_of (unmapped_state t k s) = npages_of s"
  "page_addr (mmap_trace s) = page_addr s"
  "page_addr (mapped_state ret len t k prot z c s) = page_addr s"
  "page_addr (unmapped_state t k s) = page_addr s"
  "in_mmap_range (mmap_trace s) = in_mmap_range s"
  "in_mmap_range (mapped_state ret len t k prot z c s) = in_mmap_range s"
  "in_mmap_range (unmapped_state t k s) = in_mmap_range s"
  by (rule layout_fields; simp add: mem_simps)+

lemma mem_inv_preserved [mem_simps]:
  "mem_inv (mmap_trace s) = mem_inv s"
  "mem_inv (mapped_state ret len t k prot z c s) = mem_inv s"
  "mem_inv (unmapped_state t k s) = mem_inv s"
  by (simp_all add: mem_inv_def mem_layout_def mem_simps)

subsection \<open>Bytes of pages\<close>

lemma page_addr_shift: "d \<le> i \<Longrightarrow> page_addr s i + of_nat d * 4096 = page_addr s (i - d)"
  by (simp add: page_addr_def index_to_addr_def of_nat_diff algebra_simps)

lemma page_addr_byte:
  assumes "j < k * 4096" and "0 < k"
  shows "page_addr s (t + k - 1) + of_nat j =
    page_addr s (t + k - 1 - j div 4096) + of_nat (j mod 4096)"
    and "t \<le> t + k - 1 - j div 4096" and "t + k - 1 - j div 4096 < t + k"
proof -
  have d: "j div 4096 < k" using assms(1) by (simp add: less_mult_imp_div_less)
  have "(of_nat j :: u64) = of_nat (j div 4096 * 4096 + j mod 4096)" by simp
  also have "\<dots> = of_nat (j div 4096) * 4096 + of_nat (j mod 4096)"
    by (simp only: of_nat_add of_nat_mult of_nat_numeral)
  finally have "page_addr s (t + k - 1) + of_nat j =
      page_addr s (t + k - 1) + of_nat (j div 4096) * 4096 + of_nat (j mod 4096)" by simp
  with d show "page_addr s (t + k - 1) + of_nat j =
      page_addr s (t + k - 1 - j div 4096) + of_nat (j mod 4096)"
    by (simp add: page_addr_shift)
  show "t \<le> t + k - 1 - j div 4096" "t + k - 1 - j div 4096 < t + k"
    using d assms(2) by linarith+
qed

lemma page_addr_inj:
  assumes "mem_layout s" and "i < npages_of s" and "j < npages_of s" and "page_addr s i = page_addr s j"
  shows "i = j"
  using unat_page_addr [OF assms(1,2)] unat_page_addr [OF assms(1,3)] assms(4) by simp

text \<open>A fresh page holds zeroes only.\<close>

definition fresh_zero :: "enclave_mem \<Rightarrow> bool" where
  "fresh_zero s \<longleftrightarrow>
     (\<forall>i < npages_of s. bitmap_test (mmap_fresh_bitmap s) i
        \<longrightarrow> (\<forall>j < 4096. heap s (page_addr s i + of_nat j) = 0))"

lemma memset_in:
  assumes "j < k * 4096" and "k < 2 ^ 31"
  shows "memset h p c (of_nat k * 4096) (p + of_nat j) = c"
proof -
  have "unat (of_nat k * 4096 :: u64) = k * 4096"
    using assms(2) by (subst unat_mult_small) (simp_all add: unat_of_nat_small)
  moreover have "unat (of_nat j :: u64) = j" using assms by (intro unat_of_nat_small) simp
  ultimately show ?thesis using assms(1) by (simp add: memset_def word_less_nat_alt)
qed

lemma memcpy_in:
  assumes "j < min (unat old_len) (unat new_len)"
  shows "memcpy h dst src (if old_len > new_len then new_len else old_len) (dst + of_nat j) = h (src + of_nat j)"
proof -
  have "unat (of_nat j :: u64) = j"
    using assms unat_lt64 [of old_len] by (intro unat_of_nat_small) simp
  with assms show ?thesis by (auto simp: memcpy_def word_less_nat_alt)
qed

lemma memset_zero: "h a = 0 \<Longrightarrow> memset h p 0 n a = 0"
  by (simp add: memset_def)

lemma card_run:
  assumes "t + k \<le> n"
  shows "card {i. t \<le> i \<and> i < t + k \<and> bitmap_test bm i} = card (pages.taken bm n \<inter> {t..<t + k})"
proof -
  have "{i. t \<le> i \<and> i < t + k \<and> bitmap_test bm i} = pages.taken bm n \<inter> {t..<t + k}"
    using assms by (auto simp: pages.taken_def)
  then show ?thesis by simp
qed

text \<open>The page accounting: \<open>used_pages\<close> is the number of mapped pages.\<close>

definition used_ok :: "enclave_mem \<Rightarrow> bool" where
  "used_ok s \<longleftrightarrow> used_pages s = of_nat (card (pages.taken (mmap_bitmap s) (npages_of s)))"

lemma used_ok_mapped:
  assumes inv: "mem_layout s" and t: "t + k \<le> npages_of s" and u: "used_ok s"
    and c: "c = card {i. t \<le> i \<and> i < t + k \<and> bitmap_test (mmap_bitmap s) i}"
  shows "used_ok (mapped_state ret len t k prot z c s)"
proof -
  let ?A = "pages.taken (mmap_bitmap s) (npages_of s)" and ?R = "{t..<t + k}"
  have room: "t + k \<le> 64 * length (mmap_bitmap s)" using t mem_layoutD(3) [OF inv] by simp
  have "card (?A \<union> ?R) + card (?A \<inter> ?R) = card ?A + k"
    using card_Un_Int [of ?A ?R] by simp
  then have "(of_nat (card (?A \<union> ?R) + card (?A \<inter> ?R)) :: u64) = of_nat (card ?A + k)" by simp
  then have "(of_nat (card (?A \<union> ?R)) :: u64) = of_nat (card ?A) + (of_nat k - of_nat (card (?A \<inter> ?R)))"
    by (simp add: algebra_simps eq_diff_eq)
  then show ?thesis
    using u by (simp add: used_ok_def mem_simps pages.taken_set [OF room t] c card_run [OF t])
qed

lemma used_ok_unmapped:
  assumes inv: "mem_layout s" and t: "t + k \<le> npages_of s" and u: "used_ok s"
  shows "used_ok (unmapped_state t k s)"
proof -
  let ?A = "pages.taken (mmap_bitmap s) (npages_of s)" and ?R = "{t..<t + k}"
  have room: "t + k \<le> 64 * length (mmap_bitmap s)" using t mem_layoutD(3) [OF inv] by simp
  have "card (?A - ?R) + card (?A \<inter> ?R) = card ?A"
    by (metis Int_lower1 add.commute card_Int_Diff pages.finite_taken)
  then have "(of_nat (card (?A - ?R)) :: u64) = of_nat (card ?A) - of_nat (card (?A \<inter> ?R))"
    by (metis add_diff_cancel_right' of_nat_add)
  then show ?thesis
    using u by (simp add: used_ok_def mem_simps pages.taken_clear [OF room] card_run [OF t])
qed

lemma used_ok_trace [mem_simps]: "used_ok (mmap_trace s) = used_ok s"
  by (simp add: used_ok_def mem_simps)

section \<open>Properties\<close>

text \<open>
  C16: on every request that does not wrap around the address space \<open>enclave_mmap\<close> returns, whichever
  of its paths it takes, with the bitmaps' layout intact and \<open>mmaplock\<close> released.
\<close>

theorem mmap_returns:
  assumes "mem_inv s" and "request_ok addr len"
  shows "\<exists>ret s'. enclave_mmap addr len fixed prot zero_pages s = Some (ret, s') \<and> mem_inv s'"
  using assms by (cases rule: enclave_mmap_cases [where fixed = fixed and prot = prot and zero_pages = zero_pages])
    (auto simp: mem_simps assms(1))

text \<open>
  C1: a successful mapping without \<open>MAP_FIXED\<close> consists of pages that were all free, the returned
  address is that of the lowest of them, and afterwards exactly these pages have become mapped: no
  page is ever given to two callers.
\<close>

theorem mmap_exclusive:
  assumes "mem_inv s" and "request_ok addr len"
    and "enclave_mmap addr len False prot zero_pages s = Some (ret, s')" and "0 \<le> sint ret"
  shows "\<exists>t. t + req_pages len \<le> npages_of s \<and> ret = page_addr s (t + req_pages len - 1)
    \<and> free_run (mmap_bitmap s) t (req_pages len)
    \<and> (\<forall>i. bitmap_test (mmap_bitmap s') i \<longleftrightarrow>
          t \<le> i \<and> i < t + req_pages len \<or> bitmap_test (mmap_bitmap s) i)"
  using assms(1,2)
proof (cases rule: enclave_mmap_cases [where fixed = False and prot = prot and zero_pages = zero_pages])
  case fail
  with assms(3,4) minus_12_negative show ?thesis by simp
next
  case (ok t r)
  with mem_layoutD(3) [of s] assms(1) have "t + req_pages len \<le> 64 * length (mmap_bitmap s)"
    by (auto simp: mem_inv_def)
  with ok assms(3) show ?thesis by (auto simp: fits_def mem_simps bitmap_simps)
qed




text \<open>
  C32: with a protection argument, the last call \<open>enclave_mmap\<close> makes to the host's \<open>mprotect\<close> for a
  successful mapping asks for exactly the requested protection on the requested range, also when the
  pages had to be made writable first to be cleared.
\<close>

theorem mmap_final_protection:
  assumes "mem_inv s" and "request_ok addr len" and "prot \<noteq> -1"
    and "enclave_mmap addr len fixed prot zero_pages s = Some (ret, s')" and "0 \<le> sint ret"
  shows "mprotect_log s' \<noteq> [] \<and> last (mprotect_log s') = (ret, len, prot)"
  using assms(1,2)
proof (cases rule: enclave_mmap_cases [where fixed = fixed and prot = prot and zero_pages = zero_pages])
  case fail
  with assms(4,5) minus_12_negative show ?thesis by simp
next
  case (ok t r)
  with assms(3,4) show ?thesis by (auto simp: mem_simps prot_calls_def split: if_splits)
qed

subsection \<open>Unmapping\<close>

lemma page_request:
  assumes lay: "mem_layout s" and req: "request_ok addr len" and t: "t + req_pages len \<le> npages_of s"
  defines "ret \<equiv> page_addr s (t + req_pages len - 1)"
  shows "request_ok ret len"
    and "in_mmap_range s ret len \<longleftrightarrow> 1 \<le> t \<and> t + req_pages len < npages_of s"
proof -
  let ?k = "req_pages len"
  note I = mem_layoutD [OF lay] and R = request_okD [OF req]
  have u: "unat ret + (t + ?k - 1) * 4096 = unat (mmap_end s)"
    unfolding ret_def using unat_page_addr [OF lay, of "t + ?k - 1"] t R(4) by simp
  have len: "unat len \<le> ?k * 4096" "(?k - 1) * 4096 < unat len"
    using req_pages_cover [of len] R(4) unfolding req_pages_def by linarith+
  have "?k < 2 ^ 31" using t I(2) by simp
  then have nw: "unat ret + unat len + 4095 < 2 ^ 64" using u len I(8) by simp
  have "(unat ret + (t + ?k - 1) * 4096) mod 4096 = 0" unfolding u using I(5,7) by simp
  then have "unat (ret mod 4096) = 0" by (simp add: unat_mod)
  then show "request_ok ret len" using nw R(2) by (simp add: request_ok_def unat_eq_zero)
  have "unat (ret + len) = unat ret + unat len" using nw by (intro unat_add_small) simp
  then have "in_mmap_range s ret len \<longleftrightarrow>
      unat (mmap_base s) \<le> unat ret \<and> unat ret + unat len \<le> unat (mmap_end s)"
    by (simp add: in_mmap_range_def word_le_nat_alt)
  also have "\<dots> \<longleftrightarrow> 1 \<le> t \<and> t + ?k < npages_of s"
    using u len I(1,7) R(4) t by auto
  finally show "in_mmap_range s ret len \<longleftrightarrow> 1 \<le> t \<and> t + ?k < npages_of s" .
qed


text \<open>
  C33: a mapping that starts at bitmap index 0, the page at \<open>mmap_end\<close> itself, can never be unmapped:
  \<open>in_mmap_range\<close> excludes that page, so \<open>enclave_munmap\<close> of the very range \<open>enclave_mmap\<close> returned
  answers \<open>-EINVAL\<close> and leaves the pages mapped. The first mapping of a fresh heap is such a mapping.
\<close>

theorem munmap_top_page_refused:
  assumes "mem_inv s" and "request_ok addr len"
    and "enclave_mmap addr len False prot zero_pages s = Some (ret, s')"
    and "0 \<le> sint ret" and "ret = page_addr s (req_pages len - 1)"
  shows "enclave_munmap ret len s' = Some (- 22, s')"
  using assms(1,2)
proof (cases rule: enclave_mmap_cases [where fixed = False and prot = prot and zero_pages = zero_pages])
  case fail
  with assms(3,4) minus_12_negative show ?thesis by simp
next
  case (ok t r)
  let ?k = "req_pages len"
  have lay: "mem_layout s" using assms(1) by (simp add: mem_inv_def)
  have s': "s' = mmap_trace (mapped_state r len t ?k prot zero_pages 0 s)" "r = ret"
    using ok(1) assms(3) by auto
  have k: "0 < ?k" by (rule request_okD(4) [OF assms(2)])
  have "page_addr s (t + ?k - 1) = page_addr s (?k - 1)" using ok(3) s'(2) assms(5) by (simp only:)
  then have "t + ?k - 1 = ?k - 1"
    by (rule page_addr_inj [OF lay, rotated 2]) (use ok(2) k in linarith)+
  then have "t = 0" using k by simp
  then have "\<not> in_mmap_range s ret len"
    using page_request(2) [OF lay assms(2) ok(2)] ok(3) s'(2) by simp
  then show ?thesis by (simp add: enclave_munmap_def s' mem_simps)
qed


text \<open>
  C34: a mapping that takes the last bitmap index is returned below \<open>mmap_base\<close>: \<open>mmap_end\<close> is set two
  pages short of the heap, so index \<open>mmap_num_pages - 1\<close> names the page before the heap, which holds
  the freshness bitmap.
\<close>

theorem mmap_last_index_below_base:
  assumes "mem_inv s" and "request_ok addr len"
    and "enclave_mmap addr len False prot zero_pages s = Some (ret, s')" and "0 \<le> sint ret"
    and "bitmap_test (mmap_bitmap s') (npages_of s - 1)"
    and "\<not> bitmap_test (mmap_bitmap s) (npages_of s - 1)"
  shows "ret = mmap_base s - 4096"
  using assms(1,2)
proof (cases rule: enclave_mmap_cases [where fixed = False and prot = prot and zero_pages = zero_pages])
  case fail
  with assms(3,4) minus_12_negative show ?thesis by simp
next
  case (ok t r)
  let ?k = "req_pages len"
  have lay: "mem_layout s" using assms(1) by (simp add: mem_inv_def)
  note I = mem_layoutD [OF lay]
  have s': "s' = mmap_trace (mapped_state r len t ?k prot zero_pages 0 s)" "r = ret"
    using ok(1) assms(3) by auto
  have room: "t + ?k \<le> 64 * length (mmap_bitmap s)" using ok(2) I(3) by simp
  have "t \<le> npages_of s - 1 \<and> npages_of s - 1 < t + ?k"
    using assms(5,6) by (simp add: s' mem_simps bitmap_set_test [OF room])
  then have "t + ?k - 1 = npages_of s - 1" using ok(2) by linarith
  then have "ret = page_addr s (npages_of s - 1)" using ok(3) s'(2) by (simp only:)
  then have "unat ret + (npages_of s - 1) * 4096 = unat (mmap_end s)"
    using unat_page_addr [OF lay, of "npages_of s - 1"] I(1) by simp
  then have "unat ret = unat (mmap_base s) - 4096" using I(1,6,7) by auto
  moreover have "unat (mmap_base s - 4096) = unat (mmap_base s) - 4096"
    using I(6) by (subst unat_sub_small) (simp_all add: word_le_nat_alt)
  ultimately show ?thesis by (simp add: word_eq_unat)
qed


subsection \<open>Initialisation\<close>

lemma init_counts:
  assumes "unat np < 2 ^ 31" and "7 \<le> unat np"
  defines "R \<equiv> (unat np + 32767) div 32768"
  shows "unat (DIV_ROUNDUP np 32768) = R" and "unat (np - 2 * DIV_ROUNDUP np 32768) = unat np - 2 * R"
    and "1 \<le> R" and "2 * R + 2 \<le> unat np" and "2 * R < 2 ^ 31"
proof -
  have "unat (np + 32767) = unat np + 32767" using assms(1) by (subst unat_add_small) simp_all
  then show R: "unat (DIV_ROUNDUP np 32768) = R" by (simp add: DIV_ROUNDUP_def unat_div R_def)
  show r1: "1 \<le> R" and r2: "2 * R + 2 \<le> unat np" and r3: "2 * R < 2 ^ 31"
    using assms(1,2) unfolding R_def by linarith+
  have "unat (2 * DIV_ROUNDUP np 32768) = 2 * R"
    using R r3 by (subst unat_mult_small) simp_all
  moreover from this r2 have "2 * DIV_ROUNDUP np 32768 \<le> np" by (simp add: word_le_nat_alt)
  ultimately show "unat (np - 2 * DIV_ROUNDUP np 32768) = unat np - 2 * R"
    by (simp add: unat_sub_small)
qed

lemma init_layout:
  fixes base np :: u64
  defines "R \<equiv> DIV_ROUNDUP np 32768"
  defines "n \<equiv> np - 2 * R" and "mb \<equiv> base + 2 * R * 4096"
  assumes "unat np < 2 ^ 31" and "7 \<le> unat np" and "base \<noteq> 0" and "unat base mod 4096 = 0"
    and "unat base + unat np * 4096 \<le> 2 ^ 63"
  shows "2 \<le> unat n" and "unat n < 2 ^ 31" and "unat n \<le> unat np" and "unat mb mod 4096 = 0" and "8192 \<le> unat mb"
    and "unat (mb + (n - 2) * 4096) = unat mb + (unat n - 2) * 4096"
    and "unat mb + (unat n - 2) * 4096 + 4096 \<le> 2 ^ 63"
proof -
  let ?r = "(unat np + 32767) div 32768"
  note C = init_counts [OF assms(4,5), folded R_def]
  have n: "unat n = unat np - 2 * ?r" unfolding n_def by (rule C(2))
  have "unat (2 * R) = 2 * ?r" using C(1,5) by (subst unat_mult_small) simp_all
  then have r2: "unat (2 * R * 4096) = 2 * ?r * 4096" using C(5) by (subst unat_mult_small) simp_all
  have mb: "unat mb = unat base + 2 * ?r * 4096"
    unfolding mb_def using r2 C(4) assms(8) by (subst unat_add_small) simp_all
  have b: "4096 \<le> unat base" using assms(6,7) by (metis dvd_imp_le mod_eq_0_iff_dvd unat_gt_0)
  show n2: "2 \<le> unat n" and n31: "unat n < 2 ^ 31" and "unat n \<le> unat np" using n C(4) assms(4) by simp_all
  show "unat mb mod 4096 = 0" unfolding mb using assms(7) by (simp add: mod_add_right_eq [symmetric] mult.commute)
  show "8192 \<le> unat mb" using mb b C(3) by simp
  have "unat (n - 2) = unat n - 2" using n2 by (subst unat_sub_small) (simp_all add: word_le_nat_alt)
  then have m: "unat ((n - 2) * 4096) = (unat n - 2) * 4096" using n31 by (subst unat_mult_small) simp_all
  show top: "unat mb + (unat n - 2) * 4096 + 4096 \<le> 2 ^ 63" using mb n n2 C(4) assms(8) by (simp add: algebra_simps)
  show "unat (mb + (n - 2) * 4096) = unat mb + (unat n - 2) * 4096"
    using top m by (subst unat_add_small) simp_all
qed

lemma bitmap_ul_from_0:
  "unat n < 2 ^ 31 \<Longrightarrow> bitmap_set_ul bm 0 n = bitmap_set bm (int 0) (int (unat n))"
  "unat n < 2 ^ 31 \<Longrightarrow> bitmap_clear_ul bm 0 n = bitmap_clear bm (int 0) (int (unat n))"
  using int_of_ulong_small [of 0] int_of_ulong_small [of n]
  by (simp_all add: bitmap_set_ul_def bitmap_clear_ul_def)

text \<open>
  C26: \<open>enclave_mman_init\<close> establishes the invariant on any page-aligned range of at least eight pages
  below the middle of the address space (also one that starts at address 0, whose first page is
  skipped), with every page free and fresh.
\<close>

theorem mman_init_establishes:
  assumes "\<not> mmaplock_held s" and "8 \<le> unat np" and "unat np < 2 ^ 31" and "unat base mod 4096 = 0"
    and "unat base + unat np * 4096 \<le> 2 ^ 63"
    and "unat np \<le> 64 * length bw" and "unat np \<le> 64 * length fw"
  shows "mem_inv (enclave_mman_init bw fw base np files s)
    \<and> (\<forall>i < npages_of (enclave_mman_init bw fw base np files s).
        \<not> bitmap_test (mmap_bitmap (enclave_mman_init bw fw base np files s)) i
        \<and> bitmap_test (mmap_fresh_bitmap (enclave_mman_init bw fw base np files s)) i)"
proof -
  define b where "b = (if base = 0 then base + 4096 else base)"
  define p where "p = (if base = 0 then np - 1 else np)"
  have p: "7 \<le> unat p" "unat p < 2 ^ 31" "unat p \<le> unat np"
    using assms(2,3) by (auto simp: p_def unat_sub_small word_le_nat_alt)
  have b: "b \<noteq> 0" "unat b mod 4096 = 0" "unat b + unat p * 4096 \<le> 2 ^ 63"
    using assms(2,4,5) by (auto simp: b_def p_def unat_sub_small word_le_nat_alt)
  note L = init_layout [OF p(2,1) b]
  define n where "n = p - 2 * DIV_ROUNDUP p 32768"
  define mb where "mb = b + 2 * DIV_ROUNDUP p 32768 * 4096"
  have s': "enclave_mman_init bw fw base np files s =
      s \<lparr> mmap_num_pages := n, mmap_base := mb, mmap_end := mb + (n - 2) * 4096,
         mmap_bitmap := bitmap_clear bw (int 0) (int (unat n)),
         mmap_fresh_bitmap := bitmap_set fw (int 0) (int (unat n)), mmap_files := files \<rparr>"
    unfolding bitmap_ul_from_0 [OF L(2), folded n_def, symmetric]
    by (cases "base = 0") (simp_all add: enclave_mman_init_def Let_def n_def mb_def b_def p_def)
  have room: "0 + unat n \<le> 64 * length bw" "0 + unat n \<le> 64 * length fw"
    using L(3) p(3) assms(6,7) unfolding n_def by simp_all
  note L' = L [folded n_def mb_def]
  show ?thesis
    using L' room assms(1) bitmap_clear_test [OF room(1)] bitmap_set_test [OF room(2)]
    by (simp add: s' mem_inv_def mem_layout_def npages_of_def)
qed

section \<open>A concrete heap\<close>

text \<open>A heap of six pages, all free and fresh, on which the theorems above are exercised.\<close>

definition sample_mem :: enclave_mem where
  "sample_mem = \<lparr> mmap_bitmap = [0], mmap_fresh_bitmap = [NOT 0], mmap_base = 8192, mmap_end = 24576,
     mmap_num_pages = 6, mmap_files = 0, used_pages = 0, sgxlkl_trace_mmap = False,
     mmap_max_allocated = 0, mmaplock_held = False, heap = (\<lambda>_. 0), mprotect_log = [] \<rparr>"

definition sample_used :: "u64 \<Rightarrow> enclave_mem" where
  "sample_used b = sample_mem \<lparr> mmap_bitmap := [b] \<rparr>"

lemma sample_used_inv: "mem_inv (sample_used b)" and sample_request: "request_ok 0 4096"
  by (simp_all add: mem_inv_def mem_layout_def npages_of_def sample_mem_def sample_used_def request_ok_def)

lemma sample_fields:
  "npages_of (sample_used b) = 6" "mmap_bitmap (sample_used b) = [b]" "req_pages 4096 = 1"
  "page_addr (sample_used b) i = 24576 - of_nat i * 4096" "mmap_base (sample_used b) = 8192"
  "mmap_end (sample_used b) = 24576" "in_mmap_range (sample_used b) a 4096 = (8192 \<le> a \<and> a + 4096 \<le> 24576)"
  "used_pages (sample_used b) = 0" "sgxlkl_trace_mmap (sample_used b) = False"
  by (simp_all add: npages_of_def sample_used_def sample_mem_def req_pages_def page_addr_def
      index_to_addr_def in_mmap_range_def)

lemma sample_ok: "used_ok (sample_used 0)" "fresh_zero (sample_used b)"
proof -
  show "fresh_zero (sample_used b)" by (simp add: fresh_zero_def sample_used_def sample_mem_def)
  have "pages.taken [0] 6 = {}" by (auto simp: pages.taken_def bitmap_test_def)
  then show "used_ok (sample_used 0)" by (simp add: used_ok_def sample_fields)
qed

text \<open>One page mapped in the heap with no page, the top page, and all but the last page in use.\<close>

lemma sample_mmap:
  assumes "(b, t) \<in> {(0, 0), (1, 1), (31, 5)}"
  shows "enclave_mmap 0 4096 False prot z (sample_used b) =
     Some (24576 - of_nat t * 4096,
       mmap_trace (mapped_state (24576 - of_nat t * 4096) 4096 t 1 prot z 0 (sample_used b)))"
proof -
  have "bitmap_find_next_zero_area [0] 6 0 1 = 0" "bitmap_find_next_zero_area [1] 6 0 1 = 1"
    "bitmap_find_next_zero_area [31] 6 0 1 = 5" by code_simp+
  then have "bitmap_find_next_zero_area [b] 6 0 1 = t" "t + 1 \<le> 6" using assms by auto
  then show ?thesis
    using enclave_mmap_anywhere [OF sample_used_inv sample_request, of b prot z] by (simp add: sample_fields)
qed

lemmas sample_first = sample_mmap [of 0 0, simplified]
  and sample_second = sample_mmap [of 1 1, simplified]
  and sample_last = sample_mmap [of 31 5, simplified]

theorem mmap_returns_witness:
  "\<exists>ret s'. enclave_mmap 0 4096 False 3 True (sample_used 0) = Some (ret, s') \<and> mem_inv s'"
  by (rule mmap_returns [OF sample_used_inv sample_request])

theorem mmap_exclusive_witness:
  "\<exists>s' t. enclave_mmap 0 4096 False 3 True (sample_used 1) = Some (20480, s') \<and> t + 1 \<le> 6
    \<and> free_run [1] t 1 \<and> (\<forall>i. bitmap_test (mmap_bitmap s') i \<longleftrightarrow> t \<le> i \<and> i < t + 1 \<or> bitmap_test [1] i)"
  using mmap_exclusive [OF sample_used_inv sample_request sample_second [of 3 True]]
  by (auto simp: sample_fields sample_second)




theorem mmap_final_protection_witness:
  "\<exists>s'. enclave_mmap 0 4096 False 3 True (sample_used 1) = Some (20480, s') \<and>
     last (mprotect_log s') = (20480, 4096, 3)"
  using mmap_final_protection [OF sample_used_inv sample_request _ sample_second [of 3 True]]
  by (simp add: sample_second)


theorem munmap_top_page_refused_witness:
  "\<exists>s'. enclave_mmap 0 4096 False 3 True (sample_used 0) = Some (24576, s') \<and>
     enclave_munmap 24576 4096 s' = Some (- 22, s')"
proof (intro exI conjI)
  show "enclave_mmap 0 4096 False 3 True (sample_used 0) =
      Some (24576, mmap_trace (mapped_state 24576 4096 0 (Suc 0) 3 True 0 (sample_used 0)))"
    by (rule sample_first)
  show "enclave_munmap 24576 4096 (mmap_trace (mapped_state 24576 4096 0 (Suc 0) 3 True 0 (sample_used 0))) =
      Some (- 22, mmap_trace (mapped_state 24576 4096 0 (Suc 0) 3 True 0 (sample_used 0)))"
    by (rule munmap_top_page_refused [OF sample_used_inv sample_request sample_first [of 3 True]])
      (simp_all only: sample_fields, simp_all)
qed


theorem mmap_last_index_below_base_witness:
  "\<exists>s'. enclave_mmap 0 4096 False 3 True (sample_used 31) = Some (4096, s') \<and>
     4096 = mmap_base (sample_used 31) - 4096"
  using mmap_last_index_below_base [OF sample_used_inv sample_request sample_last [of 3 True]]
  by (simp add: sample_last sample_fields mem_simps bitmap_set_test [of 5 1 "[31]", simplified] bitmap_test_def)


theorem mman_init_establishes_witness:
  "mem_inv (enclave_mman_init [0] [0] 4096 8 1 sample_mem)"
  using mman_init_establishes [of sample_mem 8 4096 "[0]" "[0]" 1] by (simp add: sample_mem_def)

end
