(* ===== verification/Ticketlock.thy ===== *)
theory Ticketlock
  imports Prelude
begin

text \<open>
  The spin lock of \<^verbatim>\<open>src/src/include/enclave/ticketlock.h\<close>. The two 32-bit counters are the record
  \<open>ticketlock\<close>; each atomic access of the C functions is one definition, and \<open>step\<close> interleaves the
  accesses of \<open>n\<close> threads, thread \<open>i\<close> being at the program point \<open>pc s i\<close>. The counters wrap; the
  lemmas hold for fewer than \<open>2 ^ 32\<close> threads. They show that the lock is an abstract queue of
  waiting threads whose head may enter (\<open>lock_refines_queue\<close>), hence mutual exclusion, arrival order
  and freedom from deadlock.
\<close>

unbundle bit_operations_syntax

section \<open>The lock\<close>

record ticketlock =
  ticket :: u32
  users :: u32

text \<open>\<^verbatim>\<open>atomic_fetch_add(&t->s.users, 1)\<close>: the ticket taken and the new lock.\<close>

definition take_ticket :: "ticketlock \<Rightarrow> u32 \<times> ticketlock" where
  "take_ticket t = (users t, t \<lparr> users := users t + 1 \<rparr>)"

text \<open>The condition on which \<open>ticket_lock\<close> leaves its loop.\<close>

definition ticket_called :: "ticketlock \<Rightarrow> u32 \<Rightarrow> bool" where
  "ticket_called t me \<longleftrightarrow> ticket t = me"

definition ticket_unlock :: "ticketlock \<Rightarrow> ticketlock" where
  "ticket_unlock t = t \<lparr> ticket := ticket t + 1 \<rparr>"

text \<open>The 64-bit view \<^verbatim>\<open>u\<close> of the union: \<^verbatim>\<open>ticket\<close> is the low half, \<^verbatim>\<open>users\<close> the high one.\<close>

definition lock_word :: "ticketlock \<Rightarrow> u64" where
  "lock_word t = push_bit 32 (ucast (users t)) + ucast (ticket t)"

definition lock_of_word :: "u64 \<Rightarrow> ticketlock" where
  "lock_of_word w = \<lparr> ticket = ucast w, users = ucast (drop_bit 32 w) \<rparr>"

text \<open>
  \<open>ticket_trylock\<close> after it has read \<^verbatim>\<open>users\<close> as \<open>me\<close>: one compare-and-swap of the 64-bit view.
  It returns 0 with the lock taken, or -1.
\<close>

definition trylock_cas :: "u32 \<Rightarrow> ticketlock \<Rightarrow> int \<times> ticketlock" where
  "trylock_cas me t =
     (let menew = me + 1;
          expected = push_bit 32 (ucast me) + ucast me :: u64;
          desired = push_bit 32 (ucast menew) + ucast me :: u64
      in if lock_word t = expected then (0, lock_of_word desired) else (- 1, t))"

text \<open>The functions run by one thread alone; \<open>None\<close> means that \<open>ticket_lock\<close> spins forever.\<close>

definition ticket_lock :: "ticketlock \<Rightarrow> ticketlock option" where
  "ticket_lock t = (let (me, t') = take_ticket t in if ticket_called t' me then Some t' else None)"

definition ticket_trylock :: "ticketlock \<Rightarrow> int \<times> ticketlock" where
  "ticket_trylock t = trylock_cas (users t) t"

section \<open>Threads\<close>

datatype pc = Idle | Spinning u32 | Trying u32 | Holding

record lock_state =
  lk :: ticketlock
  pc :: "nat \<Rightarrow> pc"

definition lock_init :: "lock_state \<Rightarrow> bool" where
  "lock_init s \<longleftrightarrow> users (lk s) = ticket (lk s) \<and> pc s = (\<lambda>_. Idle)"

inductive step :: "nat \<Rightarrow> lock_state \<Rightarrow> lock_state \<Rightarrow> bool" for n where
  Take: "i < n \<Longrightarrow> pc s i = Idle \<Longrightarrow> take_ticket (lk s) = (me, l)
     \<Longrightarrow> step n s \<lparr> lk = l, pc = (pc s)(i := Spinning me) \<rparr>"
| Enter: "i < n \<Longrightarrow> pc s i = Spinning me \<Longrightarrow> ticket_called (lk s) me
     \<Longrightarrow> step n s (s \<lparr> pc := (pc s)(i := Holding) \<rparr>)"
| Release: "i < n \<Longrightarrow> pc s i = Holding
     \<Longrightarrow> step n s \<lparr> lk = ticket_unlock (lk s), pc = (pc s)(i := Idle) \<rparr>"
| Try_read: "i < n \<Longrightarrow> pc s i = Idle
     \<Longrightarrow> step n s (s \<lparr> pc := (pc s)(i := Trying (users (lk s))) \<rparr>)"
| Try_cas: "i < n \<Longrightarrow> pc s i = Trying me \<Longrightarrow> trylock_cas me (lk s) = (r, l)
     \<Longrightarrow> step n s \<lparr> lk = l, pc = (pc s)(i := if r = 0 then Holding else Idle) \<rparr>"

section \<open>The abstract lock: a queue of threads\<close>

text \<open>
  A thread joins at the end, the head of the queue enters, and the holder leaves from the front.
\<close>

record queue_lock =
  waiting :: "nat list"
  entered :: bool

inductive qstep :: "queue_lock \<Rightarrow> queue_lock \<Rightarrow> bool" where
  Join: "i \<notin> set (waiting q) \<Longrightarrow> qstep q (q \<lparr> waiting := waiting q @ [i] \<rparr>)"
| Admit: "waiting q \<noteq> [] \<Longrightarrow> \<not> entered q \<Longrightarrow> qstep q (q \<lparr> entered := True \<rparr>)"
| Leave: "waiting q \<noteq> [] \<Longrightarrow> entered q \<Longrightarrow> qstep q \<lparr> waiting = tl (waiting q), entered = False \<rparr>"
| Grab: "waiting q = [] \<Longrightarrow> \<not> entered q \<Longrightarrow> qstep q \<lparr> waiting = [i], entered = True \<rparr>"

definition holder :: "queue_lock \<Rightarrow> nat option" where
  "holder q = (if entered q then Some (hd (waiting q)) else None)"

text \<open>The \<open>k\<close>-th thread of the queue holds the ticket \<open>ticket + k\<close>.\<close>

definition queue_rel :: "nat \<Rightarrow> lock_state \<Rightarrow> queue_lock \<Rightarrow> bool" where
  "queue_rel n s q \<longleftrightarrow>
     distinct (waiting q) \<and> set (waiting q) \<subseteq> {..<n} \<and>
     users (lk s) = ticket (lk s) + of_nat (length (waiting q)) \<and>
     (entered q \<longrightarrow> waiting q \<noteq> []) \<and>
     (\<forall>k < length (waiting q). pc s (waiting q ! k) =
        (if k = 0 \<and> entered q then Holding else Spinning (ticket (lk s) + of_nat k))) \<and>
     (\<forall>i. i \<notin> set (waiting q) \<longrightarrow> pc s i = Idle \<or> (\<exists>me. pc s i = Trying me))"

lemma queue_length: "queue_rel n s q \<Longrightarrow> length (waiting q) \<le> n"
  using card_mono [of "{..<n}" "set (waiting q)"] by (simp add: queue_rel_def distinct_card)

lemma in_queue_iff:
  assumes "queue_rel n s q"
  shows "i \<in> set (waiting q) \<longleftrightarrow> pc s i = Holding \<or> (\<exists>me. pc s i = Spinning me)"
proof
  assume "i \<in> set (waiting q)"
  then obtain k where "k < length (waiting q)" "waiting q ! k = i" by (auto simp: in_set_conv_nth)
  with assms show "pc s i = Holding \<or> (\<exists>me. pc s i = Spinning me)"
    unfolding queue_rel_def by (metis (full_types))
next
  assume "pc s i = Holding \<or> (\<exists>me. pc s i = Spinning me)"
  with assms show "i \<in> set (waiting q)" unfolding queue_rel_def by (metis pc.distinct)
qed

lemma of_nat_u32_inj: "a < 2 ^ 32 \<Longrightarrow> b < 2 ^ 32 \<Longrightarrow> (of_nat a :: u32) = of_nat b \<longleftrightarrow> a = b"
  by (simp add: word_eq_unat unat_of_nat_small)

text \<open>Packing two halves into the 64-bit view, and taking them apart.\<close>

lemma pack_or: "push_bit 32 (ucast a) + ucast b = (push_bit 32 (ucast a) OR ucast b :: u64)"
  for a b :: u32
  by (rule disjunctive_add) (auto simp: bit_simps dest: bit_imp_le_length)

lemma pack_low: "ucast (push_bit 32 (ucast a) + ucast b :: u64) = (b :: u32)" for a :: u32
  unfolding pack_or by (rule bit_word_eqI) (simp add: bit_simps)

lemma pack_high: "ucast (drop_bit 32 (push_bit 32 (ucast a) + ucast b :: u64)) = (a :: u32)" for b :: u32
  unfolding pack_or by (rule bit_word_eqI) (auto simp: bit_simps dest: bit_imp_le_length)

lemma lock_word_eq:
  "lock_word t = push_bit 32 (ucast me) + ucast me \<longleftrightarrow> users t = me \<and> ticket t = me"
  unfolding lock_word_def by (metis pack_low pack_high)

lemma lock_of_word_split: "lock_of_word (push_bit 32 (ucast a) + ucast b) = \<lparr> ticket = b, users = a \<rparr>"
  by (simp add: lock_of_word_def pack_low pack_high)

lemma trylock_cas_cases:
  "trylock_cas me t =
     (if users t = me \<and> ticket t = me then (0, \<lparr> ticket = me, users = me + 1 \<rparr>) else (- 1, t))"
  by (simp add: trylock_cas_def lock_word_eq lock_of_word_split)

section \<open>Refinement\<close>

lemma head_entered:
  assumes q: "queue_rel n s q" and n: "n < 2 ^ 32" and i: "pc s i = Spinning (ticket (lk s))"
  shows "waiting q \<noteq> [] \<and> hd (waiting q) = i \<and> \<not> entered q"
proof -
  have "i \<in> set (waiting q)" using i in_queue_iff [OF q] by blast
  then obtain k where k: "k < length (waiting q)" "waiting q ! k = i" by (auto simp: in_set_conv_nth)
  then have pc: "(if k = 0 \<and> entered q then Holding else Spinning (ticket (lk s) + of_nat k)) =
      Spinning (ticket (lk s))"
    using q i unfolding queue_rel_def by metis
  then have "(of_nat k :: u32) = of_nat 0" by (auto split: if_splits)
  then have "k = 0" using of_nat_u32_inj [of k 0] k queue_length [OF q] n by simp
  with k pc show ?thesis by (auto simp: hd_conv_nth)
qed

lemma holder_entered:
  assumes q: "queue_rel n s q" and i: "pc s i = Holding"
  shows "waiting q \<noteq> [] \<and> hd (waiting q) = i \<and> entered q"
proof -
  have "i \<in> set (waiting q)" using i in_queue_iff [OF q] by blast
  then obtain k where k: "k < length (waiting q)" "waiting q ! k = i" by (auto simp: in_set_conv_nth)
  then have "(if k = 0 \<and> entered q then Holding else Spinning (ticket (lk s) + of_nat k)) = Holding"
    using q i unfolding queue_rel_def by metis
  with k show ?thesis by (auto simp: hd_conv_nth split: if_splits)
qed

lemma join_rel:
  assumes q: "queue_rel n s q" and i: "i < n" "i \<notin> set (waiting q)"
  shows "queue_rel n \<lparr> lk = (lk s) \<lparr> users := users (lk s) + 1 \<rparr>, pc = (pc s)(i := Spinning (users (lk s))) \<rparr>
    (q \<lparr> waiting := waiting q @ [i] \<rparr>)"
  using q i unfolding queue_rel_def by (auto simp: nth_append less_Suc_eq)

lemma admit_rel:
  assumes q: "queue_rel n s q" and "waiting q \<noteq> []" and "hd (waiting q) = i" and "\<not> entered q"
  shows "queue_rel n (s \<lparr> pc := (pc s)(i := Holding) \<rparr>) (q \<lparr> entered := True \<rparr>)"
proof -
  have "waiting q ! k = i \<longleftrightarrow> k = 0" if "k < length (waiting q)" for k
    using that assms(2,3) q by (metis hd_conv_nth length_greater_0_conv nth_eq_iff_index_eq queue_rel_def)
  then show ?thesis
    using q assms(2-4) hd_in_set [OF assms(2)] unfolding queue_rel_def by auto
qed

lemma leave_rel:
  assumes q: "queue_rel n s q" and "waiting q \<noteq> []" and "hd (waiting q) = i" and "entered q"
  shows "queue_rel n \<lparr> lk = ticket_unlock (lk s), pc = (pc s)(i := Idle) \<rparr>
    \<lparr> waiting = tl (waiting q), entered = False \<rparr>"
proof -
  obtain r where w: "waiting q = i # r" using assms(2,3) by (metis list.collapse)
  have pc: "pc s (r ! k) = Spinning (ticket (lk s) + of_nat (Suc k))" if "k < length r" for k
  proof -
    from q have "\<forall>k < length (waiting q). pc s (waiting q ! k) =
        (if k = 0 \<and> entered q then Holding else Spinning (ticket (lk s) + of_nat k))"
      by (simp add: queue_rel_def)
    from this [rule_format, of "Suc k"] that w show ?thesis by simp
  qed
  have i: "i \<notin> set r" using q w by (simp add: queue_rel_def)
  then have ne: "r ! k \<noteq> i" if "k < length r" for k using that by auto
  show ?thesis
    using q pc ne unfolding queue_rel_def w by (auto simp: ticket_unlock_def algebra_simps)
qed

lemma grab_rel:
  assumes q: "queue_rel n s q" and "waiting q = []" and "i < n" and "users (lk s) = ticket (lk s)"
  shows "queue_rel n \<lparr> lk = \<lparr> ticket = ticket (lk s), users = ticket (lk s) + 1 \<rparr>, pc = (pc s)(i := Holding) \<rparr>
    \<lparr> waiting = [i], entered = True \<rparr>"
  using assms unfolding queue_rel_def by auto

lemma local_rel:
  assumes q: "queue_rel n s q" and i: "i \<notin> set (waiting q)" and p: "p = Idle \<or> (\<exists>me. p = Trying me)"
  shows "queue_rel n \<lparr> lk = lk s, pc = (pc s)(i := p) \<rparr> q"
proof -
  have "waiting q ! k \<noteq> i" if "k < length (waiting q)" for k using that i by auto
  then show ?thesis using q p unfolding queue_rel_def by auto
qed

lemma lock_refines_queue:
  assumes q: "queue_rel n s q" and n: "n < 2 ^ 32" and st: "step n s s'"
  shows "\<exists>q'. queue_rel n s' q' \<and> (q' = q \<or> qstep q q')"
  using st
proof cases
  case (Take i me l)
  then have "i \<notin> set (waiting q)" using in_queue_iff [OF q] by simp
  with Take join_rel [OF q] qstep.Join show ?thesis by (auto simp: take_ticket_def)
next
  case (Enter i me)
  then have h: "waiting q \<noteq> [] \<and> hd (waiting q) = i \<and> \<not> entered q"
    using head_entered [OF q n] by (simp add: ticket_called_def)
  with Enter admit_rel [OF q] qstep.Admit show ?thesis by blast
next
  case (Release i)
  then have "waiting q \<noteq> [] \<and> hd (waiting q) = i \<and> entered q" using holder_entered [OF q] by simp
  with Release leave_rel [OF q] qstep.Leave show ?thesis by blast
next
  case (Try_read i)
  then have "i \<notin> set (waiting q)" using in_queue_iff [OF q] by simp
  moreover have "s' = \<lparr> lk = lk s, pc = (pc s)(i := Trying (users (lk s))) \<rparr>" using Try_read(1) by (cases s) simp
  ultimately show ?thesis using local_rel [OF q] by blast
next
  case (Try_cas i me r l)
  then have i: "i \<notin> set (waiting q)" using in_queue_iff [OF q] by simp
  show ?thesis
  proof (cases "users (lk s) = me \<and> ticket (lk s) = me")
    case True
    then have "(of_nat (length (waiting q)) :: u32) = of_nat 0" using q by (simp add: queue_rel_def)
    then have w: "waiting q = []" using of_nat_u32_inj [of "length (waiting q)" 0] queue_length [OF q] n by simp
    then have "\<not> entered q" using q by (auto simp: queue_rel_def)
    with w grab_rel [OF q w Try_cas(2)] qstep.Grab [of q i] True Try_cas show ?thesis
      by (auto simp: trylock_cas_cases)
  next
    case False
    with Try_cas i local_rel [OF q i, of Idle] show ?thesis by (auto simp: trylock_cas_cases)
  qed
qed

definition queue_init :: "queue_lock \<Rightarrow> bool" where
  "queue_init q \<longleftrightarrow> waiting q = [] \<and> \<not> entered q"

interpretation lock_queue: simulation "\<lambda>s. n < 2 ^ 32 \<and> lock_init s" "step n" queue_init qstep
  "\<lambda>s q. n < 2 ^ 32 \<and> queue_rel n s q" for n
proof
  fix c
  assume c: "n < 2 ^ 32 \<and> lock_init c"
  let ?q = "\<lparr> waiting = [], entered = False \<rparr>"
  have "queue_init ?q \<and> n < 2 ^ 32 \<and> queue_rel n c ?q"
    using c by (simp add: queue_init_def lock_init_def queue_rel_def)
  then show "\<exists>a. queue_init a \<and> n < 2 ^ 32 \<and> queue_rel n c a" ..
qed (use lock_refines_queue in blast)

lemma reach_queue:
  assumes "n < 2 ^ 32" and "reachable lock_init (step n) s"
  obtains q where "reachable queue_init qstep q" and "queue_rel n s q"
  using lock_queue.related [of n s] assms by auto

section \<open>Properties\<close>

text \<open>
  C6: mutual exclusion. In every reachable state of fewer than \<open>2 ^ 32\<close> threads that lock, try to
  lock and unlock in any interleaving, at most one thread holds the lock, although the counters wrap.
\<close>

theorem ticketlock_mutex:
  assumes "n < 2 ^ 32" and "reachable lock_init (step n) s" and "pc s i = Holding" and "pc s j = Holding"
  shows "i = j"
proof -
  obtain q where "queue_rel n s q" by (rule reach_queue [OF assms(1,2)])
  with assms(3,4) holder_entered show ?thesis by metis
qed

text \<open>
  C12: the lock is fair. Every step of the threads is a step of the abstract queue lock, in which a
  thread that takes a ticket is appended to the queue and only the head of the queue may enter, or
  leaves the queue unchanged.
\<close>

theorem ticketlock_fifo:
  assumes "n < 2 ^ 32" and "reachable lock_init (step n) s"
  shows "\<exists>q. reachable queue_init qstep q \<and> queue_rel n s q \<and>
    (\<forall>s'. step n s s' \<longrightarrow> (\<exists>q'. queue_rel n s' q' \<and> (q' = q \<or> qstep q q')))"
proof -
  obtain q where "reachable queue_init qstep q" "queue_rel n s q" by (rule reach_queue [OF assms])
  with lock_refines_queue [OF _ assms(1)] show ?thesis by blast
qed

text \<open>
  C23: the lock cannot deadlock. Whenever some thread is spinning, either a thread holds the lock and
  can release it, or exactly one spinning thread has its ticket called and can enter.
\<close>

theorem ticketlock_progress:
  assumes "n < 2 ^ 32" and "reachable lock_init (step n) s" and "pc s i = Spinning me"
  shows "(\<exists>j. pc s j = Holding) \<or> (\<exists>!j. \<exists>me'. pc s j = Spinning me' \<and> ticket_called (lk s) me')"
proof -
  obtain q where q: "queue_rel n s q" by (rule reach_queue [OF assms(1,2)])
  have ne: "waiting q \<noteq> []" using in_queue_iff [OF q] assms(3) by force
  then have hd: "pc s (hd (waiting q)) = (if entered q then Holding else Spinning (ticket (lk s)))"
    using q unfolding queue_rel_def hd_conv_nth [OF ne] by simp
  show ?thesis
  proof (cases "entered q")
    case True
    with hd show ?thesis by auto
  next
    case False
    with hd have h: "pc s (hd (waiting q)) = Spinning (ticket (lk s))" by simp
    have only: "j = hd (waiting q)" if "\<exists>me'. pc s j = Spinning me' \<and> ticket_called (lk s) me'" for j
      using head_entered [OF q assms(1), of j] that by (auto simp: ticket_called_def)
    have "\<exists>!j. \<exists>me'. pc s j = Spinning me' \<and> ticket_called (lk s) me'"
    proof (rule ex1I [of _ "hd (waiting q)"])
      show "\<exists>me'. pc s (hd (waiting q)) = Spinning me' \<and> ticket_called (lk s) me'"
        using h by (simp add: ticket_called_def)
    qed (rule only)
    then show ?thesis ..
  qed
qed

text \<open>Two threads: the first takes the lock, the second waits for it.\<close>

definition sample_lock :: lock_state where
  "sample_lock = \<lparr> lk = \<lparr> ticket = - 1, users = 1 \<rparr>, pc = (\<lambda>_. Idle)(0 := Holding, 1 := Spinning 0) \<rparr>"

lemma sample_lock_reach: "reachable lock_init (step 2) sample_lock"
proof -
  let ?s0 = "\<lparr> lk = \<lparr> ticket = - 1, users = - 1 \<rparr>, pc = (\<lambda>_. Idle) \<rparr>"
  let ?s1 = "\<lparr> lk = \<lparr> ticket = - 1, users = 0 \<rparr>, pc = (\<lambda>_. Idle)(0 := Spinning (- 1)) \<rparr>"
  let ?s2 = "?s1 \<lparr> pc := (pc ?s1)(0 := Holding) \<rparr>"
  have 0: "reachable lock_init (step 2) ?s0" by (rule reachable.start) (simp add: lock_init_def)
  have "step 2 ?s0 ?s1" using step.Take [of 0 2 ?s0 "- 1"] by (simp add: take_ticket_def)
  with 0 have 1: "reachable lock_init (step 2) ?s1" by (rule reachable.move)
  have "step 2 ?s1 ?s2" using step.Enter [of 0 2 ?s1 "- 1"] by (simp add: ticket_called_def)
  with 1 have 2: "reachable lock_init (step 2) ?s2" by (rule reachable.move)
  have "step 2 ?s2 sample_lock" using step.Take [of 1 2 ?s2 0] by (simp add: take_ticket_def sample_lock_def)
  with 2 show ?thesis by (rule reachable.move)
qed

theorem ticketlock_mutex_witness: "pc sample_lock 0 = Holding \<and> pc sample_lock 1 \<noteq> Holding"
  using ticketlock_mutex [OF _ sample_lock_reach, of 0 1] by (auto simp: sample_lock_def)

theorem ticketlock_fifo_witness: "\<exists>q. reachable queue_init qstep q \<and> queue_rel 2 sample_lock q"
  using ticketlock_fifo [OF _ sample_lock_reach] by auto

theorem ticketlock_progress_witness:
  "(\<exists>j. pc sample_lock j = Holding)
     \<or> (\<exists>!j. \<exists>me'. pc sample_lock j = Spinning me' \<and> ticket_called (lk sample_lock) me')"
  using ticketlock_progress [OF _ sample_lock_reach, of 1 0] by (simp add: sample_lock_def)

end
