(* ===== verification/Mpmc_Queue.thy ===== *)
theory Mpmc_Queue
  imports Prelude
begin

text \<open>
  The bounded multi-producer multi-consumer queue of \<^verbatim>\<open>src/src/enclave/mpmc_queue.c\<close>, which holds the
  scheduler's run queue and the host call queues. \<open>mpmcq\<close> is \<^verbatim>\<open>struct mpmcq\<close> (without padding); the
  first part runs \<open>newmpmcq\<close>, \<open>mpmc_enqueue\<close> and \<open>mpmc_dequeue\<close> one at a time and shows that they
  implement a bounded first-in first-out queue, positions wrapping at \<open>2 ^ 64\<close> (locale
  \<open>bounded_queue\<close>). The second part interleaves the atomic accesses of any number of threads and
  shows that the value taken at position \<open>k\<close> is the one put there by the \<open>k\<close>-th enqueue.
\<close>

unbundle bit_operations_syntax

section \<open>The queue\<close>

record cell_t =
  seq :: u64
  data :: u64

record mpmcq =
  buffer :: "cell_t list"
  buffer_mask :: u64
  enqueue_pos :: u64
  dequeue_pos :: u64

text \<open>
  \<open>newmpmcq\<close> on a buffer whose cells hold \<open>cells\<close> before the call; the assertion fails (\<open>None\<close>) unless
  the number of cells is a power of two and at least two.
\<close>

definition newmpmcq :: "cell_t list \<Rightarrow> u64 \<Rightarrow> mpmcq option" where
  "newmpmcq cells buffer_bytesize =
     (let buffer_size = buffer_bytesize div 16
      in if 2 \<le> buffer_size \<and> buffer_size AND (buffer_size - 1) = 0
         then Some \<lparr> buffer = map (\<lambda>i. (cells ! i) \<lparr> seq := of_nat i \<rparr>) [0..<unat buffer_size],
                     buffer_mask = buffer_size - 1, enqueue_pos = 0, dequeue_pos = 0 \<rparr>
         else None)"

definition cell_index :: "mpmcq \<Rightarrow> u64 \<Rightarrow> nat" where
  "cell_index q pos = unat (pos AND buffer_mask q)"

definition store_data :: "nat \<Rightarrow> u64 \<Rightarrow> mpmcq \<Rightarrow> mpmcq" where
  "store_data c v q = q \<lparr> buffer := (buffer q)[c := (buffer q ! c) \<lparr> data := v \<rparr>] \<rparr>"

definition store_seq :: "nat \<Rightarrow> u64 \<Rightarrow> mpmcq \<Rightarrow> mpmcq" where
  "store_seq c v q = q \<lparr> buffer := (buffer q)[c := (buffer q ! c) \<lparr> seq := v \<rparr>] \<rparr>"

text \<open>
  One thread alone. The compare-and-swap succeeds on a matching position; a positive difference
  would make the loop reload the same position forever, which is the result \<open>None\<close>.
\<close>

definition mpmc_enqueue :: "u64 \<Rightarrow> mpmcq \<Rightarrow> (bool \<times> mpmcq) option" where
  "mpmc_enqueue v q =
     (let pos = enqueue_pos q;
          c = cell_index q pos;
          dif = seq (buffer q ! c) - pos
      in if dif = 0 then
           Some (True, store_seq c (pos + 1) (store_data c v (q \<lparr> enqueue_pos := pos + 1 \<rparr>)))
         else if sint dif < 0 then Some (False, q)
         else None)"

definition mpmc_dequeue :: "mpmcq \<Rightarrow> (u64 option \<times> mpmcq) option" where
  "mpmc_dequeue q =
     (let pos = dequeue_pos q;
          c = cell_index q pos;
          dif = seq (buffer q ! c) - (pos + 1)
      in if dif = 0 then
           Some (Some (data (buffer q ! c)),
                 store_seq c (pos + buffer_mask q + 1) (q \<lparr> dequeue_pos := pos + 1 \<rparr>))
         else if sint dif < 0 then Some (None, q)
         else None)"

section \<open>A bounded queue\<close>

text \<open>The contract the scheduler and the host call threads rely on.\<close>

locale bounded_queue =
  fixes rep :: "'q \<Rightarrow> nat \<Rightarrow> 'v list \<Rightarrow> bool"
    and enq :: "'v \<Rightarrow> 'q \<Rightarrow> (bool \<times> 'q) option"
    and deq :: "'q \<Rightarrow> ('v option \<times> 'q) option"
  assumes capacity: "rep q n xs \<Longrightarrow> length xs \<le> n"
    and enq_room: "rep q n xs \<Longrightarrow> length xs < n \<Longrightarrow> \<exists>q'. enq v q = Some (True, q') \<and> rep q' n (xs @ [v])"
    and enq_full: "rep q n xs \<Longrightarrow> length xs = n \<Longrightarrow> enq v q = Some (False, q)"
    and deq_some: "rep q n (x # xs) \<Longrightarrow> \<exists>q'. deq q = Some (Some x, q') \<and> rep q' n xs"
    and deq_empty: "rep q n [] \<Longrightarrow> deq q = Some (None, q)"
begin

text \<open>Enqueue a list of values, then take as many out again.\<close>

fun enq_all :: "'v list \<Rightarrow> 'q \<Rightarrow> (bool \<times> 'q) option" where
  "enq_all [] q = Some (True, q)"
| "enq_all (v # vs) q = (case enq v q of Some (True, q') \<Rightarrow> enq_all vs q' | r \<Rightarrow> r)"

fun deq_n :: "nat \<Rightarrow> 'q \<Rightarrow> ('v list \<times> 'q) option" where
  "deq_n 0 q = Some ([], q)"
| "deq_n (Suc k) q =
     (case deq q of Some (Some v, q') \<Rightarrow> map_option (\<lambda>(vs, q''). (v # vs, q'')) (deq_n k q') | _ \<Rightarrow> None)"

lemma enq_all_room:
  "rep q n xs \<Longrightarrow> length xs + length vs \<le> n \<Longrightarrow> \<exists>q'. enq_all vs q = Some (True, q') \<and> rep q' n (xs @ vs)"
proof (induction vs arbitrary: q xs)
  case Nil
  then show ?case by simp
next
  case (Cons v vs)
  then obtain q' where "enq v q = Some (True, q')" "rep q' n (xs @ [v])" using enq_room [of q n xs v] by auto
  with Cons.IH [of q' "xs @ [v]"] Cons.prems show ?case by simp
qed

lemma deq_n_all: "rep q n (vs @ xs) \<Longrightarrow> \<exists>q'. deq_n (length vs) q = Some (vs, q') \<and> rep q' n xs"
proof (induction vs arbitrary: q)
  case Nil
  then show ?case by simp
next
  case (Cons v vs)
  then obtain q' where "deq q = Some (Some v, q')" "rep q' n (vs @ xs)" using deq_some [of q n v "vs @ xs"] by auto
  with Cons.IH [of q'] show ?case by auto
qed

lemma fifo:
  assumes "rep q n []" and "length vs \<le> n"
  shows "\<exists>q' q''. enq_all vs q = Some (True, q') \<and> deq_n (length vs) q' = Some (vs, q'') \<and> rep q'' n []"
proof -
  obtain q' where "enq_all vs q = Some (True, q')" "rep q' n vs" using enq_all_room [OF assms(1)] assms(2) by auto
  with deq_n_all [of q' n vs "[]"] show ?thesis by auto
qed

end

section \<open>The array implements the bounded queue\<close>

text \<open>
  \<open>mpmc_rep q n xs\<close>: the queue has \<open>n\<close> cells and holds \<open>xs\<close>. The dequeue position stands for any
  number \<open>d\<close> of past dequeues modulo \<open>2 ^ 64\<close>; the cell of position \<open>d + k\<close> carries the sequence number
  \<open>d + k + 1\<close> when it is full and \<open>d + k\<close> when it is free.
\<close>

definition ring_size :: "nat \<Rightarrow> bool" where
  "ring_size n \<longleftrightarrow> (\<exists>m. n = 2 ^ m \<and> 1 \<le> m \<and> m \<le> 62)"

definition mpmc_rep_at :: "nat \<Rightarrow> mpmcq \<Rightarrow> nat \<Rightarrow> u64 list \<Rightarrow> bool" where
  "mpmc_rep_at d q n xs \<longleftrightarrow>
     ring_size n \<and> length (buffer q) = n \<and> buffer_mask q = of_nat n - 1 \<and>
     length xs \<le> n \<and> dequeue_pos q = of_nat d \<and> enqueue_pos q = of_nat (d + length xs) \<and>
     (\<forall>k < length xs. buffer q ! ((d + k) mod n) = \<lparr> seq = of_nat (d + k + 1), data = xs ! k \<rparr>) \<and>
     (\<forall>k. length xs \<le> k \<and> k < n \<longrightarrow> seq (buffer q ! ((d + k) mod n)) = of_nat (d + k))"

definition mpmc_rep :: "mpmcq \<Rightarrow> nat \<Rightarrow> u64 list \<Rightarrow> bool" where
  "mpmc_rep q n xs \<longleftrightarrow> (\<exists>d. mpmc_rep_at d q n xs)"

lemma pow_le62: "m \<le> 62 \<Longrightarrow> (2::nat) ^ m \<le> 2 ^ 62"
  by (rule power_increasing) simp_all

lemma and_mask_index:
  assumes "n = 2 ^ m" and "m \<le> 62"
  shows "unat (of_nat p AND (of_nat n - 1) :: u64) = p mod n"
proof -
  have "(of_nat n - 1 :: u64) = mask m" using assms by (simp add: mask_eq_exp_minus_1)
  then have "(of_nat p AND (of_nat n - 1) :: u64) = take_bit m (of_nat p)" by (simp add: take_bit_eq_mask)
  also have "\<dots> = of_nat (take_bit m p)" by (simp add: take_bit_of_nat)
  also have "unat \<dots> = p mod n"
  proof -
    have "p mod 2 ^ m < 2 ^ m" by simp
    also note pow_le62 [OF assms(2)]
    finally have "p mod 2 ^ m < 2 ^ 64" by simp
    then show ?thesis using assms(1) by (simp add: take_bit_eq_mod unat_of_nat_small)
  qed
  finally show ?thesis .
qed

lemma neg_small:
  assumes "0 < a" and "a < 2 ^ 63"
  shows "(- of_nat a :: u64) \<noteq> 0" and "sint (- of_nat a :: u64) < 0"
proof -
  have u: "unat (of_nat a :: u64) = a" using assms(2) by (intro unat_of_nat_small) simp
  then have "(of_nat a :: u64) \<noteq> 0" using assms(1) by (simp add: word_eq_unat)
  then show "(- of_nat a :: u64) \<noteq> 0" by simp
  have "(- of_nat a :: u64) = of_nat (2 ^ 64 - a)" using assms(2) by (subst of_nat_diff) simp_all
  moreover have "unat (of_nat (2 ^ 64 - a) :: u64) = 2 ^ 64 - a"
    by (rule unat_of_nat_small) (use assms(1) in simp)
  ultimately have "unat (- of_nat a :: u64) = 2 ^ 64 - a" by (simp only:)
  then have "\<not> unat (- of_nat a :: u64) < 2 ^ 63" using assms(2) by simp
  then show "sint (- of_nat a :: u64) < 0" using sint_nonneg_iff [of "- of_nat a"] by linarith
qed

lemma mod_add_inj:
  fixes d k l n :: nat
  assumes "k < n" and "l < n" and "(d + k) mod n = (d + l) mod n"
  shows "k = l"
proof -
  have "int k mod int n = int l mod int n"
    using assms(3) by (metis mod_add_left_eq mod_diff_left_eq add_diff_cancel_left' of_nat_add zmod_int)
  with assms(1,2) show ?thesis by simp
qed

lemma mpmc_rep_atD:
  assumes "mpmc_rep_at d q n xs"
  shows "2 \<le> n" and "n \<le> 2 ^ 62" and "length (buffer q) = n" and "buffer_mask q = of_nat n - 1"
    and "cell_index q (of_nat p) = p mod n"
proof -
  from assms obtain m where m: "n = 2 ^ m" "1 \<le> m" "m \<le> 62" by (auto simp: mpmc_rep_at_def ring_size_def)
  show "2 \<le> n" using m power_increasing [of 1 m "2::nat"] by simp
  show "n \<le> 2 ^ 62" unfolding m(1) by (rule pow_le62 [OF m(3)])
  show "length (buffer q) = n" and b: "buffer_mask q = of_nat n - 1" using assms by (simp_all add: mpmc_rep_at_def)
  show "cell_index q (of_nat p) = p mod n" by (simp only: cell_index_def b and_mask_index [OF m(1,3)])
qed

lemma enqueue_room:
  assumes r: "mpmc_rep_at d q n xs" and len: "length xs < n"
  shows "\<exists>q'. mpmc_enqueue v q = Some (True, q') \<and> mpmc_rep_at d q' n (xs @ [v])"
proof -
  note D = mpmc_rep_atD [OF r]
  let ?p = "d + length xs" let ?c = "?p mod n"
  have pos: "enqueue_pos q = of_nat ?p" and free: "seq (buffer q ! ?c) = of_nat ?p"
    using r len by (simp_all add: mpmc_rep_at_def)
  let ?q' = "store_seq ?c (of_nat ?p + 1) (store_data ?c v (q \<lparr> enqueue_pos := of_nat ?p + 1 \<rparr>))"
  have "mpmc_enqueue v q = Some (True, ?q')"
    by (simp only: mpmc_enqueue_def pos D(5) free Let_def) simp
  then have e: "\<exists>q'. mpmc_enqueue v q = Some (True, q') \<and> q' = ?q'" by blast
  have c: "?c < length (buffer q)" using D(1,3) by simp
  have other: "(d + k) mod n \<noteq> ?c" if "k < n" "k \<noteq> length xs" for k using mod_add_inj that len by blast
  have buf: "buffer ?q' = (buffer q)[?c := \<lparr> seq = of_nat (?p + 1), data = v \<rparr>]"
    using c by (cases "buffer q ! ?c") (simp add: store_seq_def store_data_def add.commute)
  have "buffer ?q' ! ((d + k) mod n) = \<lparr> seq = of_nat (d + k + 1), data = (xs @ [v]) ! k \<rparr>"
    if "k < length (xs @ [v])" for k
  proof (cases "k = length xs")
    case True
    then show ?thesis using c buf by simp
  next
    case False
    then have "k < length xs" "k < n" using that len by simp_all
    then show ?thesis using other [OF \<open>k < n\<close> False] r buf by (simp add: mpmc_rep_at_def nth_append)
  qed
  moreover have "seq (buffer ?q' ! ((d + k) mod n)) = of_nat (d + k)" if "length (xs @ [v]) \<le> k" "k < n" for k
    using other [OF that(2)] that r buf by (simp add: mpmc_rep_at_def)
  ultimately have "mpmc_rep_at d ?q' n (xs @ [v])"
    using r len unfolding mpmc_rep_at_def by (simp add: store_seq_def store_data_def add.commute add.left_commute)
  with e show ?thesis by blast
qed

lemma enqueue_full:
  assumes r: "mpmc_rep_at d q n xs" and len: "length xs = n"
  shows "mpmc_enqueue v q = Some (False, q)"
proof -
  note D = mpmc_rep_atD [OF r]
  have pos: "enqueue_pos q = of_nat (d + n)"
    and full: "\<forall>k < n. buffer q ! ((d + k) mod n) = \<lparr> seq = of_nat (d + k + 1), data = xs ! k \<rparr>"
    using r len by (simp_all add: mpmc_rep_at_def)
  have s: "seq (buffer q ! (d mod n)) = of_nat (d + 1)" using full [rule_format, of 0] D(1) by simp
  have "(of_nat (d + 1) - of_nat (d + n) :: u64) = - of_nat (n - 1)"
    using D(1) by (simp add: of_nat_diff)
  with neg_small [of "n - 1"] D(1,2) show ?thesis
    unfolding mpmc_enqueue_def Let_def pos D(5) by (simp add: s)
qed

lemma dequeue_some:
  assumes r: "mpmc_rep_at d q n (x # xs)"
  shows "\<exists>q'. mpmc_dequeue q = Some (Some x, q') \<and> mpmc_rep_at (d + 1) q' n xs"
proof -
  note D = mpmc_rep_atD [OF r]
  let ?c = "d mod n"
  let ?q' = "store_seq ?c (of_nat (d + n)) (q \<lparr> dequeue_pos := of_nat (d + 1) \<rparr>)"
  have full: "\<forall>k < Suc (length xs). buffer q ! ((d + k) mod n) = \<lparr> seq = of_nat (d + k + 1), data = (x # xs) ! k \<rparr>"
    and pos: "dequeue_pos q = of_nat d" using r by (simp_all add: mpmc_rep_at_def)
  have cell: "buffer q ! ?c = \<lparr> seq = of_nat d + 1, data = x \<rparr>" using full [rule_format, of 0] by (simp add: add.commute)
  have "mpmc_dequeue q = Some (Some x, ?q')"
    unfolding mpmc_dequeue_def Let_def pos D(5) by (simp add: cell D(4) add.commute add.left_commute)
  moreover have "mpmc_rep_at (d + 1) ?q' n xs"
  proof -
    have c: "?c < length (buffer q)" using D(1,3) by simp
    have other: "(d + Suc k) mod n \<noteq> ?c" if "Suc k < n" for k using mod_add_inj [of "Suc k" n 0 d] that by auto
    have "buffer ?q' ! ((d + 1 + k) mod n) = \<lparr> seq = of_nat (d + 1 + k + 1), data = xs ! k \<rparr>" if "k < length xs" for k
      using full [rule_format, of "Suc k"] that other [of k] r by (simp add: store_seq_def mpmc_rep_at_def)
    moreover have "seq (buffer ?q' ! ((d + 1 + k) mod n)) = of_nat (d + 1 + k)" if "length xs \<le> k" "k < n" for k
    proof (cases "Suc k = n")
      case True
      then have e: "d + 1 + k = d + n" by simp
      then have "(d + 1 + k) mod n = ?c" by (simp only: mod_add_self2)
      with e show ?thesis using c by (simp only: store_seq_def) simp
    next
      case False
      then show ?thesis using r other [of k] that unfolding mpmc_rep_at_def by (auto simp: store_seq_def)
    qed
    ultimately show ?thesis using r D(3) unfolding mpmc_rep_at_def by (simp add: store_seq_def)
  qed
  ultimately show ?thesis by blast
qed

lemma dequeue_empty:
  assumes r: "mpmc_rep_at d q n []"
  shows "mpmc_dequeue q = Some (None, q)"
proof -
  note D = mpmc_rep_atD [OF r]
  have pos: "dequeue_pos q = of_nat d"
    and free: "\<forall>k. k < n \<longrightarrow> seq (buffer q ! ((d + k) mod n)) = of_nat (d + k)"
    using r by (simp_all add: mpmc_rep_at_def)
  have s: "seq (buffer q ! (d mod n)) = of_nat d" using free [rule_format, of 0] D(1) by simp
  show ?thesis
    using neg_small [of 1] unfolding mpmc_dequeue_def Let_def pos D(5) by (simp add: s)
qed

interpretation mpmc: bounded_queue mpmc_rep mpmc_enqueue mpmc_dequeue
proof
  fix q n xs and x v :: u64
  show "mpmc_rep q n xs \<Longrightarrow> length xs \<le> n" by (auto simp: mpmc_rep_def mpmc_rep_at_def)
  show "mpmc_rep q n xs \<Longrightarrow> length xs < n \<Longrightarrow> \<exists>q'. mpmc_enqueue v q = Some (True, q') \<and> mpmc_rep q' n (xs @ [v])"
    unfolding mpmc_rep_def using enqueue_room by blast
  show "mpmc_rep q n xs \<Longrightarrow> length xs = n \<Longrightarrow> mpmc_enqueue v q = Some (False, q)"
    unfolding mpmc_rep_def using enqueue_full by blast
  show "mpmc_rep q n (x # xs) \<Longrightarrow> \<exists>q'. mpmc_dequeue q = Some (Some x, q') \<and> mpmc_rep q' n xs"
    unfolding mpmc_rep_def using dequeue_some by blast
  show "mpmc_rep q n [] \<Longrightarrow> mpmc_dequeue q = Some (None, q)"
    unfolding mpmc_rep_def using dequeue_empty by blast
qed

section \<open>Concurrent threads\<close>

text \<open>
  The program points of a thread, between its atomic accesses. \<open>EnqSeq v pos\<close>: about to load the
  sequence number of the cell of \<open>pos\<close>; \<open>EnqCas\<close>: about to compare and swap; \<open>EnqData\<close> and \<open>EnqPub\<close>:
  about to store the data, then the sequence number. The dequeue is alike.
\<close>

datatype qpc =
    QIdle
  | EnqLoad u64
  | EnqSeq u64 u64
  | EnqCas u64 u64
  | EnqData u64 u64
  | EnqPub u64 u64
  | DeqLoad
  | DeqSeq u64
  | DeqCas u64
  | DeqData u64
  | DeqPub u64 u64

definition enq_next :: "u64 \<Rightarrow> u64 \<Rightarrow> u64 \<Rightarrow> qpc" where
  "enq_next v pos sq =
     (let dif = sq - pos in if dif = 0 then EnqCas v pos else if sint dif < 0 then QIdle else EnqLoad v)"

definition deq_next :: "u64 \<Rightarrow> u64 \<Rightarrow> qpc" where
  "deq_next pos sq =
     (let dif = sq - (pos + 1) in if dif = 0 then DeqCas pos else if sint dif < 0 then QIdle else DeqLoad)"

text \<open>
  The state of the threads, with three history variables that no step reads: the values of the
  claimed positions, the number of claimed dequeues, and the stage each position is in.
\<close>

datatype pstat = Unclaimed | Writing nat | Full | Reading nat | Done

record mstate =
  mq :: mpmcq
  mpc :: "nat \<Rightarrow> qpc"
  claimed :: "u64 list"
  ndeq :: nat
  pst :: "nat \<Rightarrow> pstat"

definition cell_at :: "mpmcq \<Rightarrow> u64 \<Rightarrow> cell_t" where
  "cell_at q pos = buffer q ! cell_index q pos"

inductive mstep :: "mstate \<Rightarrow> mstate \<Rightarrow> bool" where
  enq_call: "mpc s i = QIdle \<Longrightarrow> mstep s (s \<lparr> mpc := (mpc s)(i := EnqLoad v) \<rparr>)"
| enq_load: "mpc s i = EnqLoad v \<Longrightarrow> mstep s (s \<lparr> mpc := (mpc s)(i := EnqSeq v (enqueue_pos (mq s))) \<rparr>)"
| enq_seq: "mpc s i = EnqSeq v pos
     \<Longrightarrow> mstep s (s \<lparr> mpc := (mpc s)(i := enq_next v pos (seq (cell_at (mq s) pos))) \<rparr>)"
| enq_cas: "mpc s i = EnqCas v pos \<Longrightarrow> enqueue_pos (mq s) = pos
     \<Longrightarrow> mstep s (s \<lparr> mq := (mq s) \<lparr> enqueue_pos := pos + 1 \<rparr>, mpc := (mpc s)(i := EnqData v pos),
                     claimed := claimed s @ [v], pst := (pst s)(length (claimed s) := Writing i) \<rparr>)"
| enq_retry: "mpc s i = EnqCas v pos \<Longrightarrow> mstep s (s \<lparr> mpc := (mpc s)(i := EnqSeq v pos) \<rparr>)"
| enq_data: "mpc s i = EnqData v pos
     \<Longrightarrow> mstep s (s \<lparr> mq := store_data (cell_index (mq s) pos) v (mq s), mpc := (mpc s)(i := EnqPub v pos) \<rparr>)"
| enq_pub: "mpc s i = EnqPub v pos
     \<Longrightarrow> mstep s (s \<lparr> mq := store_seq (cell_index (mq s) pos) (pos + 1) (mq s),
                     mpc := (mpc s)(i := QIdle), pst := (pst s)(unat pos := Full) \<rparr>)"
| deq_call: "mpc s i = QIdle \<Longrightarrow> mstep s (s \<lparr> mpc := (mpc s)(i := DeqLoad) \<rparr>)"
| deq_load: "mpc s i = DeqLoad \<Longrightarrow> mstep s (s \<lparr> mpc := (mpc s)(i := DeqSeq (dequeue_pos (mq s))) \<rparr>)"
| deq_seq: "mpc s i = DeqSeq pos
     \<Longrightarrow> mstep s (s \<lparr> mpc := (mpc s)(i := deq_next pos (seq (cell_at (mq s) pos))) \<rparr>)"
| deq_cas: "mpc s i = DeqCas pos \<Longrightarrow> dequeue_pos (mq s) = pos
     \<Longrightarrow> mstep s (s \<lparr> mq := (mq s) \<lparr> dequeue_pos := pos + 1 \<rparr>, mpc := (mpc s)(i := DeqData pos),
                     ndeq := ndeq s + 1, pst := (pst s)(ndeq s := Reading i) \<rparr>)"
| deq_retry: "mpc s i = DeqCas pos \<Longrightarrow> mstep s (s \<lparr> mpc := (mpc s)(i := DeqSeq pos) \<rparr>)"
| deq_data: "mpc s i = DeqData pos
     \<Longrightarrow> mstep s (s \<lparr> mpc := (mpc s)(i := DeqPub pos (data (cell_at (mq s) pos))) \<rparr>)"
| deq_pub: "mpc s i = DeqPub pos v
     \<Longrightarrow> mstep s (s \<lparr> mq := store_seq (cell_index (mq s) pos) (pos + buffer_mask (mq s) + 1) (mq s),
                     mpc := (mpc s)(i := QIdle), pst := (pst s)(unat pos := Done) \<rparr>)"

definition minit :: "nat \<Rightarrow> mstate \<Rightarrow> bool" where
  "minit n s \<longleftrightarrow> mpmc_rep_at 0 (mq s) n [] \<and> (\<forall>i. mpc s i = QIdle) \<and>
     claimed s = [] \<and> ndeq s = 0 \<and> (\<forall>p. pst s p = Unclaimed)"

subsection \<open>The invariant\<close>

definition settled :: "pstat \<Rightarrow> bool" where
  "settled st \<longleftrightarrow> st = Full \<or> st = Done \<or> (\<exists>i. st = Reading i)"

text \<open>The position whose turn it is in its cell: its predecessor is done and it is not.\<close>

definition cur :: "nat \<Rightarrow> (nat \<Rightarrow> pstat) \<Rightarrow> nat \<Rightarrow> bool" where
  "cur n st p \<longleftrightarrow> (p < n \<or> st (p - n) = Done) \<and> st p \<noteq> Done"

definition shared_inv :: "nat \<Rightarrow> mpmcq \<Rightarrow> u64 list \<Rightarrow> nat \<Rightarrow> (nat \<Rightarrow> pstat) \<Rightarrow> bool" where
  "shared_inv n q vs d st \<longleftrightarrow>
     ring_size n \<and> length (buffer q) = n \<and> buffer_mask q = of_nat n - 1 \<and>
     enqueue_pos q = of_nat (length vs) \<and> dequeue_pos q = of_nat d \<and>
     (\<forall>p. st p = Unclaimed \<longleftrightarrow> length vs \<le> p) \<and>
     (\<forall>p. p < d \<longleftrightarrow> st p = Done \<or> (\<exists>i. st p = Reading i)) \<and>
     (\<forall>p. n \<le> p \<and> p < length vs \<longrightarrow> st (p - n) = Done) \<and>
     (\<forall>p. cur n st p \<longrightarrow> seq (buffer q ! (p mod n)) = of_nat (if settled (st p) then p + 1 else p)) \<and>
     (\<forall>p. settled (st p) \<and> st p \<noteq> Done \<longrightarrow> data (buffer q ! (p mod n)) = vs ! p)"

fun thread_inv :: "nat \<Rightarrow> mpmcq \<Rightarrow> u64 list \<Rightarrow> nat \<Rightarrow> (nat \<Rightarrow> pstat) \<Rightarrow> nat \<Rightarrow> qpc \<Rightarrow> bool" where
  "thread_inv n q vs d st i (EnqSeq v pos) \<longleftrightarrow> unat pos \<le> length vs"
| "thread_inv n q vs d st i (EnqCas v pos) \<longleftrightarrow>
     unat pos \<le> length vs \<and> (unat pos < n \<or> st (unat pos - n) = Done)"
| "thread_inv n q vs d st i (EnqData v pos) \<longleftrightarrow> st (unat pos) = Writing i \<and> v = vs ! unat pos"
| "thread_inv n q vs d st i (EnqPub v pos) \<longleftrightarrow>
     st (unat pos) = Writing i \<and> v = vs ! unat pos \<and> data (buffer q ! (unat pos mod n)) = v"
| "thread_inv n q vs d st i (DeqSeq pos) \<longleftrightarrow> unat pos \<le> d"
| "thread_inv n q vs d st i (DeqCas pos) \<longleftrightarrow> unat pos \<le> d \<and> settled (st (unat pos))"
| "thread_inv n q vs d st i (DeqData pos) \<longleftrightarrow> st (unat pos) = Reading i"
| "thread_inv n q vs d st i (DeqPub pos v) \<longleftrightarrow> st (unat pos) = Reading i \<and> v = vs ! unat pos"
| "thread_inv n q vs d st i _ \<longleftrightarrow> True"

definition minv :: "nat \<Rightarrow> mstate \<Rightarrow> bool" where
  "minv n s \<longleftrightarrow> shared_inv n (mq s) (claimed s) (ndeq s) (pst s) \<and>
     (\<forall>i. thread_inv n (mq s) (claimed s) (ndeq s) (pst s) i (mpc s i))"

subsection \<open>Positions and cells\<close>

lemma ring_sizeD: "ring_size n \<Longrightarrow> 2 \<le> n" "ring_size n \<Longrightarrow> n \<le> 2 ^ 62"
proof -
  assume "ring_size n"
  then obtain m where m: "n = 2 ^ m" "1 \<le> m" "m \<le> 62" by (auto simp: ring_size_def)
  show "2 \<le> n" using m power_increasing [of 1 m "2::nat"] by simp
  show "n \<le> 2 ^ 62" unfolding m(1) by (rule pow_le62 [OF m(3)])
qed

lemma shared_invD:
  assumes "shared_inv n q vs d st"
  shows "2 \<le> n" and "n \<le> 2 ^ 62" and "length (buffer q) = n" and "buffer_mask q = of_nat n - 1"
    and "enqueue_pos q = of_nat (length vs)" and "dequeue_pos q = of_nat d"
    and "\<And>p. st p = Unclaimed \<longleftrightarrow> length vs \<le> p"
    and "\<And>p. p < d \<longleftrightarrow> st p = Done \<or> (\<exists>i. st p = Reading i)"
    and "\<And>p. n \<le> p \<Longrightarrow> p < length vs \<Longrightarrow> st (p - n) = Done"
    and "\<And>p. cur n st p \<Longrightarrow> seq (buffer q ! (p mod n)) = of_nat (if settled (st p) then p + 1 else p)"
    and "\<And>p. settled (st p) \<Longrightarrow> st p \<noteq> Done \<Longrightarrow> data (buffer q ! (p mod n)) = vs ! p"
    and "cell_index q pos = unat pos mod n"
proof -
  note A = assms [unfolded shared_inv_def]
  show "2 \<le> n" "n \<le> 2 ^ 62" using A ring_sizeD by blast+
  show "length (buffer q) = n" "enqueue_pos q = of_nat (length vs)" "dequeue_pos q = of_nat d"
    "\<And>p. st p = Unclaimed \<longleftrightarrow> length vs \<le> p" "\<And>p. p < d \<longleftrightarrow> st p = Done \<or> (\<exists>i. st p = Reading i)"
    "\<And>p. n \<le> p \<Longrightarrow> p < length vs \<Longrightarrow> st (p - n) = Done"
    "\<And>p. cur n st p \<Longrightarrow> seq (buffer q ! (p mod n)) = of_nat (if settled (st p) then p + 1 else p)"
    "\<And>p. settled (st p) \<Longrightarrow> st p \<noteq> Done \<Longrightarrow> data (buffer q ! (p mod n)) = vs ! p"
    using A by blast+
  show b: "buffer_mask q = of_nat n - 1" using A by blast
  from A obtain m where m: "n = 2 ^ m" "m \<le> 62" by (auto simp: ring_size_def)
  show "cell_index q pos = unat pos mod n"
    using and_mask_index [OF m, of "unat pos"] by (simp add: cell_index_def b)
qed

lemma mod_eq_ge:
  fixes p r n :: nat
  assumes "p mod n = r mod n" and "p < r"
  shows "p + n \<le> r"
proof -
  have "n dvd r - p" using assms mod_eq_dvd_iff_nat [of p r n] by simp
  then have "n \<le> r - p" using assms(2) by (intro dvd_imp_le) simp_all
  with assms(2) show ?thesis by simp
qed

lemma done_below:
  assumes inv: "shared_inv n q vs d st" and "st r = Done" and "p mod n = r mod n" and "p \<le> r"
  shows "st p = Done"
  using assms(2-4)
proof (induction r rule: less_induct)
  case (less r)
  note S = shared_invD [OF inv]
  show ?case
  proof (cases "p = r")
    case False
    then have ge: "p + n \<le> r" using less.prems mod_eq_ge by simp
    have "r < length vs" using S(7) [of r] less.prems(1) by (cases "r < length vs") auto
    then have "st (r - n) = Done" using S(9) [of r] ge by simp
    moreover have "p mod n = (r - n) mod n" using less.prems(2) ge by (simp add: le_mod_geq)
    ultimately show ?thesis using less.IH [of "r - n"] ge S(1) by simp
  qed (use less.prems in simp)
qed

lemma cur_unique:
  assumes inv: "shared_inv n q vs d st" and "cur n st p" and "cur n st r" and "p mod n = r mod n"
  shows "p = r"
proof -
  have False if "a < b" "cur n st a" "cur n st b" "a mod n = b mod n" for a b
  proof -
    have ge: "a + n \<le> b" using mod_eq_ge that by simp
    then have "st (b - n) = Done" using that(3) by (simp add: cur_def)
    moreover have "a mod n = (b - n) mod n" using that(4) ge by (simp add: le_mod_geq)
    ultimately have "st a = Done" using done_below [OF inv] ge by simp
    with that(2) show False by (simp add: cur_def)
  qed
  with assms(2-4) show ?thesis by (metis linorder_cases)
qed

lemma cur_exists:
  assumes inv: "shared_inv n q vs d st" and c: "c < n"
  shows "\<exists>p. p mod n = c \<and> cur n st p \<and> p < length vs + n"
proof -
  note S = shared_invD [OF inv]
  let ?P = "\<lambda>p. p mod n = c \<and> st p \<noteq> Done"
  have "length vs \<le> c + length vs * n" using S(1) by (simp add: trans_le_add2)
  then have "st (c + length vs * n) = Unclaimed" using S(7) by simp
  then have ex: "?P (c + length vs * n)" using c by simp
  define p where "p = (LEAST p. ?P p)"
  have p: "p mod n = c" "st p \<noteq> Done" using LeastI [of ?P, OF ex] by (simp_all add: p_def)
  have pred: "p < n \<or> st (p - n) = Done"
  proof (rule disjCI)
    assume "st (p - n) \<noteq> Done"
    show "p < n"
    proof (rule ccontr)
      assume "\<not> p < n"
      then have "(p - n) mod n = c" using p(1) by (simp add: le_mod_geq)
      with \<open>st (p - n) \<noteq> Done\<close> have "p \<le> p - n" unfolding p_def by (intro Least_le) simp
      with \<open>\<not> p < n\<close> S(1) show False by simp
    qed
  qed
  moreover have "p < length vs + n"
  proof (cases "p < n")
    case False
    with pred have "st (p - n) \<noteq> Unclaimed" by auto
    then show ?thesis using S(7) [of "p - n"] by simp
  qed simp
  ultimately show ?thesis using p by (auto simp: cur_def)
qed

lemma claimed_cur:
  assumes inv: "shared_inv n q vs d st" and "st p \<noteq> Unclaimed" and "st p \<noteq> Done"
  shows "cur n st p"
proof -
  have "p < length vs" using shared_invD(7) [OF inv, of p] assms(2) by simp
  then show ?thesis using shared_invD(9) [OF inv, of p] assms(3) by (cases "p < n") (simp_all add: cur_def)
qed

lemma seq_word_cases:
  assumes inv: "shared_inv n q vs d st" and E: "length vs < 2 ^ 62" and x: "x \<le> length vs + 1"
    and sq: "seq (buffer q ! (p mod n)) = of_nat x"
  obtains r where "cur n st r" and "r mod n = p mod n" and "x = (if settled (st r) then r + 1 else r)"
proof -
  note S = shared_invD [OF inv]
  obtain r where r: "r mod n = p mod n" "cur n st r" "r < length vs + n"
    using cur_exists [OF inv, of "p mod n"] S(1) by auto
  let ?y = "if settled (st r) then r + 1 else r"
  have "?y < 2 ^ 64" "x < 2 ^ 64" using r(3) S(2) E x by auto
  moreover have "(of_nat ?y :: u64) = of_nat x" using S(10) [OF r(2)] sq r(1) by simp
  ultimately have "x = ?y" using of_nat_u64_inj by metis
  with r that show thesis by blast
qed

subsection \<open>Every step keeps the invariant\<close>

text \<open>What the other threads rely on: positions only move forward through their stages.\<close>

definition advances ::
    "nat \<Rightarrow> nat \<Rightarrow> mpmcq \<Rightarrow> u64 list \<Rightarrow> nat \<Rightarrow> (nat \<Rightarrow> pstat) \<Rightarrow> mpmcq \<Rightarrow> u64 list \<Rightarrow> nat \<Rightarrow> (nat \<Rightarrow> pstat) \<Rightarrow> bool" where
  "advances n i q vs d st q' vs' d' st' \<longleftrightarrow>
     d \<le> d' \<and> (\<exists>ws. vs' = vs @ ws) \<and>
     (\<forall>p. st p = Done \<longrightarrow> st' p = Done) \<and> (\<forall>p. settled (st p) \<longrightarrow> settled (st' p)) \<and>
     (\<forall>p j. j \<noteq> i \<and> st p = Writing j \<longrightarrow>
        st' p = Writing j \<and> data (buffer q' ! (p mod n)) = data (buffer q ! (p mod n))) \<and>
     (\<forall>p j. j \<noteq> i \<and> st p = Reading j \<longrightarrow> st' p = Reading j)"

lemma thread_inv_advances:
  assumes inv: "shared_inv n q vs d st" and adv: "advances n i q vs d st q' vs' d' st'" and j: "j \<noteq> i"
    and t: "thread_inv n q vs d st j p"
  shows "thread_inv n q' vs' d' st' j p"
proof -
  note A = adv [unfolded advances_def]
  have len: "length vs \<le> length vs'" using A by auto
  have nth: "vs' ! r = vs ! r" if "st r \<noteq> Unclaimed" for r
  proof -
    have "r < length vs" using that shared_invD(7) [OF inv, of r] by simp
    with A show ?thesis by (auto simp: nth_append)
  qed
  show ?thesis
    using t A len j
  proof (cases p)
    case (EnqData v pos)
    then have "st (unat pos) = Writing j" "v = vs ! unat pos" using t by simp_all
    with EnqData A j nth [of "unat pos"] show ?thesis by auto
  next
    case (EnqPub v pos)
    then have "st (unat pos) = Writing j" "v = vs ! unat pos" "data (buffer q ! (unat pos mod n)) = v"
      using t by simp_all
    with EnqPub A j nth [of "unat pos"] show ?thesis by auto
  next
    case (DeqPub pos v)
    then have "st (unat pos) = Reading j" "v = vs ! unat pos" using t by simp_all
    with DeqPub A j nth [of "unat pos"] show ?thesis by auto
  qed (auto intro: le_trans)
qed

lemma minv_step_other:
  assumes inv: "minv n s" and shared: "shared_inv n q' vs' d' st'"
    and adv: "advances n i (mq s) (claimed s) (ndeq s) (pst s) q' vs' d' st'"
    and own: "thread_inv n q' vs' d' st' i p'"
  shows "minv n \<lparr> mq = q', mpc = (mpc s)(i := p'), claimed = vs', ndeq = d', pst = st' \<rparr>"
proof -
  have "thread_inv n q' vs' d' st' j (((mpc s)(i := p')) j)" for j
    using own inv thread_inv_advances [OF _ adv, of j] unfolding minv_def by (cases "j = i") auto
  with shared show ?thesis by (simp add: minv_def)
qed

lemma advances_refl: "advances n i q vs d st q vs d st"
  by (simp add: advances_def)

lemma minv_local:
  assumes "minv n s" and "thread_inv n (mq s) (claimed s) (ndeq s) (pst s) i p'"
  shows "minv n (s \<lparr> mpc := (mpc s)(i := p') \<rparr>)"
  using assms by (auto simp: minv_def)

text \<open>The two loads of a sequence number.\<close>

lemma enq_seq_inv:
  assumes inv: "shared_inv n q vs d st" and E: "length vs < 2 ^ 62" and P: "unat pos \<le> length vs"
  shows "thread_inv n q vs d st i (enq_next v pos (seq (cell_at q pos)))"
proof (cases "seq (cell_at q pos) = pos")
  case True
  note S = shared_invD [OF inv]
  have sq: "seq (buffer q ! (unat pos mod n)) = of_nat (unat pos)"
    using True by (simp add: cell_at_def S(12))
  have x: "unat pos \<le> length vs + 1" using P by simp
  obtain r where r: "cur n st r" "r mod n = unat pos mod n"
      "unat pos = (if settled (st r) then r + 1 else r)"
    by (rule seq_word_cases [OF inv E x sq])
  have "r = unat pos"
  proof (rule ccontr)
    assume "r \<noteq> unat pos"
    then have "unat pos = r + 1" using r(3) by (simp split: if_splits)
    with r(2) mod_eq_ge [of r n "unat pos"] S(1) show False by simp
  qed
  with r(1) P show ?thesis using True by (simp add: enq_next_def cur_def)
qed (simp add: enq_next_def Let_def)

lemma deq_seq_inv:
  assumes inv: "shared_inv n q vs d st" and E: "length vs < 2 ^ 62" and d: "d \<le> length vs" and P: "unat pos \<le> d"
  shows "thread_inv n q vs d st i (deq_next pos (seq (cell_at q pos)))"
proof (cases "seq (cell_at q pos) = pos + 1")
  case True
  note S = shared_invD [OF inv]
  have sq: "seq (buffer q ! (unat pos mod n)) = of_nat (unat pos + 1)"
    using True by (simp add: cell_at_def S(12))
  have x: "unat pos + 1 \<le> length vs + 1" using P d by simp
  obtain r where r: "cur n st r" "r mod n = unat pos mod n"
      "unat pos + 1 = (if settled (st r) then r + 1 else r)"
    by (rule seq_word_cases [OF inv E x sq])
  have "settled (st r)"
  proof (rule ccontr)
    assume "\<not> settled (st r)"
    then have "r = unat pos + 1" using r(3) by simp
    with r(2) mod_eq_ge [of "unat pos" n r] S(1) show False by simp
  qed
  with r(3) P show ?thesis using True by (simp add: deq_next_def)
qed (simp add: deq_next_def Let_def)

text \<open>Claiming a position for an enqueue.\<close>

lemma enq_cas_shared:
  fixes i :: nat
  assumes inv: "shared_inv n q vs d st" and pred: "length vs < n \<or> st (length vs - n) = Done"
  defines "st' \<equiv> st(length vs := Writing i)"
  shows "shared_inv n (q \<lparr> enqueue_pos := of_nat (length vs) + 1 \<rparr>) (vs @ [v]) d st'"
    and "advances n i q vs d st (q \<lparr> enqueue_pos := of_nat (length vs) + 1 \<rparr>) (vs @ [v]) d st'"
proof -
  note S = shared_invD [OF inv]
  have un: "st (length vs) = Unclaimed" using S(7) by simp
  have same: "st' p = Done \<longleftrightarrow> st p = Done" "settled (st' p) \<longleftrightarrow> settled (st p)" for p
    using un by (auto simp: st'_def settled_def)
  then have cur: "cur n st' p \<longleftrightarrow> cur n st p" for p by (simp add: cur_def)
  have "st' p = Unclaimed \<longleftrightarrow> length (vs @ [v]) \<le> p" for p using S(7) [of p] by (auto simp: st'_def)
  moreover have "p < d \<longleftrightarrow> st' p = Done \<or> (\<exists>i. st' p = Reading i)" for p
    using S(8) [of p] un by (auto simp: st'_def)
  moreover have "st' (p - n) = Done" if "n \<le> p \<and> p < length (vs @ [v])" for p
    using that S(9) [of p] pred unfolding same(1) by (cases "p = length vs") auto
  moreover have "data (buffer q ! (p mod n)) = (vs @ [v]) ! p" if "settled (st' p) \<and> st' p \<noteq> Done" for p
  proof -
    have "settled (st p)" "st p \<noteq> Done" using that by (simp_all add: same)
    moreover from this have "p < length vs" using S(7) [of p] by (auto simp: settled_def)
    ultimately show ?thesis using S(11) [of p] by (simp add: nth_append)
  qed
  ultimately show "shared_inv n (q \<lparr> enqueue_pos := of_nat (length vs) + 1 \<rparr>) (vs @ [v]) d st'"
    using inv S(10) unfolding shared_inv_def cur same(2) by (simp add: add.commute)
  show "advances n i q vs d st (q \<lparr> enqueue_pos := of_nat (length vs) + 1 \<rparr>) (vs @ [v]) d st'"
    using un same unfolding advances_def st'_def by auto
qed

text \<open>Storing the data: no other thread uses the cell.\<close>

lemma enq_data_shared:
  assumes inv: "shared_inv n q vs d st" and w: "st p = Writing i"
  defines "q' \<equiv> store_data (p mod n) (vs ! p) q"
  shows "shared_inv n q' vs d st" and "advances n i q vs d st q' vs d st"
    and "data (buffer q' ! (p mod n)) = vs ! p"
proof -
  note S = shared_invD [OF inv]
  have curp: "cur n st p" using claimed_cur [OF inv, of p] w by simp
  have other: "r mod n \<noteq> p mod n" if "st r \<noteq> Unclaimed" "st r \<noteq> Done" "r \<noteq> p" for r
    using cur_unique [OF inv claimed_cur [OF inv] curp, of r] that by blast
  have len: "p mod n < length (buffer q)" using S(1,3) by simp
  have sq: "seq (buffer q' ! k) = seq (buffer q ! k)" for k
    using len by (cases "k = p mod n") (auto simp: q'_def store_data_def)
  have dt: "data (buffer q' ! (r mod n)) = data (buffer q ! (r mod n))" if "r mod n \<noteq> p mod n" for r
    using that by (simp add: q'_def store_data_def)
  have fields: "length (buffer q') = length (buffer q)" "buffer_mask q' = buffer_mask q"
    "enqueue_pos q' = enqueue_pos q" "dequeue_pos q' = dequeue_pos q" by (simp_all add: q'_def store_data_def)
  have "data (buffer q' ! (r mod n)) = vs ! r" if r: "settled (st r) \<and> st r \<noteq> Done" for r
  proof -
    have "r \<noteq> p" "st r \<noteq> Unclaimed" using r w by (auto simp: settled_def)
    with r dt [OF other] S(11) [of r] show ?thesis by simp
  qed
  then show "shared_inv n q' vs d st"
    using inv unfolding shared_inv_def fields sq by simp
  show "advances n i q vs d st q' vs d st"
  proof -
    have "data (buffer q' ! (r mod n)) = data (buffer q ! (r mod n))" if "j \<noteq> i \<and> st r = Writing j" for r j
    proof (rule dt [OF other])
      show "r \<noteq> p" using that w by auto
    qed (use that in simp_all)
    then show ?thesis unfolding advances_def by auto
  qed
  show "data (buffer q' ! (p mod n)) = vs ! p" using len by (simp add: q'_def store_data_def)
qed

lemma store_seq_fields:
  "length (buffer (store_seq c v q)) = length (buffer q)" "buffer_mask (store_seq c v q) = buffer_mask q"
  "enqueue_pos (store_seq c v q) = enqueue_pos q" "dequeue_pos (store_seq c v q) = dequeue_pos q"
  by (simp_all add: store_seq_def)

lemma store_seq_data: "data (buffer (store_seq c v q) ! k) = data (buffer q ! k)"
proof (cases "c < length (buffer q)")
  case True
  then show ?thesis by (simp add: store_seq_def nth_list_update)
next
  case False
  then show ?thesis by (simp add: store_seq_def list_update_beyond)
qed

lemma store_seq_seq:
  "c < length (buffer q) \<Longrightarrow> seq (buffer (store_seq c v q) ! k) = (if k = c then v else seq (buffer q ! k))"
  by (simp add: store_seq_def nth_list_update)

text \<open>Publishing the value.\<close>

lemma enq_pub_shared:
  assumes inv: "shared_inv n q vs d st" and w: "st p = Writing i" and dat: "data (buffer q ! (p mod n)) = vs ! p"
  defines "q' \<equiv> store_seq (p mod n) (of_nat p + 1) q" and "st' \<equiv> st(p := Full)"
  shows "shared_inv n q' vs d st'" and "advances n i q vs d st q' vs d st'"
proof -
  note S = shared_invD [OF inv]
  have len: "p mod n < length (buffer q)" using S(1,3) by simp
  have curp: "cur n st p" using claimed_cur [OF inv, of p] w by simp
  have same: "st' r = Done \<longleftrightarrow> st r = Done" "st' r = Unclaimed \<longleftrightarrow> st r = Unclaimed"
    "(\<exists>i. st' r = Reading i) \<longleftrightarrow> (\<exists>i. st r = Reading i)" for r using w by (auto simp: st'_def)
  then have cur: "cur n st' r \<longleftrightarrow> cur n st r" for r by (simp add: cur_def)
  have "seq (buffer q' ! (r mod n)) = of_nat (if settled (st' r) then r + 1 else r)" if r: "cur n st r" for r
  proof (cases "r = p")
    case True
    then show ?thesis using len by (simp add: q'_def store_seq_seq st'_def settled_def add.commute)
  next
    case False
    then have "r mod n \<noteq> p mod n" using cur_unique [OF inv r curp] by blast
    with False S(10) [OF r] show ?thesis by (simp add: q'_def store_seq_seq [OF len] st'_def)
  qed
  moreover have "data (buffer q' ! (r mod n)) = vs ! r" if "settled (st' r) \<and> st' r \<noteq> Done" for r
    using that S(11) [of r] dat by (cases "r = p") (auto simp: q'_def store_seq_data st'_def)
  ultimately show "shared_inv n q' vs d st'"
    using inv unfolding shared_inv_def cur same q'_def store_seq_fields by blast
  show "advances n i q vs d st q' vs d st'"
    using w unfolding advances_def st'_def q'_def by (auto simp: store_seq_data settled_def)
qed

text \<open>Claiming a full position for a dequeue.\<close>

lemma deq_cas_shared:
  fixes i :: nat
  assumes inv: "shared_inv n q vs d st" and full: "settled (st d)"
  defines "st' \<equiv> st(d := Reading i)"
  shows "shared_inv n (q \<lparr> dequeue_pos := of_nat d + 1 \<rparr>) vs (d + 1) st'"
    and "advances n i q vs d st (q \<lparr> dequeue_pos := of_nat d + 1 \<rparr>) vs (d + 1) st'"
proof -
  note S = shared_invD [OF inv]
  have f: "st d = Full" using full S(8) [of d] by (auto simp: settled_def)
  have same: "st' p = Done \<longleftrightarrow> st p = Done" "settled (st' p) \<longleftrightarrow> settled (st p)"
    "st' p = Unclaimed \<longleftrightarrow> st p = Unclaimed" for p using f by (auto simp: st'_def settled_def)
  then have cur: "cur n st' p \<longleftrightarrow> cur n st p" for p by (simp add: cur_def)
  have "p < d + 1 \<longleftrightarrow> st' p = Done \<or> (\<exists>i. st' p = Reading i)" for p
    using S(8) [of p] by (auto simp: st'_def less_Suc_eq)
  then show "shared_inv n (q \<lparr> dequeue_pos := of_nat d + 1 \<rparr>) vs (d + 1) st'"
    using inv unfolding shared_inv_def cur same by (simp add: add.commute)
  show "advances n i q vs d st (q \<lparr> dequeue_pos := of_nat d + 1 \<rparr>) vs (d + 1) st'"
    using f unfolding advances_def st'_def by (auto simp: settled_def)
qed

text \<open>Handing the cell to the position one round later.\<close>

lemma deq_pub_shared:
  assumes inv: "shared_inv n q vs d st" and r: "st p = Reading i"
  defines "q' \<equiv> store_seq (p mod n) (of_nat (p + n)) q" and "st' \<equiv> st(p := Done)"
  shows "shared_inv n q' vs d st'" and "advances n i q vs d st q' vs d st'"
proof -
  note S = shared_invD [OF inv]
  have len: "p mod n < length (buffer q)" using S(1,3) by simp
  have curp: "cur n st p" using claimed_cur [OF inv, of p] r by simp
  have "\<not> p + n < length vs" using S(9) [of "p + n"] r by auto
  then have nxt: "st (p + n) = Unclaimed" using S(7) by simp
  have "seq (buffer q' ! (k mod n)) = of_nat (if settled (st' k) then k + 1 else k)" if k: "cur n st' k" for k
  proof (cases "k = p + n")
    case True
    then show ?thesis using nxt S(1) by (simp add: q'_def store_seq_seq [OF len] st'_def settled_def)
  next
    case False
    then have "k \<noteq> p" "cur n st k" using k by (auto simp: cur_def st'_def split: if_splits)
    then have "k mod n \<noteq> p mod n" using cur_unique [OF inv _ curp] by blast
    then show ?thesis
      using S(10) [OF \<open>cur n st k\<close>] \<open>k \<noteq> p\<close> by (simp add: q'_def store_seq_seq [OF len] st'_def)
  qed
  moreover have "data (buffer q' ! (k mod n)) = vs ! k" if "settled (st' k) \<and> st' k \<noteq> Done" for k
    using that S(11) [of k] by (cases "k = p") (auto simp: q'_def store_seq_data st'_def)
  moreover have "st' k = Unclaimed \<longleftrightarrow> length vs \<le> k" for k using S(7) [of k] r by (auto simp: st'_def)
  moreover have "k < d \<longleftrightarrow> st' k = Done \<or> (\<exists>i. st' k = Reading i)" for k
    using S(8) [of k] r by (auto simp: st'_def)
  moreover have "st' (k - n) = Done" if "n \<le> k \<and> k < length vs" for k
    using S(9) [of k] that by (simp add: st'_def)
  ultimately show "shared_inv n q' vs d st'"
    using inv unfolding shared_inv_def q'_def store_seq_fields by blast
  show "advances n i q vs d st q' vs d st'"
    using r unfolding advances_def st'_def q'_def by (auto simp: store_seq_data settled_def)
qed

lemma ndeq_le:
  assumes "shared_inv n q vs d st"
  shows "d \<le> length vs" and "length vs \<le> d + n"
proof -
  note S = shared_invD [OF assms]
  show "d \<le> length vs"
    using S(7) [of "length vs"] S(8) [of "length vs"] by (cases "length vs < d") auto
  show "length vs \<le> d + n"
  proof (rule ccontr)
    assume "\<not> length vs \<le> d + n"
    then have "st (length vs - 1 - n) = Done" by (intro S(9)) auto
    then have "length vs - 1 - n < d" using S(8) by blast
    with \<open>\<not> length vs \<le> d + n\<close> show False by simp
  qed
qed

lemma minv_step:
  assumes inv: "minv n s" and E: "length (claimed s) < 2 ^ 62" and st: "mstep s s'"
  shows "minv n s'"
proof -
  let ?q = "mq s" and ?vs = "claimed s" and ?d = "ndeq s" and ?st = "pst s"
  have sh: "shared_inv n ?q ?vs ?d ?st" and th: "\<And>i. thread_inv n ?q ?vs ?d ?st i (mpc s i)"
    using inv by (simp_all add: minv_def)
  note S = shared_invD [OF sh] and d = ndeq_le(1) [OF sh]
  have uE: "unat (of_nat (length ?vs) :: u64) = length ?vs" "unat (of_nat ?d :: u64) = ?d"
    using E d by (auto intro!: unat_of_nat_small)
  have ext: "s \<lparr> mq := a, mpc := b, claimed := c, pst := e \<rparr> =
      \<lparr> mq = a, mpc = b, claimed = c, ndeq = ?d, pst = e \<rparr>"
    "s \<lparr> mq := a, mpc := b \<rparr> = \<lparr> mq = a, mpc = b, claimed = ?vs, ndeq = ?d, pst = ?st \<rparr>"
    "s \<lparr> mq := a, mpc := b, pst := e \<rparr> = \<lparr> mq = a, mpc = b, claimed = ?vs, ndeq = ?d, pst = e \<rparr>"
    "s \<lparr> mq := a, mpc := b, ndeq := f, pst := e \<rparr> =
      \<lparr> mq = a, mpc = b, claimed = ?vs, ndeq = f, pst = e \<rparr>" for a b c e f
    by (cases s; simp)+
  from st show ?thesis
  proof cases
    case (enq_seq i v pos)
    with th [of i] enq_seq_inv [OF sh E] show ?thesis by (auto intro!: minv_local [OF inv])
  next
    case (deq_seq i pos)
    with th [of i] deq_seq_inv [OF sh E d] show ?thesis by (auto intro!: minv_local [OF inv])
  next
    case (enq_cas i v pos)
    have pos: "pos = of_nat (length ?vs)" using enq_cas(3) S(5) by simp
    have "length ?vs < n \<or> ?st (length ?vs - n) = Done" using th [of i] enq_cas(2) pos uE by simp
    note C = enq_cas_shared [OF sh this, where v = v and i = i]
    show ?thesis unfolding enq_cas(1) ext(1)
      by (rule minv_step_other [OF inv]) (use C pos uE in \<open>simp_all add: nth_append\<close>)
  next
    case (enq_data i v pos)
    have w: "?st (unat pos) = Writing i" "v = ?vs ! unat pos" using th [of i] enq_data(2) by simp_all
    note C = enq_data_shared [OF sh w(1), folded w(2)]
    show ?thesis unfolding enq_data(1) ext(2)
      by (rule minv_step_other [OF inv]) (use C w in \<open>simp_all add: S(12)\<close>)
  next
    case (enq_pub i v pos)
    have w: "?st (unat pos) = Writing i" "data (buffer ?q ! (unat pos mod n)) = ?vs ! unat pos"
      using th [of i] enq_pub(2) by simp_all
    note C = enq_pub_shared [OF sh w]
    show ?thesis unfolding enq_pub(1) ext(3)
      by (rule minv_step_other [OF inv]) (use C in \<open>simp_all add: S(12)\<close>)
  next
    case (deq_cas i pos)
    have pos: "pos = of_nat ?d" using deq_cas(3) S(6) by simp
    have "settled (?st ?d)" using th [of i] deq_cas(2) pos uE by simp
    note C = deq_cas_shared [OF sh this, where i = i]
    show ?thesis unfolding deq_cas(1) ext(4)
      by (rule minv_step_other [OF inv]) (use C pos uE in simp_all)
  next
    case (deq_data i pos)
    have "?st (unat pos) = Reading i" using th [of i] deq_data(2) by simp
    moreover from this have "data (cell_at ?q pos) = ?vs ! unat pos"
      using S(11) [of "unat pos"] by (simp add: cell_at_def S(12) settled_def)
    ultimately show ?thesis unfolding deq_data(1) by (intro minv_local [OF inv]) simp
  next
    case (deq_pub i pos v)
    have w: "?st (unat pos) = Reading i" using th [of i] deq_pub(2) by simp
    note C = deq_pub_shared [OF sh w]
    have e: "pos + buffer_mask ?q + 1 = of_nat (unat pos + n)" by (simp add: S(4))
    show ?thesis unfolding deq_pub(1) ext(3) e S(12)
      by (rule minv_step_other [OF inv C]) simp
  next
    case (enq_retry i v pos)
    with th [of i] show ?thesis by (auto intro!: minv_local [OF inv])
  next
    case (deq_retry i pos)
    with th [of i] show ?thesis by (auto intro!: minv_local [OF inv])
  qed (use uE S(5,6) in \<open>auto intro!: minv_local [OF inv]\<close>)
qed

lemma minv_init: "minit n s \<Longrightarrow> minv n s"
  unfolding minit_def minv_def shared_inv_def mpmc_rep_at_def cur_def settled_def
  by (auto simp: not_le)

lemma claimed_grows: "mstep s s' \<Longrightarrow> length (claimed s) \<le> length (claimed s')"
  by (erule mstep.cases) simp_all

lemma reachable_minv:
  "reachable (minit n) mstep s \<Longrightarrow> length (claimed s) < 2 ^ 62 \<Longrightarrow> minv n s"
proof (induction rule: reachable.induct)
  case (start s)
  then show ?case by (simp add: minv_init)
next
  case (move s s')
  have "length (claimed s) < 2 ^ 62" using claimed_grows [OF move(2)] move(4) by linarith
  with move minv_step show ?case by blast
qed

subsection \<open>Creating the queue\<close>

lemma power_of_two: "2 \<le> x \<Longrightarrow> x AND (x - 1) = 0 \<Longrightarrow> \<exists>m. x = 2 ^ m \<and> 1 \<le> m"
  for x :: nat
proof (induction x rule: less_induct)
  case (less x)
  have rec: "x AND (x - 1) = of_bool (odd x \<and> odd (x - 1)) + 2 * ((x div 2) AND ((x - 1) div 2))"
    by (rule and_rec)
  show ?case
  proof (cases "even x")
    case False
    then have "(x - 1) div 2 = x div 2" by (metis diff_Suc_1 odd_two_times_div_two_nat nonzero_mult_div_cancel_left
          zero_neq_numeral)
    with rec less.prems have "x div 2 = 0" by simp
    with less.prems show ?thesis by simp
  next
    case True
    then obtain y where y: "x = 2 * y" by (rule evenE)
    have "(x - 1) div 2 = y - 1" using y less.prems(1) by (cases y) simp_all
    then have "y AND (y - 1) = 0" using rec less.prems(2) y by simp
    show ?thesis
    proof (cases "y = 1")
      case True
      then show ?thesis using y by (intro exI [of _ 1]) simp
    next
      case False
      then obtain m where "y = 2 ^ m" using less.IH [of y] y less.prems(1) \<open>y AND (y - 1) = 0\<close> by auto
      then show ?thesis using y by (intro exI [of _ "Suc m"]) simp
    qed
  qed
qed

lemma newmpmcq_rep:
  assumes "newmpmcq cells bytes = Some q"
  shows "mpmc_rep_at 0 q (unat (bytes div 16)) []"
proof -
  let ?b = "bytes div 16"
  have b: "2 \<le> ?b" "?b AND (?b - 1) = 0" and q: "q = \<lparr> buffer = map (\<lambda>i. (cells ! i) \<lparr> seq := of_nat i \<rparr>) [0..<unat ?b],
      buffer_mask = ?b - 1, enqueue_pos = 0, dequeue_pos = 0 \<rparr>"
    using assms by (auto simp: newmpmcq_def Let_def split: if_splits)
  have 2: "2 \<le> unat ?b" using b(1) by (simp add: word_le_nat_alt)
  then have "unat (?b - 1) = unat ?b - 1" by (subst unat_sub_small) (simp_all add: word_le_nat_alt)
  then have "unat ?b AND (unat ?b - 1) = 0" using arg_cong [OF b(2), of unat] by (simp add: unsigned_and_eq)
  then obtain m where m: "unat ?b = 2 ^ m" "1 \<le> m" using power_of_two [OF 2] by blast
  have "unat ?b < 2 ^ 60" using unat_lt64 [of bytes] by (simp add: unat_div)
  then have "(2::nat) ^ m < 2 ^ 60" using m(1) by simp
  then have "m < 60" by (simp only: power_strict_increasing_iff)
  with m have "ring_size (unat ?b)" by (auto simp: ring_size_def)
  then show ?thesis using 2 by (simp add: mpmc_rep_at_def q)
qed

section \<open>Properties\<close>

text \<open>
  C21: run by one thread, a new queue of \<open>n\<close> cells is a bounded first-in first-out queue: any \<open>n\<close> or
  fewer values are all accepted, come out in the order they went in, and leave the queue empty.
\<close>

theorem mpmc_sequential_fifo:
  assumes "newmpmcq cells bytes = Some q" and "length vs \<le> unat (bytes div 16)"
  shows "\<exists>q' q''. mpmc.enq_all vs q = Some (True, q') \<and> mpmc.deq_n (length vs) q' = Some (vs, q'') \<and>
    mpmc_rep q'' (unat (bytes div 16)) []"
  using mpmc.fifo [of q "unat (bytes div 16)" vs] newmpmcq_rep [OF assms(1)] assms(2)
  by (auto simp: mpmc_rep_def)

text \<open>
  C22: the queue refuses exactly when it must: on a queue of \<open>n\<close> cells holding \<open>xs\<close>, an enqueue fails if
  and only if \<open>xs\<close> has length \<open>n\<close>, and a dequeue fails if and only if \<open>xs\<close> is empty; neither loops, also
  after the positions have wrapped at \<open>2 ^ 64\<close>.
\<close>

theorem mpmc_full_empty:
  assumes "mpmc_rep q n xs"
  shows "(\<exists>ok q'. mpmc_enqueue v q = Some (ok, q') \<and> (\<not> ok \<longleftrightarrow> length xs = n)
      \<and> mpmc_rep q' n (if ok then xs @ [v] else xs))
    \<and> (\<exists>r q'. mpmc_dequeue q = Some (r, q') \<and> (r = None \<longleftrightarrow> xs = [])
      \<and> mpmc_rep q' n (if r = None then xs else tl xs))"
proof
  show "\<exists>ok q'. mpmc_enqueue v q = Some (ok, q') \<and> (\<not> ok \<longleftrightarrow> length xs = n)
      \<and> mpmc_rep q' n (if ok then xs @ [v] else xs)"
    using mpmc.enq_full [OF assms, of v] mpmc.enq_room [OF assms, of v] mpmc.capacity [OF assms] assms
    by (cases "length xs = n") auto
  show "\<exists>r q'. mpmc_dequeue q = Some (r, q') \<and> (r = None \<longleftrightarrow> xs = [])
      \<and> mpmc_rep q' n (if r = None then xs else tl xs)"
  proof (cases xs)
    case Nil
    with mpmc.deq_empty [of q n] assms show ?thesis by auto
  next
    case (Cons x ys)
    with mpmc.deq_some [of q n x ys] assms show ?thesis by auto
  qed
qed

text \<open>
  C5: with any number of threads interleaving the atomic accesses of \<open>mpmc_enqueue\<close> and \<open>mpmc_dequeue\<close>,
  spurious failures of the compare-and-swap included, a thread that has claimed dequeue position \<open>k\<close>
  returns the value of the \<open>k\<close>-th claimed enqueue, no two threads return the same position, and the
  number of values in flight never exceeds the number of cells (for up to \<open>2 ^ 62\<close> enqueues).
\<close>

theorem mpmc_concurrent_fifo:
  assumes "reachable (minit n) mstep s" and "length (claimed s) < 2 ^ 62"
  shows "ndeq s \<le> length (claimed s) \<and> length (claimed s) \<le> ndeq s + n \<and>
    (\<forall>i pos v. mpc s i = DeqPub pos v \<longrightarrow> unat pos < ndeq s \<and> v = claimed s ! unat pos \<and>
      (\<forall>j w. mpc s j = DeqPub pos w \<longrightarrow> j = i))"
proof -
  have inv: "minv n s" by (rule reachable_minv [OF assms])
  then have sh: "shared_inv n (mq s) (claimed s) (ndeq s) (pst s)"
    and th: "\<And>i. thread_inv n (mq s) (claimed s) (ndeq s) (pst s) i (mpc s i)" by (simp_all add: minv_def)
  have "unat pos < ndeq s \<and> v = claimed s ! unat pos \<and> (\<forall>j w. mpc s j = DeqPub pos w \<longrightarrow> j = i)"
    if i: "mpc s i = DeqPub pos v" for i pos v
  proof -
    have "pst s (unat pos) = Reading i" "v = claimed s ! unat pos" using th [of i] i by simp_all
    moreover have "j = i" if "mpc s j = DeqPub pos w" for j w
      using th [of j] that calculation(1) by simp
    ultimately show ?thesis using shared_invD(8) [OF sh, of "unat pos"] by blast
  qed
  with ndeq_le [OF sh] show ?thesis by blast
qed

section \<open>A concrete queue\<close>

definition sample_queue :: mpmcq where
  "sample_queue = \<lparr> buffer = [\<lparr> seq = 0, data = 0 \<rparr>, \<lparr> seq = 1, data = 0 \<rparr>], buffer_mask = 1,
     enqueue_pos = 0, dequeue_pos = 0 \<rparr>"

lemma sample_queue_new: "newmpmcq (replicate 2 \<lparr> seq = 0, data = 0 \<rparr>) 32 = Some sample_queue"
  by code_simp

theorem mpmc_sequential_fifo_witness:
  "\<exists>q' q''. mpmc.enq_all [7, 8] sample_queue = Some (True, q')
     \<and> mpmc.deq_n (length [7, 8 :: u64]) q' = Some ([7, 8], q'')"
proof -
  have "length [7, 8 :: u64] \<le> unat (32 div 16 :: u64)" by simp
  from mpmc_sequential_fifo [OF sample_queue_new this] show ?thesis by blast
qed

theorem mpmc_full_empty_witness:
  "\<exists>q'. mpmc_dequeue sample_queue = Some (None, q')"
proof -
  have "mpmc_rep sample_queue 2 []" using newmpmcq_rep [OF sample_queue_new] by (auto simp: mpmc_rep_def)
  from mpmc_full_empty [OF this, of 7] show ?thesis by auto
qed

theorem mpmc_concurrent_fifo_witness:
  "\<exists>s. reachable (minit 2) mstep s \<and> mpc s 3 = EnqLoad 7 \<and> length (claimed s) \<le> ndeq s + 2"
proof -
  let ?s = "\<lparr> mq = sample_queue, mpc = (\<lambda>_. QIdle), claimed = [], ndeq = 0, pst = (\<lambda>_. Unclaimed) \<rparr>"
  have "mpmc_rep_at 0 sample_queue 2 []" using newmpmcq_rep [OF sample_queue_new] by simp
  then have "reachable (minit 2) mstep ?s" by (intro reachable.start) (simp add: minit_def)
  from reachable.move [OF this mstep.enq_call [of ?s 3 7]]
  have r: "reachable (minit 2) mstep (?s \<lparr> mpc := (mpc ?s)(3 := EnqLoad 7) \<rparr>)" by simp
  from mpmc_concurrent_fifo [OF r] r show ?thesis by (intro exI [of _ "?s \<lparr> mpc := (mpc ?s)(3 := EnqLoad 7) \<rparr>"]) simp
qed

end
