(* ===== verification/Futex.thy ===== *)
theory Futex
  imports Prelude
begin

text \<open>
  The futex implementation of \<^verbatim>\<open>src/src/sched/futex.c\<close>. Every sleeping thread has one entry in the
  global list \<open>futex_queues\<close> (the \<^verbatim>\<open>struct futex_q\<close> embedded in its \<^verbatim>\<open>struct lthread\<close>, so an entry is
  identified by its thread); waking moves the thread to the scheduler's run queue, here the list
  \<open>run_queue\<close> of the threads handed to \<^verbatim>\<open>__scheduler_enqueue\<close>. Threads are numbers, addresses 64-bit
  words, \<open>umem\<close> the integers in user memory. A wait has two halves, up to the point where the thread
  yields and from its wake-up on. The clock value read from \<^verbatim>\<open>enclave_nanos\<close> (in microseconds) and a
  timeout converted by \<^verbatim>\<open>_lthread_timespec_to_usec\<close> are arguments. \<open>None\<close> stands for an operation
  that spins on the lock forever.
\<close>

record futex_q =
  futex_key :: u32
  futex_deadline :: u64
  futex_lt :: nat

record futex_state =
  futex_queues :: "futex_q list"
  futex_sleepers :: int
  futex_locked :: bool
  umem :: "u64 \<Rightarrow> u32"
  lt_err :: "nat \<Rightarrow> int"
  run_queue :: "nat list"

abbreviation (input) FUTEX_NONE :: int where "FUTEX_NONE \<equiv> 0"
abbreviation (input) FUTEX_EXPIRED :: int where "FUTEX_EXPIRED \<equiv> 1"

section \<open>Operations\<close>

definition to_futex_key :: "u64 \<Rightarrow> u32" where
  "to_futex_key uaddr = ucast uaddr"

definition futex_init :: "futex_state \<Rightarrow> futex_state" where
  "futex_init s = s \<lparr> futex_queues := [] \<rparr>"

definition futex_lock :: "futex_state \<Rightarrow> futex_state option" where
  "futex_lock s = (if futex_locked s then None else Some (s \<lparr> futex_locked := True \<rparr>))"

definition futex_unlock :: "futex_state \<Rightarrow> futex_state" where
  "futex_unlock s = s \<lparr> futex_locked := False \<rparr>"

text \<open>Unlinking an entry and counting one sleeper less.\<close>

definition unlink :: "futex_q \<Rightarrow> futex_state \<Rightarrow> futex_state" where
  "unlink fq s = s \<lparr> futex_sleepers := futex_sleepers s - 1, futex_queues := remove1 fq (futex_queues s) \<rparr>"

text \<open>The common body of \<open>futex_tick\<close> and \<open>futex_wake\<close>: unlink, set the reason, make runnable.\<close>

definition wake_one :: "int \<Rightarrow> futex_q \<Rightarrow> futex_state \<Rightarrow> futex_state" where
  "wake_one reason fq s =
     (let s1 = unlink fq s
      in s1 \<lparr> lt_err := (lt_err s1)(futex_lt fq := reason), run_queue := run_queue s1 @ [futex_lt fq] \<rparr>)"

definition futex_dequeue :: "nat \<Rightarrow> futex_state \<Rightarrow> futex_state option" where
  "futex_dequeue lt s =
     do {
       s1 \<leftarrow> futex_lock s;
       Some (futex_unlock
         (case find (\<lambda>fq. futex_lt fq = lt) (futex_queues s1) of
            None \<Rightarrow> s1 | Some fq \<Rightarrow> unlink fq s1)) }"

fun futex_tick_loop :: "u64 \<Rightarrow> futex_q list \<Rightarrow> futex_state \<Rightarrow> futex_state" where
  "futex_tick_loop usecs [] s = s"
| "futex_tick_loop usecs (fq # fqs) s =
     (if futex_deadline fq \<noteq> 0 \<and> futex_deadline fq < usecs
      then futex_tick_loop usecs fqs (wake_one FUTEX_EXPIRED fq s)
      else futex_tick_loop usecs fqs s)"

text \<open>The tick only tries the lock, and gives up when it is held.\<close>

definition futex_tick :: "u64 \<Rightarrow> futex_state \<Rightarrow> futex_state" where
  "futex_tick usecs s =
     (if futex_sleepers s = 0 then s
      else case futex_lock s of
        None \<Rightarrow> s
      | Some s1 \<Rightarrow> futex_unlock (futex_tick_loop usecs (futex_queues s1) s1))"

definition futex_wait_new :: "nat \<Rightarrow> u32 \<Rightarrow> futex_state \<Rightarrow> futex_q \<times> futex_state" where
  "futex_wait_new self key s =
     (let fq = \<lparr> futex_key = key, futex_deadline = 0, futex_lt = self \<rparr>
      in (fq, s \<lparr> futex_queues := fq # futex_queues s \<rparr>))"

text \<open>
  \<open>__do_futex_sleep\<close> up to the yield, which also unlocks. The entry is at the head of the list, where
  \<open>futex_wait_new\<close> put it, and gets its deadline there.
\<close>

definition futex_sleep :: "futex_q \<Rightarrow> u64 option \<Rightarrow> u64 \<Rightarrow> futex_state \<Rightarrow> futex_state" where
  "futex_sleep fq ts now s =
     (let s1 = s \<lparr> futex_sleepers := futex_sleepers s + 1 \<rparr>;
          s2 = (case ts of
                  None \<Rightarrow> s1
                | Some usecs \<Rightarrow> s1 \<lparr> futex_queues :=
                    map (\<lambda>e. if e = fq then e \<lparr> futex_deadline := now + usecs \<rparr> else e) (futex_queues s1) \<rparr>)
      in futex_unlock s2)"

text \<open>After the wake-up.\<close>

definition futex_woken :: "nat \<Rightarrow> futex_state \<Rightarrow> int" where
  "futex_woken self s = (if lt_err s self = FUTEX_EXPIRED then - ETIMEDOUT else 0)"

text \<open>
  \<open>enclave_futex_timedwait\<close> up to the point where the thread sleeps (\<open>Inr\<close>) or returns an error with
  the lock released (\<open>Inl\<close>); \<open>futex_woken\<close> is what it returns after the sleep.
\<close>

definition enclave_futex_timedwait ::
    "nat \<Rightarrow> u64 \<Rightarrow> u32 \<Rightarrow> u64 option \<Rightarrow> u64 \<Rightarrow> futex_state \<Rightarrow> (int \<times> futex_state + futex_state) option" where
  "enclave_futex_timedwait self uaddr val ts now s =
     do {
       s1 \<leftarrow> futex_lock s;
       Some (if umem s1 uaddr = val
             then let (fq, s2) = futex_wait_new self (to_futex_key uaddr) s1
                  in Inr (futex_sleep fq ts now s2)
             else Inl (- EAGAIN, futex_unlock s1)) }"

definition enclave_futex_wait ::
    "nat \<Rightarrow> u64 \<Rightarrow> u32 \<Rightarrow> u64 \<Rightarrow> futex_state \<Rightarrow> (int \<times> futex_state + futex_state) option" where
  "enclave_futex_wait self uaddr val now s = enclave_futex_timedwait self uaddr val None now s"

fun futex_wake_loop :: "u32 \<Rightarrow> u32 \<Rightarrow> u32 \<Rightarrow> futex_q list \<Rightarrow> futex_state \<Rightarrow> u32 \<times> futex_state" where
  "futex_wake_loop key num w [] s = (w, s)"
| "futex_wake_loop key num w (fq # fqs) s =
     (if futex_key fq = key \<and> w < num
      then futex_wake_loop key num (w + 1) fqs (wake_one FUTEX_NONE fq s)
      else futex_wake_loop key num w fqs s)"

definition futex_wake :: "u64 \<Rightarrow> u32 \<Rightarrow> futex_state \<Rightarrow> u32 \<times> futex_state" where
  "futex_wake uaddr num s = futex_wake_loop (to_futex_key uaddr) num 0 (futex_queues s) s"

definition enclave_futex_wake :: "u64 \<Rightarrow> u32 \<Rightarrow> futex_state \<Rightarrow> (u32 \<times> futex_state) option" where
  "enclave_futex_wake uaddr val s =
     do {
       s1 \<leftarrow> futex_lock s;
       let (w, s2) = futex_wake uaddr val s1;
       Some (w, futex_unlock s2) }"

section \<open>Waking a list of entries\<close>

lemma wake_one_fields [sched_simps]:
  "futex_queues (wake_one r fq s) = remove1 fq (futex_queues s)"
  "futex_sleepers (wake_one r fq s) = futex_sleepers s - 1"
  "futex_locked (wake_one r fq s) = futex_locked s"
  "umem (wake_one r fq s) = umem s"
  "lt_err (wake_one r fq s) = (lt_err s)(futex_lt fq := r)"
  "run_queue (wake_one r fq s) = run_queue s @ [futex_lt fq]"
  by (simp_all add: wake_one_def unlink_def Let_def)

definition wake_all :: "int \<Rightarrow> futex_q list \<Rightarrow> futex_state \<Rightarrow> futex_state" where
  "wake_all r fqs s = fold (wake_one r) fqs s"

lemma wake_all_Cons [simp]: "wake_all r (fq # fqs) s = wake_all r fqs (wake_one r fq s)"
  and wake_all_Nil [simp]: "wake_all r [] s = s"
  by (simp_all add: wake_all_def)

lemma wake_all_queues [sched_simps]:
  "distinct (futex_queues s) \<Longrightarrow>
     futex_queues (wake_all r fqs s) = filter (\<lambda>e. e \<notin> set fqs) (futex_queues s)"
proof (induction fqs arbitrary: s)
  case (Cons fq fqs)
  then have "futex_queues (wake_all r (fq # fqs) s) = filter (\<lambda>e. e \<notin> set fqs) (remove1 fq (futex_queues s))"
    by (simp add: sched_simps)
  also have "\<dots> = filter (\<lambda>e. e \<notin> set (fq # fqs)) (futex_queues s)"
    using Cons.prems by (auto simp: distinct_remove1_removeAll removeAll_filter_not_eq intro: filter_cong)
  finally show ?case .
qed simp

lemma wake_all_fields [sched_simps]:
  "futex_sleepers (wake_all r fqs s) = futex_sleepers s - int (length fqs)"
  "futex_locked (wake_all r fqs s) = futex_locked s"
  "umem (wake_all r fqs s) = umem s"
  "run_queue (wake_all r fqs s) = run_queue s @ map futex_lt fqs"
  by (induction fqs arbitrary: s) (simp_all add: sched_simps)

lemma wake_all_err [sched_simps]:
  "lt_err (wake_all r fqs s) t = (if t \<in> futex_lt ` set fqs then r else lt_err s t)"
  by (induction fqs arbitrary: s) (auto simp: sched_simps)

text \<open>The two loops wake the entries they select, in list order.\<close>

lemma futex_tick_loop_wakes:
  "futex_tick_loop usecs fqs s =
     wake_all FUTEX_EXPIRED (filter (\<lambda>e. futex_deadline e \<noteq> 0 \<and> futex_deadline e < usecs) fqs) s"
  by (induction fqs arbitrary: s) simp_all

definition chosen :: "u32 \<Rightarrow> nat \<Rightarrow> futex_q list \<Rightarrow> futex_q list" where
  "chosen key m fqs = take m (filter (\<lambda>e. futex_key e = key) fqs)"

lemma futex_wake_loop_wakes:
  "w \<le> num \<Longrightarrow> futex_wake_loop key num w fqs s =
     (w + of_nat (length (chosen key (unat num - unat w) fqs)),
      wake_all FUTEX_NONE (chosen key (unat num - unat w) fqs) s)"
  unfolding chosen_def
proof (induction fqs arbitrary: w s)
  case (Cons fq fqs)
  show ?case
  proof (cases "futex_key fq = key \<and> w < num")
    case True
    then have lt: "unat w < unat num" by (simp add: word_less_nat_alt)
    have "unat num < 2 ^ 32" by (rule order_less_le_trans [OF unsigned_less]) simp
    with lt have w1: "unat (w + 1) = unat w + 1" by (subst unat_add_small) simp_all
    then have "w + 1 \<le> num" using lt by (simp add: word_le_nat_alt)
    moreover have "unat num - unat w = Suc (unat num - unat (w + 1))" using lt w1 by simp
    ultimately show ?thesis using True Cons.IH [of "w + 1"] by (simp add: ac_simps)
  next
    case False
    then show ?thesis using Cons by (auto simp: word_less_nat_alt word_le_nat_alt)
  qed
qed simp

section \<open>The invariant\<close>

text \<open>
  Between operations the lock is free, no thread sleeps twice, \<open>futex_sleepers\<close> is the number of
  entries (so that the tick's early exit never misses one), and no sleeping thread is runnable.
\<close>

definition futex_inv :: "futex_state \<Rightarrow> bool" where
  "futex_inv s \<longleftrightarrow>
     \<not> futex_locked s \<and> distinct (map futex_lt (futex_queues s)) \<and>
     futex_sleepers s = int (length (futex_queues s)) \<and>
     futex_lt ` set (futex_queues s) \<inter> set (run_queue s) = {}"

lemma wake_all_inv:
  assumes inv: "futex_inv s" and sub: "set fqs \<subseteq> set (futex_queues s)" and d: "distinct fqs"
  shows "futex_inv (wake_all r fqs s)"
proof -
  note I = inv [unfolded futex_inv_def]
  have dq: "distinct (futex_queues s)" using I by (simp add: distinct_map)
  have "length (filter (\<lambda>e. e \<notin> set fqs) (futex_queues s)) + length fqs = length (futex_queues s)"
  proof -
    have "set (filter (\<lambda>e. e \<in> set fqs) (futex_queues s)) = set fqs" using sub by auto
    then have "length fqs = length (filter (\<lambda>e. e \<in> set fqs) (futex_queues s))"
      using distinct_card [OF d] distinct_card [OF distinct_filter [OF dq, of "\<lambda>e. e \<in> set fqs"]] by simp
    then show ?thesis using sum_length_filter_compl [of "\<lambda>e. e \<in> set fqs" "futex_queues s"] by simp
  qed
  moreover have "futex_lt ` set (filter (\<lambda>e. e \<notin> set fqs) (futex_queues s)) \<inter> set (run_queue s @ map futex_lt fqs) = {}"
    using I sub by (auto simp: distinct_map dest: inj_onD)
  ultimately show ?thesis
    using I dq by (simp add: futex_inv_def sched_simps distinct_map_filter)
qed

lemma inv_lock: "futex_inv s \<Longrightarrow> futex_lock s = Some (s \<lparr> futex_locked := True \<rparr>)"
  by (simp add: futex_inv_def futex_lock_def)

lemma unlock_wake_all:
  "futex_unlock (wake_all r fqs (s \<lparr> futex_locked := True \<rparr>)) = (wake_all r fqs s) \<lparr> futex_locked := False \<rparr>"
  unfolding futex_unlock_def
proof (induction fqs arbitrary: s)
  case (Cons fq fqs)
  have "wake_one r fq (s \<lparr> futex_locked := True \<rparr>) = (wake_one r fq s) \<lparr> futex_locked := True \<rparr>"
    by (simp add: wake_one_def unlink_def Let_def)
  with Cons [of "wake_one r fq s"] show ?case by simp
qed simp

lemma unlocked_same: "\<not> futex_locked s \<Longrightarrow> s \<lparr> futex_locked := False \<rparr> = s"
  by (cases s) simp

lemma inv_wake_all_unlocked:
  "futex_inv s \<Longrightarrow> futex_unlock (wake_all r fqs (s \<lparr> futex_locked := True \<rparr>)) = wake_all r fqs s"
  by (simp add: unlock_wake_all) (rule unlocked_same, simp add: sched_simps futex_inv_def)

lemma enclave_futex_wake_result:
  fixes uaddr :: u64 and num :: u32
  assumes "futex_inv s"
  defines "ws \<equiv> chosen (to_futex_key uaddr) (unat num) (futex_queues s)"
  shows "enclave_futex_wake uaddr num s = Some (of_nat (length ws), wake_all FUTEX_NONE ws s)"
  using assms(1) inv_wake_all_unlocked [OF assms(1), of 0 ws]
  by (simp add: enclave_futex_wake_def inv_lock futex_wake_def futex_wake_loop_wakes ws_def)

lemma futex_tick_result:
  assumes "futex_inv s"
  shows "futex_tick usecs s =
    wake_all FUTEX_EXPIRED (filter (\<lambda>e. futex_deadline e \<noteq> 0 \<and> futex_deadline e < usecs) (futex_queues s)) s"
proof (cases "futex_queues s")
  case Nil
  then show ?thesis using assms by (simp add: futex_tick_def futex_inv_def)
next
  case (Cons fq fqs)
  then have "futex_sleepers s \<noteq> 0" using assms by (simp add: futex_inv_def)
  with assms inv_wake_all_unlocked [OF assms] show ?thesis
    by (simp add: futex_tick_def inv_lock futex_tick_loop_wakes)
qed

lemma chosen_sub:
  assumes "distinct fqs"
  shows "set (chosen key m fqs) \<subseteq> set fqs" and "distinct (chosen key m fqs)"
  using assms set_take_subset [of m "filter (\<lambda>e. futex_key e = key) fqs"] by (auto simp: chosen_def)

lemma inv_distinct: "futex_inv s \<Longrightarrow> distinct (futex_queues s)"
  by (simp add: futex_inv_def distinct_map)

lemma futex_wait_inv:
  fixes ts :: "u64 option" and now :: u64
  assumes inv: "futex_inv s" and new: "self \<notin> futex_lt ` set (futex_queues s)" and run: "self \<notin> set (run_queue s)"
    and val: "umem s uaddr = val"
  defines "fq \<equiv> \<lparr> futex_key = to_futex_key uaddr,
      futex_deadline = (case ts of None \<Rightarrow> 0 | Some usecs \<Rightarrow> now + usecs), futex_lt = self \<rparr>"
  defines "s' \<equiv> s \<lparr> futex_queues := fq # futex_queues s, futex_sleepers := futex_sleepers s + 1 \<rparr>"
  shows "enclave_futex_timedwait self uaddr val ts now s = Some (Inr s')" and "futex_inv s'"
proof -
  let ?fq0 = "\<lparr> futex_key = to_futex_key uaddr, futex_deadline = 0, futex_lt = self \<rparr>"
  have "?fq0 \<notin> set (futex_queues s)" using new by force
  then have "map (\<lambda>e. if e = ?fq0 then e \<lparr> futex_deadline := d \<rparr> else e) (futex_queues s) = futex_queues s" for d
    by (auto intro: map_idI)
  then show "enclave_futex_timedwait self uaddr val ts now s = Some (Inr s')"
    using inv val unlocked_same [of s']
    by (cases ts) (auto simp: enclave_futex_timedwait_def inv_lock futex_wait_new_def futex_sleep_def Let_def
        futex_unlock_def s'_def fq_def futex_inv_def)
  show "futex_inv s'" using inv new run by (auto simp: futex_inv_def s'_def fq_def)
qed

section \<open>Properties\<close>


text \<open>
  C18: a scheduler tick wakes exactly the sleepers whose deadline has passed, and each of them returns
  \<open>-ETIMEDOUT\<close> from its wait; sleepers without a timeout are never woken by a tick.
\<close>

theorem futex_tick_exact:
  assumes "futex_inv s"
  shows "futex_queues (futex_tick now s) =
      filter (\<lambda>e. \<not> (futex_deadline e \<noteq> 0 \<and> futex_deadline e < now)) (futex_queues s)
    \<and> (\<forall>e \<in> set (futex_queues s). futex_deadline e \<noteq> 0 \<and> futex_deadline e < now \<longrightarrow>
        futex_lt e \<in> set (run_queue (futex_tick now s)) \<and> futex_woken (futex_lt e) (futex_tick now s) = - 110)
    \<and> futex_inv (futex_tick now s)"
proof -
  let ?ws = "filter (\<lambda>e. futex_deadline e \<noteq> 0 \<and> futex_deadline e < now) (futex_queues s)"
  have "futex_inv (wake_all 1 ?ws s)"
    using inv_distinct [OF assms] by (intro wake_all_inv [OF assms]) auto
  then show ?thesis
    using inv_distinct [OF assms]
    by (auto simp: futex_tick_result [OF assms] sched_simps futex_woken_def intro: filter_cong)
qed


text \<open>
  C35: the futex key is the low half of the address, so addresses that agree there share their waiters:
  when a thread waits on one such address, a wake of one thread on another wakes that thread, and leaves
  every thread that was already waiting (also those on the address that was signalled) asleep.
\<close>

theorem futex_key_collision:
  assumes "futex_inv s" and "A \<notin> futex_lt ` set (futex_queues s)" and "A \<notin> set (run_queue s)"
    and "umem s a = val" and "unat a mod 2 ^ 32 = unat b mod 2 ^ 32"
  shows "\<exists>s' s''. enclave_futex_wait A a val now s = Some (Inr s') \<and>
    enclave_futex_wake b 1 s' = Some (1, s'') \<and>
    run_queue s'' = run_queue s @ [A] \<and> futex_queues s'' = futex_queues s"
proof -
  have key: "to_futex_key b = to_futex_key a"
    using assms(5) by (simp add: to_futex_key_def word_eq_unat unsigned_ucast_eq take_bit_eq_mod)
  let ?fq = "\<lparr> futex_key = to_futex_key a, futex_deadline = 0, futex_lt = A \<rparr>"
  note W = futex_wait_inv [OF assms(1-4), where ts = None]
  have "?fq \<notin> set (futex_queues s)" using assms(2) by force
  then have "filter (\<lambda>e. e \<noteq> ?fq) (futex_queues s) = futex_queues s"
    by (auto simp: filter_id_conv)
  then show ?thesis
    using W enclave_futex_wake_result [OF W(2), of b 1] inv_distinct [OF W(2)]
    by (auto simp: enclave_futex_wait_def key chosen_def sched_simps)
qed

section \<open>Witnesses\<close>

definition two_sleepers :: futex_state where
  "two_sleepers = \<lparr> futex_queues = [\<lparr> futex_key = 16, futex_deadline = 50, futex_lt = 1 \<rparr>,
                                   \<lparr> futex_key = 16, futex_deadline = 0, futex_lt = 2 \<rparr>],
     futex_sleepers = 2, futex_locked = False, umem = (\<lambda>_. 7), lt_err = (\<lambda>_. 0), run_queue = [3] \<rparr>"

lemma two_sleepers_inv: "futex_inv two_sleepers"
  by (simp add: futex_inv_def two_sleepers_def)


theorem futex_tick_exact_witness:
  "futex_inv two_sleepers \<and> map futex_lt (futex_queues (futex_tick 60 two_sleepers)) = [2] \<and>
   futex_woken 1 (futex_tick 60 two_sleepers) = - 110"
  using futex_tick_exact [OF two_sleepers_inv, of 60] two_sleepers_inv
  by (simp add: two_sleepers_def)


theorem futex_key_collision_witness:
  "(16 :: u64) \<noteq> 0x100000010 \<and> (\<exists>s' s''. enclave_futex_wait 5 0x100000010 7 10 two_sleepers = Some (Inr s') \<and>
     enclave_futex_wake 16 1 s' = Some (1, s'') \<and> run_queue s'' = [3, 5])"
  using futex_key_collision [OF two_sleepers_inv, of 5 "0x100000010" 7 16 10]
  by (auto simp: two_sleepers_def)

end
