(* ===== verification/Lthread.thy ===== *)
theory Lthread
  imports Enclave_Mem Futex
begin

text \<open>
  The user-level threads of \<^verbatim>\<open>src/src/sched/lthread.c\<close>. Pointers to \<^verbatim>\<open>struct lthread\<close> are numbers,
  0 being \<^verbatim>\<open>NULL\<close>; \<open>threads\<close> maps the allocated ones to their contents, so that an access to freed
  memory is visible as the error \<open>Use_after_free\<close>. The scheduler queue is the \<open>run_queue\<close> of the futex
  state (a first-in first-out list, see the theory \<open>Mpmc_Queue\<close>; it is never full). Each ethread runs
  one scheduler, named by a number, with its own \<^verbatim>\<open>current_lthread\<close> and \<^verbatim>\<open>fs\<close> base register. A context
  switch splits \<^verbatim>\<open>_lthread_resume\<close> into what happens before and after the thread runs. Stacks and TLS
  images come from the memory manager of \<open>Enclave_Mem\<close>; the result of \<^verbatim>\<open>oe_calloc\<close> is an argument
  (\<open>None\<close> when it fails).
\<close>

section \<open>Data\<close>

abbreviation (input) LT_ST_NEW :: nat where "LT_ST_NEW \<equiv> 0"
abbreviation (input) LT_ST_READY :: nat where "LT_ST_READY \<equiv> 1"
abbreviation (input) LT_ST_EXITED :: nat where "LT_ST_EXITED \<equiv> 2"
abbreviation (input) LT_ST_BUSY :: nat where "LT_ST_BUSY \<equiv> 3"
abbreviation (input) LT_ST_SLEEPING :: nat where "LT_ST_SLEEPING \<equiv> 4"
abbreviation (input) LT_ST_EXPIRED :: nat where "LT_ST_EXPIRED \<equiv> 5"
abbreviation (input) LT_ST_DETACH :: nat where "LT_ST_DETACH \<equiv> 6"
abbreviation (input) LT_ST_PINNED :: nat where "LT_ST_PINNED \<equiv> 7"
abbreviation (input) LT_ST_APP_MAIN :: nat where "LT_ST_APP_MAIN \<equiv> 8"
abbreviation (input) LT_ST_TERMINATE :: nat where "LT_ST_TERMINATE \<equiv> 9"

definition BIT :: "nat \<Rightarrow> u32" where
  "BIT n = push_bit n 1"

definition CLEARBIT :: "nat \<Rightarrow> u32" where
  "CLEARBIT n = NOT (push_bit n 1)"

datatype lthread_type = USERSPACE_THREAD | LKL_KERNEL_THREAD

text \<open>The functions that \<^verbatim>\<open>yield_cb\<close> may point to.\<close>

datatype yield_fn = No_cb | Do_futex_unlock | Lthread_desched_ready | Lthread_unlock

record lthread_attr =
  stack_size :: u64
  lt_state :: u32
  lt_stack :: u64
  thread_type :: lthread_type
  funcname :: string

record lthread =
  esp :: u64
  ebp :: u64
  eip :: u64
  lt_fun :: u64
  lt_arg :: u64
  attr :: lthread_attr
  lt_tid :: u32
  lt_join :: nat
  tls :: "(u32 \<times> u64) list"
  itls :: u64
  itlssz :: u64
  tp :: u64
  yield_cb :: yield_fn
  yield_cbarg :: nat

text \<open>What \<^verbatim>\<open>oe_calloc\<close> returns: all fields zero.\<close>

definition lthread_zero :: lthread where
  "lthread_zero = \<lparr> esp = 0, ebp = 0, eip = 0, lt_fun = 0, lt_arg = 0,
     attr = \<lparr> stack_size = 0, lt_state = 0, lt_stack = 0, thread_type = USERSPACE_THREAD, funcname = [] \<rparr>,
     lt_tid = 0, lt_join = 0, tls = [], itls = 0, itlssz = 0, tp = 0, yield_cb = No_cb, yield_cbarg = 0 \<rparr>"

text \<open>
  The scheduler state. \<open>destr_log\<close> records the calls of TLS destructors (function and argument).
\<close>

record lt_world =
  threads :: "nat \<Rightarrow> lthread option"
  fut :: futex_state
  emem :: enclave_mem
  current_lthread :: "nat \<Rightarrow> nat"
  sched_stack_size :: "nat \<Rightarrow> u64"
  sched_tp :: "nat \<Rightarrow> u64"
  fsbase :: "nat \<Rightarrow> u64"
  terminating_scheduler :: "nat option"
  spawned_lthreads :: u32
  cloned :: nat
  lthread_destructors :: "(u32 \<times> u64) list"
  global_count :: u32
  destr_log :: "(u64 \<times> u64) list"

text \<open>
  Why an operation does not return normally: it spins forever, it touches freed memory, an assertion
  fails, or it accesses an address that is not mapped.
\<close>

datatype lt_error = Spins | Use_after_free | Assertion_failed | Bad_access

definition or_spin :: "'a option \<Rightarrow> lt_error + 'a" where
  "or_spin r = (case r of None \<Rightarrow> Inl Spins | Some x \<Rightarrow> Inr x)"

definition deref :: "nat \<Rightarrow> lt_world \<Rightarrow> lt_error + lthread" where
  "deref p w = (case threads w p of None \<Rightarrow> Inl Use_after_free | Some lt \<Rightarrow> Inr lt)"

definition store :: "nat \<Rightarrow> lthread \<Rightarrow> lt_world \<Rightarrow> lt_world" where
  "store p lt w = w \<lparr> threads := (threads w)(p \<mapsto> lt) \<rparr>"

definition set_state :: "u32 \<Rightarrow> lthread \<Rightarrow> lthread" where
  "set_state st lt = lt \<lparr> attr := (attr lt) \<lparr> lt_state := st \<rparr> \<rparr>"

definition state_of :: "lthread \<Rightarrow> u32" where
  "state_of lt = lt_state (attr lt)"

definition flag :: "lthread \<Rightarrow> nat \<Rightarrow> bool" where
  "flag lt n \<longleftrightarrow> state_of lt AND BIT n \<noteq> 0"

definition raise :: "nat \<Rightarrow> lthread \<Rightarrow> lthread" where
  "raise n lt = set_state (state_of lt OR BIT n) lt"

definition clear :: "nat \<Rightarrow> lthread \<Rightarrow> lthread" where
  "clear n lt = set_state (state_of lt AND CLEARBIT n) lt"

text \<open>\<^verbatim>\<open>__scheduler_enqueue\<close>, with its trap for exited threads.\<close>

definition scheduler_enqueue :: "nat \<Rightarrow> lt_world \<Rightarrow> lt_error + lt_world" where
  "scheduler_enqueue p w = andThen (deref p w) (\<lambda>lt.
     if flag lt LT_ST_EXITED then Inl Assertion_failed
     else Inr (w \<lparr> fut := (fut w) \<lparr> run_queue := run_queue (fut w) @ [p] \<rparr> \<rparr>))"

section \<open>Thread state\<close>

definition lthread_desched_sleep :: "nat \<Rightarrow> lt_world \<Rightarrow> lt_error + lt_world" where
  "lthread_desched_sleep p w = andThen (deref p w) (\<lambda>lt. Inr (
     if flag lt LT_ST_SLEEPING
     then store p (raise LT_ST_READY (clear LT_ST_EXPIRED (clear LT_ST_SLEEPING lt))) w
     else w))"

text \<open>The compare-and-swap loops spin while another thread holds the lock bit.\<close>

definition lthread_lock :: "nat \<Rightarrow> lt_world \<Rightarrow> lt_error + lt_world" where
  "lthread_lock p w = andThen (deref p w) (\<lambda>lt.
     if flag lt LT_ST_BUSY then Inl Spins else Inr (store p (raise LT_ST_BUSY lt) w))"

definition lthread_unlock :: "nat \<Rightarrow> lt_world \<Rightarrow> lt_error + lt_world" where
  "lthread_unlock p w = andThen (deref p w) (\<lambda>lt.
     if flag lt LT_ST_BUSY then Inr (store p (clear LT_ST_BUSY lt) w) else Inl Assertion_failed)"

definition lthread_detach2 :: "nat \<Rightarrow> lt_world \<Rightarrow> lt_error + lt_world" where
  "lthread_detach2 p w = andThen (deref p w) (\<lambda>lt.
     if flag lt LT_ST_BUSY then Inl Spins else Inr (store p (raise LT_ST_DETACH lt) w))"

definition lthread_detach :: "nat \<Rightarrow> lt_world \<Rightarrow> lt_error + lt_world" where
  "lthread_detach s w = lthread_detach2 (current_lthread w s) w"

definition lthread_set_expired :: "nat \<Rightarrow> lt_world \<Rightarrow> lt_error + lt_world" where
  "lthread_set_expired p w = andThen (deref p w) (\<lambda>lt. Inr (store p (raise LT_ST_EXPIRED lt) w))"

definition lthread_desched_ready :: "nat \<Rightarrow> lt_world \<Rightarrow> lt_error + lt_world" where
  "lthread_desched_ready p w = andThen (deref p w) (\<lambda>lt.
     Inr (store p (raise LT_ST_SLEEPING (clear LT_ST_READY lt)) w))"

definition lthread_wakeup :: "nat \<Rightarrow> lt_world \<Rightarrow> lt_error + lt_world" where
  "lthread_wakeup p w = andThen (deref p w) (\<lambda>lt.
     if flag lt LT_ST_SLEEPING
     then andThen (lthread_desched_sleep p w) (scheduler_enqueue p)
     else Inr w)"

definition lthread_terminate_other_schedulers :: "nat \<Rightarrow> lt_world \<Rightarrow> lt_world" where
  "lthread_terminate_other_schedulers s w = w \<lparr> terminating_scheduler := Some s \<rparr>"

definition lthread_terminate_this_scheduler :: "nat \<Rightarrow> lt_world \<Rightarrow> lt_error + lt_world" where
  "lthread_terminate_this_scheduler s w =
     (if current_lthread w s = 0 then Inl Assertion_failed
      else andThen (deref (current_lthread w s) w) (\<lambda>lt.
        Inr (store (current_lthread w s) (raise LT_ST_TERMINATE lt) w)))"

definition lthread_id :: "nat \<Rightarrow> lt_world \<Rightarrow> lt_error + u64" where
  "lthread_id s w =
     (if current_lthread w s \<noteq> 0
      then andThen (deref (current_lthread w s) w) (\<lambda>lt. Inr (scast (lt_tid lt)))
      else Inr (- 1))"

section \<open>Thread-specific data\<close>

text \<open>Keys are stored as unsigned 32-bit values and looked up as \<^verbatim>\<open>long\<close>, here \<open>int\<close>.\<close>

definition lthread_findtlsslot :: "lthread \<Rightarrow> int \<Rightarrow> (u32 \<times> u64) option" where
  "lthread_findtlsslot lt key = find (\<lambda>(k, _). uint k = key) (tls lt)"

definition lthread_addtlsslot :: "bool \<Rightarrow> lthread \<Rightarrow> int \<Rightarrow> u64 \<Rightarrow> int \<times> lthread" where
  "lthread_addtlsslot alloc_ok lt key v =
     (if alloc_ok then (0, lt \<lparr> tls := (word_of_int key, v) # tls lt \<rparr>) else (ENOMEM, lt))"

text \<open>The assignment \<^verbatim>\<open>d->data = value\<close> through the slot that the search returned.\<close>

fun set_slot :: "int \<Rightarrow> u64 \<Rightarrow> (u32 \<times> u64) list \<Rightarrow> (u32 \<times> u64) list" where
  "set_slot key v [] = []"
| "set_slot key v ((k, d) # ds) = (if uint k = key then (k, v) # ds else (k, d) # set_slot key v ds)"

definition lthread_getspecific_remote :: "nat \<Rightarrow> int \<Rightarrow> lt_world \<Rightarrow> lt_error + u64" where
  "lthread_getspecific_remote p key w = andThen (deref p w) (\<lambda>lt.
     Inr (case lthread_findtlsslot lt key of None \<Rightarrow> 0 | Some (_, d) \<Rightarrow> d))"

definition lthread_setspecific_remote ::
    "bool \<Rightarrow> nat \<Rightarrow> int \<Rightarrow> u64 \<Rightarrow> lt_world \<Rightarrow> lt_error + int \<times> lt_world" where
  "lthread_setspecific_remote alloc_ok p key v w = andThen (deref p w) (\<lambda>lt.
     case lthread_findtlsslot lt key of
       Some _ \<Rightarrow> Inr (0, store p (lt \<lparr> tls := set_slot key v (tls lt) \<rparr>) w)
     | None \<Rightarrow> (let (r, lt') = lthread_addtlsslot alloc_ok lt key v in Inr (r, store p lt' w)))"

text \<open>The caller's key variable receives the second component.\<close>

definition lthread_key_create :: "bool \<Rightarrow> u64 \<Rightarrow> lt_world \<Rightarrow> int \<times> int \<times> lt_world" where
  "lthread_key_create alloc_ok destructor w =
     (if alloc_ok
      then (0, uint (global_count w),
            w \<lparr> lthread_destructors := (global_count w, destructor) # lthread_destructors w,
                global_count := global_count w + 1 \<rparr>)
      else (ENOMEM, 0, w))"

fun remove_key :: "int \<Rightarrow> (u32 \<times> u64) list \<Rightarrow> (u32 \<times> u64) list option" where
  "remove_key key [] = None"
| "remove_key key ((k, d) # ds) =
     (if uint k = key then Some ds else map_option ((#) (k, d)) (remove_key key ds))"

definition lthread_key_delete :: "int \<Rightarrow> lt_world \<Rightarrow> int \<times> lt_world" where
  "lthread_key_delete key w =
     (case remove_key key (lthread_destructors w) of
        Some ds \<Rightarrow> (0, w \<lparr> lthread_destructors := ds \<rparr>)
      | None \<Rightarrow> (- 1, w))"

definition lthread_finddestr :: "int \<Rightarrow> lt_world \<Rightarrow> u64" where
  "lthread_finddestr key w =
     (case find (\<lambda>(k, _). uint k = key) (lthread_destructors w) of None \<Rightarrow> 0 | Some (_, d) \<Rightarrow> d)"

fun rundestructors_loop :: "(u32 \<times> u64) list \<Rightarrow> lt_world \<Rightarrow> lt_world" where
  "rundestructors_loop [] w = w"
| "rundestructors_loop ((k, d) # ds) w =
     rundestructors_loop ds
       (if d \<noteq> 0 \<and> lthread_finddestr (uint k) w \<noteq> 0
        then w \<lparr> destr_log := destr_log w @ [(lthread_finddestr (uint k) w, d)] \<rparr>
        else w)"

definition lthread_rundestructors :: "nat \<Rightarrow> lt_world \<Rightarrow> lt_error + lt_world" where
  "lthread_rundestructors p w = andThen (deref p w) (\<lambda>lt.
     Inr (store p (lt \<lparr> tls := [] \<rparr>) (rundestructors_loop (tls lt) w)))"

section \<open>Freeing and creating threads\<close>

definition munmap_w :: "u64 \<Rightarrow> u64 \<Rightarrow> lt_world \<Rightarrow> lt_error + lt_world" where
  "munmap_w addr len w = andThen (or_spin (enclave_munmap addr len (emem w))) (\<lambda>(_, m). Inr (w \<lparr> emem := m \<rparr>))"

definition lthread_free :: "nat \<Rightarrow> nat \<Rightarrow> lt_world \<Rightarrow> lt_error + lt_world" where
  "lthread_free s p w = andThen (deref p w) (\<lambda>lt.
     andThen (if current_lthread w s \<noteq> 0 \<and> \<not> flag lt LT_ST_APP_MAIN then lthread_rundestructors p w else Inr w) (\<lambda>w1.
     andThen (if thread_type (attr lt) = LKL_KERNEL_THREAD \<and> itls lt \<noteq> 0
              then munmap_w (itls lt) (itlssz lt) w1 else Inr w1) (\<lambda>w2.
     andThen (if lt_stack (attr lt) \<noteq> 0
              then munmap_w (lt_stack (attr lt)) (stack_size (attr lt)) w2 else Inr w2) (\<lambda>w3.
     Inr (w3 \<lparr> threads := (threads w3)(p := None) \<rparr>)))))"

text \<open>
  A 64-bit store to enclave memory, little endian. Addresses with the top bit set (such as a negated
  error number) are not mapped.
\<close>

definition store_u64 :: "u64 \<Rightarrow> u64 \<Rightarrow> lt_world \<Rightarrow> lt_error + lt_world" where
  "store_u64 a v w =
     (if sint a < 0 then Inl Bad_access
      else Inr (w \<lparr> emem := (emem w) \<lparr> heap := (\<lambda>x. if unat (x - a) < 8
             then ucast (drop_bit (8 * unat (x - a)) v) else heap (emem w) x) \<rparr> \<rparr>))"

definition load_u64 :: "u64 \<Rightarrow> lt_world \<Rightarrow> u64" where
  "load_u64 a w = foldr (\<lambda>i acc. ucast (heap (emem w) (a + of_nat i)) OR push_bit 8 acc) [0..<8] 0"

abbreviation (input) TLS_ALIGN :: u64 where "TLS_ALIGN \<equiv> 16"
abbreviation (input) TCB_SIZE :: u64 where "TCB_SIZE \<equiv> 56"

definition init_tp :: "nat \<Rightarrow> u64 \<Rightarrow> u64 \<Rightarrow> lt_world \<Rightarrow> lt_error + lt_world" where
  "init_tp p m sz w =
     (let m1 = m + (sz - TCB_SIZE);
          m2 = m1 - (m1 AND (TLS_ALIGN - 1))
      in andThen (deref p w) (\<lambda>lt. store_u64 m2 m2 (store p (lt \<lparr> tp := m2 \<rparr>) w)))"

text \<open>
  \<^verbatim>\<open>oe_strncpy_s\<close> is a parameter: the 64 bytes of the destination after the call. The last byte is then
  overwritten by a NUL, so the name ends at the first NUL of the first 63.
\<close>

definition lthread_set_funcname :: "(string \<Rightarrow> string) \<Rightarrow> nat \<Rightarrow> string \<Rightarrow> lt_world \<Rightarrow> lt_error + lt_world" where
  "lthread_set_funcname strncpy_s p f w = andThen (deref p w) (\<lambda>lt.
     Inr (store p (lt \<lparr> attr := (attr lt)
       \<lparr> funcname := takeWhile (\<lambda>c. c \<noteq> CHR 0x00) (take 63 (strncpy_s f)) \<rparr> \<rparr>) w))"

definition mmap_rw :: "u64 \<Rightarrow> lt_world \<Rightarrow> lt_error + u64 \<times> lt_world" where
  "mmap_rw len w = andThen (or_spin (enclave_mmap 0 len False 3 True (emem w))) (\<lambda>(r, m). Inr (r, w \<lparr> emem := m \<rparr>))"

text \<open>The allocation of the stack in \<open>lthread_create\<close>: \<open>None\<close> if the mapping failed.\<close>

definition create_stack :: "u64 \<Rightarrow> u64 \<Rightarrow> lt_world \<Rightarrow> lt_error + u64 option \<times> lt_world" where
  "create_stack stk sz w =
     (if stk \<noteq> 0 then Inr (Some stk, w)
      else andThen (mmap_rw sz w) (\<lambda>(r, w1). Inr (if sint r < 0 then None else Some r, w1)))"

definition lthread_dealloc :: "nat \<Rightarrow> lt_world \<Rightarrow> lt_world" where
  "lthread_dealloc p w = w \<lparr> threads := (threads w)(p := None) \<rparr>"

abbreviation (input) MAP_FAILED :: u64 where "MAP_FAILED \<equiv> - 1"

text \<open>The fields that \<open>lthread_create\<close> sets after the TLS image exists, and the thread identifier.\<close>

definition create_fields :: "nat \<Rightarrow> lthread_attr option \<Rightarrow> u64 \<Rightarrow> u64 \<Rightarrow> lt_world \<Rightarrow> lt_error + lt_world" where
  "create_fields p attrp f arg w = andThen (deref p w) (\<lambda>lt.
     Inr ((store p (lt \<lparr>
         attr := (attr lt) \<lparr> lt_state := BIT LT_ST_NEW OR (case attrp of None \<Rightarrow> 0 | Some a \<Rightarrow> lt_state a),
                             thread_type := LKL_KERNEL_THREAD, funcname := [] \<rparr>,
         lt_tid := spawned_lthreads w, lt_fun := f, lt_arg := arg, tls := [] \<rparr>) w)
       \<lparr> spawned_lthreads := spawned_lthreads w + 1 \<rparr>))"

definition create_name :: "(string \<Rightarrow> string) \<Rightarrow> nat \<Rightarrow> nat \<Rightarrow> lthread_attr option \<Rightarrow> lt_world \<Rightarrow> lt_error + lt_world" where
  "create_name strncpy_s s p attrp w =
     (case attrp of
        Some a \<Rightarrow> lthread_set_funcname strncpy_s p (funcname a) w
      | None \<Rightarrow>
          if current_lthread w s \<noteq> 0
          then andThen (deref (current_lthread w s) w) (\<lambda>self.
                 lthread_set_funcname strncpy_s p (funcname (attr self)) w)
          else Inr w)"

text \<open>From the mapping of the TLS image on.\<close>

definition create_tls ::
    "(string \<Rightarrow> string) \<Rightarrow> nat \<Rightarrow> nat \<Rightarrow> lthread_attr option \<Rightarrow> u64 \<Rightarrow> u64 \<Rightarrow> u64 \<Rightarrow> u64 \<Rightarrow> lt_world \<Rightarrow>
     lt_error + int \<times> nat \<times> lt_world" where
  "create_tls strncpy_s s p attrp f arg stk sz w =
     (let tlssz = (TCB_SIZE + TLS_ALIGN - 1) AND (- TLS_ALIGN)
      in andThen (mmap_rw tlssz w) (\<lambda>(it, w2).
         if it = MAP_FAILED then Inr (- 1, 0, lthread_dealloc p w2)
         else
           let lt = lthread_zero \<lparr> attr := (attr lthread_zero) \<lparr> lt_stack := stk, stack_size := sz \<rparr>,
                                   itlssz := tlssz, itls := it \<rparr>
           in andThen (init_tp p it tlssz (store p lt w2)) (\<lambda>w3.
              andThen (create_fields p attrp f arg w3) (\<lambda>w4.
              andThen (create_name strncpy_s s p attrp w4) (\<lambda>w5.
              andThen (scheduler_enqueue p w5) (\<lambda>w6. Inr (0, p, w6)))))))"

definition lthread_create ::
    "(string \<Rightarrow> string) \<Rightarrow> nat option \<Rightarrow> nat \<Rightarrow> lthread_attr option \<Rightarrow> u64 \<Rightarrow> u64 \<Rightarrow> lt_world \<Rightarrow>
     lt_error + int \<times> nat \<times> lt_world" where
  "lthread_create strncpy_s alloc s attrp f arg w =
     (case alloc of None \<Rightarrow> Inr (- 1, 0, w) | Some p \<Rightarrow>
        let sz = (case attrp of None \<Rightarrow> sched_stack_size w s
                  | Some a \<Rightarrow> if stack_size a \<noteq> 0 then stack_size a else sched_stack_size w s)
        in andThen (create_stack (case attrp of None \<Rightarrow> 0 | Some a \<Rightarrow> lt_stack a) sz (store p lthread_zero w)) (\<lambda>(r, w1).
           case r of
             None \<Rightarrow> Inr (- 1, 0, lthread_dealloc p w1)
           | Some stk \<Rightarrow> create_tls strncpy_s s p attrp f arg stk sz w1))"

text \<open>The name of a cloned thread, \<^verbatim>\<open>"cloned host task %llu"\<close>.\<close>

definition lthread_create_primitive ::
    "nat option \<Rightarrow> u64 \<Rightarrow> u64 \<Rightarrow> u64 \<Rightarrow> lt_world \<Rightarrow> lt_error + int \<times> nat \<times> lt_world" where
  "lthread_create_primitive alloc pc sp tcb w =
     (case alloc of None \<Rightarrow> Inr (- 1, 0, w) | Some p \<Rightarrow>
        if load_u64 tcb w \<noteq> tcb then Inl Assertion_failed
        else
          let lt = lthread_zero \<lparr> tp := tcb,
                attr := (attr lthread_zero) \<lparr> lt_state := BIT LT_ST_READY, thread_type := USERSPACE_THREAD,
                                              funcname := ''cloned host task '' @ decimal (cloned w) \<rparr>,
                lt_tid := spawned_lthreads w, eip := pc, esp := sp - 8 \<rparr>
          in Inr (0, p, (store p lt w) \<lparr> spawned_lthreads := spawned_lthreads w + 1, cloned := cloned w + 1 \<rparr>))"

section \<open>Switching between scheduler and threads\<close>

definition lthread_init_stack :: "u64 \<Rightarrow> nat \<Rightarrow> lt_world \<Rightarrow> lt_error + lt_world" where
  "lthread_init_stack exec p w =
     andThen (lthread_lock p w) (\<lambda>w1.
     andThen (deref p w1) (\<lambda>lt.
     let stk = lt_stack (attr lt) + stack_size (attr lt)
     in andThen (store_u64 (stk - 24) 0 w1) (\<lambda>w2.
        andThen (store_u64 (stk - 16) (of_nat p) w2) (\<lambda>w3.
        lthread_unlock p (store p (clear LT_ST_NEW
          (lt \<lparr> esp := stk - 32, ebp := stk - 24, eip := exec \<rparr>)) w3)))))"

definition set_tls_tp :: "nat \<Rightarrow> lthread \<Rightarrow> lt_world \<Rightarrow> lt_world" where
  "set_tls_tp s lt w = (if tp lt = 0 then w else w \<lparr> fsbase := (fsbase w)(s := tp lt) \<rparr>)"

definition reset_tls_tp :: "nat \<Rightarrow> lthread \<Rightarrow> lt_world \<Rightarrow> lt_world" where
  "reset_tls_tp s lt w = (if tp lt = 0 then w else w \<lparr> fsbase := (fsbase w)(s := sched_tp w s) \<rparr>)"

text \<open>\<^verbatim>\<open>_lthread_resume\<close> up to the switch to the thread.\<close>

definition resume_begin :: "u64 \<Rightarrow> nat \<Rightarrow> nat \<Rightarrow> lt_world \<Rightarrow> lt_error + lt_world" where
  "resume_begin exec s p w =
     andThen (deref p w) (\<lambda>lt0.
     andThen (if flag lt0 LT_ST_NEW then lthread_init_stack exec p w else Inr w) (\<lambda>w1.
     andThen (deref p w1) (\<lambda>lt.
     let lt' = lt \<lparr> yield_cb := No_cb, yield_cbarg := 0 \<rparr>;
         w2 = (store p lt' w1) \<lparr> current_lthread := (current_lthread w1)(s := p) \<rparr>
     in Inr (set_tls_tp s lt' w2))))"

definition call_yield_cb :: "lthread \<Rightarrow> lt_world \<Rightarrow> lt_error + lt_world" where
  "call_yield_cb lt w =
     (case yield_cb lt of
        No_cb \<Rightarrow> Inr w
      | Do_futex_unlock \<Rightarrow> Inr (w \<lparr> fut := futex_unlock (fut w) \<rparr>)
      | Lthread_desched_ready \<Rightarrow> lthread_desched_ready (yield_cbarg lt) w
      | Lthread_unlock \<Rightarrow> lthread_unlock (yield_cbarg lt) w)"

text \<open>
  \<^verbatim>\<open>_lthread_resume\<close> from the switch back. \<open>fs0\<close> is the word at the \<^verbatim>\<open>fs\<close> base, read for the thread that
  runs the application's main function.
\<close>

definition resume_exited :: "nat \<Rightarrow> nat \<Rightarrow> lthread \<Rightarrow> lt_world \<Rightarrow> lt_error + lt_world" where
  "resume_exited s p lt w =
     andThen (if lt_join lt \<noteq> 0
              then andThen (scheduler_enqueue (lt_join lt) w) (\<lambda>w1. Inr (store p (lt \<lparr> lt_join := 0 \<rparr>) w1))
              else Inr w) (\<lambda>w2.
     andThen (lthread_unlock p w2) (\<lambda>w3.
     andThen (deref p w3) (\<lambda>lt3.
     andThen (if flag lt3 LT_ST_DETACH then lthread_free s p w3 else Inr w3) (\<lambda>w4.
     Inr (w4 \<lparr> current_lthread := (current_lthread w4)(s := 0) \<rparr>)))))"

definition resume_end :: "nat \<Rightarrow> nat \<Rightarrow> u64 \<Rightarrow> lt_world \<Rightarrow> lt_error + int \<times> lt_world" where
  "resume_end s p fs0 w =
     andThen (deref p w) (\<lambda>lt0.
     let lt = (if flag lt0 LT_ST_APP_MAIN \<and> thread_type (attr lt0) = LKL_KERNEL_THREAD
               then lt0 \<lparr> tp := fs0 \<rparr> else lt0);
         w1 = reset_tls_tp s lt ((store p lt w) \<lparr> current_lthread := (current_lthread w)(s := 0) \<rparr>)
     in if flag lt LT_ST_TERMINATE then Inr (0, w1)
        else if flag lt LT_ST_EXITED then andThen (resume_exited s p lt w1) (\<lambda>w2. Inr (- 1, w2))
        else andThen (call_yield_cb lt w1) (\<lambda>w2. Inr (0, w2)))"

section \<open>Blocking operations of a running thread\<close>

text \<open>Each of these ends in a switch to the scheduler, that is, \<open>resume_end\<close> comes next.\<close>

definition lthread_yield_cb :: "nat \<Rightarrow> yield_fn \<Rightarrow> nat \<Rightarrow> lt_world \<Rightarrow> lt_error + lt_world" where
  "lthread_yield_cb p f arg w = andThen (deref p w) (\<lambda>lt.
     Inr (store p (lt \<lparr> yield_cb := f, yield_cbarg := arg \<rparr>) w))"

definition lthread_yield_and_sleep :: "nat \<Rightarrow> lt_world \<Rightarrow> lt_error + lt_world" where
  "lthread_yield_and_sleep s w =
     lthread_yield_cb (current_lthread w s) Lthread_desched_ready (current_lthread w s) w"

text \<open>The common end of \<^verbatim>\<open>_exec\<close> (the thread function returned) and \<^verbatim>\<open>lthread_exit\<close>.\<close>

definition exec_return :: "nat \<Rightarrow> nat \<Rightarrow> lt_world \<Rightarrow> lt_error + lt_world" where
  "exec_return p v w =
     andThen (lthread_lock p w) (\<lambda>w1.
     andThen (deref p w1) (\<lambda>lt. Inr (store p (raise LT_ST_EXITED (lt \<lparr> yield_cbarg := v \<rparr>)) w1)))"

definition lthread_exit :: "nat \<Rightarrow> nat \<Rightarrow> lt_world \<Rightarrow> lt_error + lt_world" where
  "lthread_exit s v w = exec_return (current_lthread w s) v w"

text \<open>
  \<^verbatim>\<open>lthread_join\<close> up to its yield: refused, the thread has exited (its lock is held), or the caller has
  become the joiner and yields.
\<close>

datatype join_result = Join_refused | Join_exited | Join_wait

definition join_begin :: "nat \<Rightarrow> nat \<Rightarrow> u64 \<Rightarrow> lt_world \<Rightarrow> lt_error + join_result \<times> lt_world" where
  "join_begin s p timeout w =
     (if timeout \<noteq> - 1 then Inl Assertion_failed
      else andThen (deref p w) (\<lambda>lt.
        if flag lt LT_ST_DETACH then Inr (Join_refused, w)
        else andThen (lthread_lock p w) (\<lambda>w1.
          andThen (deref p w1) (\<lambda>lt1.
          if flag lt1 LT_ST_EXITED then Inr (Join_exited, w1)
          else if lt_join lt1 \<noteq> 0 then andThen (lthread_unlock p w1) (\<lambda>w2. Inr (Join_refused, w2))
          else andThen (lthread_yield_cb (current_lthread w s) Lthread_unlock p
                          (store p (lt1 \<lparr> lt_join := current_lthread w s \<rparr>) w1)) (\<lambda>w2. Inr (Join_wait, w2))))))"

text \<open>The end of \<^verbatim>\<open>lthread_join\<close> with the lock held: the exit value, and the thread is freed.\<close>

definition join_reap :: "nat \<Rightarrow> nat \<Rightarrow> lt_world \<Rightarrow> lt_error + nat \<times> lt_world" where
  "join_reap s p w = andThen (deref p w) (\<lambda>lt. andThen (lthread_free s p w) (\<lambda>w1. Inr (yield_cbarg lt, w1)))"

definition join_end :: "nat \<Rightarrow> nat \<Rightarrow> lt_world \<Rightarrow> lt_error + nat \<times> lt_world" where
  "join_end s p w = andThen (lthread_lock p w) (join_reap s p)"

section \<open>The scheduler loop\<close>

definition lthread_sched_init :: "nat \<Rightarrow> u64 \<Rightarrow> lt_world \<Rightarrow> lt_world" where
  "lthread_sched_init s sz w = w \<lparr> sched_stack_size := (sched_stack_size w)(s := if sz \<noteq> 0 then sz else 512 * 1024) \<rparr>"

text \<open>
  An iteration of \<^verbatim>\<open>lthread_run\<close>: take a thread from the queue and switch to it; on the switch back decide
  whether this scheduler ends (\<open>Some\<close> of what \<^verbatim>\<open>lthread_run\<close> returns); poll the event channels and
  the futexes; pause when there was nothing to do.
\<close>

definition run_dispatch :: "u64 \<Rightarrow> nat \<Rightarrow> lt_world \<Rightarrow> lt_error + nat option \<times> lt_world" where
  "run_dispatch exec s w =
     (case run_queue (fut w) of
        [] \<Rightarrow> Inr (None, w)
      | p # q \<Rightarrow>
          let w1 = w \<lparr> fut := (fut w) \<lparr> run_queue := q \<rparr> \<rparr>
          in andThen (deref p w1) (\<lambda>lt.
             if flag lt LT_ST_EXITED \<or> flag lt LT_ST_TERMINATE then Inl Assertion_failed
             else andThen (resume_begin exec s p w1) (\<lambda>w2. Inr (Some p, w2))))"

abbreviation (input) INT_MAX :: int where "INT_MAX \<equiv> 2147483647"

definition run_return :: "int \<Rightarrow> nat \<Rightarrow> nat \<Rightarrow> u64 \<Rightarrow> lt_world \<Rightarrow> lt_error + int option \<times> lt_world" where
  "run_return exit_status s p fs0 w =
     andThen (resume_end s p fs0 w) (\<lambda>(_, w1).
     andThen (deref p w1) (\<lambda>lt.
     if flag lt LT_ST_TERMINATE then Inr (Some exit_status, w1)
     else if terminating_scheduler w1 \<noteq> None \<and> terminating_scheduler w1 \<noteq> Some s then Inr (Some INT_MAX, w1)
     else Inr (None, w1)))"

record run_ctx =
  pauses :: u64
  spins :: int
  dequeued :: nat
  idle_calls :: nat

text \<open>
  The polling at the end of the inner loop (\<open>woken\<close>: an event channel thread was woken) and the
  pause of the outer one, which counts the calls of \<^verbatim>\<open>sgxlkl_host_idle_ethread\<close>. The globals \<open>sleepspins\<close>
  and \<open>wake_spins\<close> are arguments.
\<close>

definition run_poll :: "u64 \<Rightarrow> int \<Rightarrow> bool \<Rightarrow> u64 \<Rightarrow> run_ctx \<times> lt_world \<Rightarrow> run_ctx \<times> lt_world" where
  "run_poll sleepspins wake_spins woken now = (\<lambda>(c, w).
     let c1 = (if woken then c \<lparr> dequeued := dequeued c + 1, pauses := sleepspins \<rparr> else c);
         c2 = c1 \<lparr> spins := spins c1 - 1 \<rparr>
     in if spins c2 \<le> 0 then (c2 \<lparr> spins := wake_spins \<rparr>, w \<lparr> fut := futex_tick now (fut w) \<rparr>)
        else (c2, w))"

definition run_pause :: "u64 \<Rightarrow> run_ctx \<Rightarrow> run_ctx" where
  "run_pause sleepspins c =
     (let c1 = c \<lparr> pauses := pauses c - 1 \<rparr>
      in if pauses c1 = 0 then c1 \<lparr> pauses := sleepspins, spins := 0, idle_calls := idle_calls c1 + 1 \<rparr> else c1)"

section \<open>The system\<close>

text \<open>
  Any number of schedulers and threads, as a step relation whose steps are the operations above run
  to the next switch. \<open>joining c\<close> is the thread whose exit \<open>c\<close> awaits inside \<^verbatim>\<open>lthread_join\<close>: its next
  action is \<open>join_end\<close>. Callers keep the rules of the thread interface: memory returned by the
  allocator is unused, a thread is joined by one thread only and is not detached while that thread waits,
  and the initial state of a created thread only says detached, pinned or main. Ending a scheduler by
  \<^verbatim>\<open>lthread_terminate_this_scheduler\<close> is the end of a run and not a step.
\<close>

record lt_system =
  world :: lt_world
  joining :: "nat \<Rightarrow> nat option"

definition attr_ok :: "lthread_attr option \<Rightarrow> bool" where
  "attr_ok attrp \<longleftrightarrow> (case attrp of None \<Rightarrow> True
     | Some a \<Rightarrow> (\<forall>n. bit (lt_state a) n \<longrightarrow> n \<in> {LT_ST_DETACH, LT_ST_PINNED, LT_ST_APP_MAIN}))"

definition runs :: "nat \<Rightarrow> nat \<Rightarrow> lt_system \<Rightarrow> bool" where
  "runs s c \<sigma> \<longleftrightarrow> c \<noteq> 0 \<and> current_lthread (world \<sigma>) s = c \<and> joining \<sigma> c = None"

inductive lt_step :: "lt_system \<Rightarrow> lt_system \<Rightarrow> bool" where
  dispatch: "current_lthread (world \<sigma>) s = 0 \<Longrightarrow> run_dispatch exec s (world \<sigma>) = Inr (Some p, w') \<Longrightarrow>
    lt_step \<sigma> (\<sigma> \<lparr> world := w' \<rparr>)"
| create: "runs s c \<sigma> \<Longrightarrow> attr_ok attrp \<Longrightarrow>
    (\<And>p. alloc = Some p \<Longrightarrow> p \<noteq> 0 \<and> threads (world \<sigma>) p = None) \<Longrightarrow>
    lthread_create strncpy_s alloc s attrp f arg (world \<sigma>) = Inr (r, q, w') \<Longrightarrow>
    lt_step \<sigma> (\<sigma> \<lparr> world := w' \<rparr>)"
| clone: "runs s c \<sigma> \<Longrightarrow> p \<noteq> 0 \<Longrightarrow> threads (world \<sigma>) p = None \<Longrightarrow>
    lthread_create_primitive (Some p) ip sp tcb (world \<sigma>) = Inr (r, q, w1) \<Longrightarrow>
    lthread_setspecific_remote ok q key v w1 = Inr (r', w2) \<Longrightarrow>
    scheduler_enqueue q w2 = Inr w' \<Longrightarrow>
    lt_step \<sigma> (\<sigma> \<lparr> world := w' \<rparr>)"
| sleep: "runs s c \<sigma> \<Longrightarrow> lthread_yield_and_sleep s (world \<sigma>) = Inr w1 \<Longrightarrow>
    resume_end s c fs0 w1 = Inr (r, w') \<Longrightarrow> lt_step \<sigma> (\<sigma> \<lparr> world := w' \<rparr>)"
| wakeup: "lthread_wakeup p (world \<sigma>) = Inr w' \<Longrightarrow> lt_step \<sigma> (\<sigma> \<lparr> world := w' \<rparr>)"
| futex_wait: "runs s c \<sigma> \<Longrightarrow> enclave_futex_timedwait c uaddr val ts now (fut (world \<sigma>)) = Some (Inr f') \<Longrightarrow>
    lthread_yield_cb c Do_futex_unlock a ((world \<sigma>) \<lparr> fut := f' \<rparr>) = Inr w1 \<Longrightarrow>
    resume_end s c fs0 w1 = Inr (r, w') \<Longrightarrow> lt_step \<sigma> (\<sigma> \<lparr> world := w' \<rparr>)"
| futex_wake: "enclave_futex_wake uaddr num (fut (world \<sigma>)) = Some (n, f') \<Longrightarrow>
    lt_step \<sigma> (\<sigma> \<lparr> world := (world \<sigma>) \<lparr> fut := f' \<rparr> \<rparr>)"
| poll: "run_poll sleepspins wake_spins woken now (ctx, world \<sigma>) = (ctx', w') \<Longrightarrow>
    lt_step \<sigma> (\<sigma> \<lparr> world := w' \<rparr>)"
| user_write: "lt_step \<sigma> (\<sigma> \<lparr> world := (world \<sigma>) \<lparr> fut := (fut (world \<sigma>)) \<lparr> umem := m \<rparr> \<rparr> \<rparr>)"
| setspecific: "runs s c \<sigma> \<Longrightarrow> lthread_setspecific_remote ok c key v (world \<sigma>) = Inr (r, w') \<Longrightarrow>
    lt_step \<sigma> (\<sigma> \<lparr> world := w' \<rparr>)"
| detach: "runs s c \<sigma> \<Longrightarrow> (\<And>d. joining \<sigma> d \<noteq> Some c) \<Longrightarrow> lthread_detach s (world \<sigma>) = Inr w' \<Longrightarrow>
    lt_step \<sigma> (\<sigma> \<lparr> world := w' \<rparr>)"
| exit: "runs s c \<sigma> \<Longrightarrow> lthread_exit s v (world \<sigma>) = Inr w1 \<Longrightarrow> resume_end s c fs0 w1 = Inr (r, w') \<Longrightarrow>
    lt_step \<sigma> (\<sigma> \<lparr> world := w' \<rparr>)"
| join_refused: "runs s c \<sigma> \<Longrightarrow> join_begin s p (- 1) (world \<sigma>) = Inr (Join_refused, w') \<Longrightarrow>
    lt_step \<sigma> (\<sigma> \<lparr> world := w' \<rparr>)"
| join_exited: "runs s c \<sigma> \<Longrightarrow> (\<And>d. joining \<sigma> d \<noteq> Some p) \<Longrightarrow>
    join_begin s p (- 1) (world \<sigma>) = Inr (Join_exited, w1) \<Longrightarrow> join_reap s p w1 = Inr (v, w') \<Longrightarrow>
    lt_step \<sigma> (\<sigma> \<lparr> world := w' \<rparr>)"
| join_wait: "runs s c \<sigma> \<Longrightarrow> (\<And>d. joining \<sigma> d \<noteq> Some p) \<Longrightarrow>
    join_begin s p (- 1) (world \<sigma>) = Inr (Join_wait, w1) \<Longrightarrow> resume_end s c fs0 w1 = Inr (r, w') \<Longrightarrow>
    lt_step \<sigma> (\<sigma> \<lparr> world := w', joining := (joining \<sigma>)(c := Some p) \<rparr>)"
| join_end: "c \<noteq> 0 \<Longrightarrow> current_lthread (world \<sigma>) s = c \<Longrightarrow> joining \<sigma> c = Some p \<Longrightarrow>
    join_end s p (world \<sigma>) = Inr (v, w') \<Longrightarrow>
    lt_step \<sigma> (\<sigma> \<lparr> world := w', joining := (joining \<sigma>)(c := None) \<rparr>)"

text \<open>Start-up: one scheduler per ethread, and the first thread not yet running.\<close>

definition lt_boot :: "nat \<Rightarrow> lt_system \<Rightarrow> bool" where
  "lt_boot main \<sigma> \<longleftrightarrow>
     main \<noteq> 0 \<and> joining \<sigma> = (\<lambda>_. None) \<and> current_lthread (world \<sigma>) = (\<lambda>_. 0) \<and> futex_inv (fut (world \<sigma>)) \<and>
     futex_queues (fut (world \<sigma>)) = [] \<and> run_queue (fut (world \<sigma>)) = [main] \<and>
     (\<exists>lt. threads (world \<sigma>) = [main \<mapsto> lt] \<and> lt_join lt = 0 \<and>
        (\<forall>n \<in> {LT_ST_EXITED, LT_ST_BUSY, LT_ST_SLEEPING, LT_ST_TERMINATE}. \<not> flag lt n))"

section \<open>State flags\<close>

named_theorems lt_simps \<open>flags, views and field selections of thread updates\<close>

lemma flag_bit: "flag lt n \<longleftrightarrow> bit (state_of lt) n"
  by (simp add: flag_def BIT_def and_exp_eq_0_iff_not_bit)

lemma state_of_simps [lt_simps]:
  "state_of (set_state st lt) = st"
  "state_of (lt \<lparr> yield_cb := f \<rparr>) = state_of lt" "state_of (lt \<lparr> yield_cbarg := v \<rparr>) = state_of lt"
  "state_of (lt \<lparr> tls := t \<rparr>) = state_of lt" "state_of (lt \<lparr> tp := x \<rparr>) = state_of lt"
  "state_of (lt \<lparr> lt_join := j \<rparr>) = state_of lt"
  "state_of (lt \<lparr> esp := x \<rparr>) = state_of lt" "state_of (lt \<lparr> ebp := x \<rparr>) = state_of lt" "state_of (lt \<lparr> eip := x \<rparr>) = state_of lt"
  "state_of (lt \<lparr> attr := a \<rparr>) = lt_state a"
  by (simp_all add: state_of_def set_state_def)

lemma flag_other [lt_simps]:
  "flag (lt \<lparr> yield_cb := f \<rparr>) n = flag lt n" "flag (lt \<lparr> yield_cbarg := v \<rparr>) n = flag lt n"
  "flag (lt \<lparr> tls := t \<rparr>) n = flag lt n" "flag (lt \<lparr> tp := x \<rparr>) n = flag lt n" "flag (lt \<lparr> lt_join := j \<rparr>) n = flag lt n"
  "flag (lt \<lparr> esp := x \<rparr>) n = flag lt n" "flag (lt \<lparr> ebp := x \<rparr>) n = flag lt n" "flag (lt \<lparr> eip := x \<rparr>) n = flag lt n"
  by (simp_all add: flag_def lt_simps)

lemma flag_raise [lt_simps]: "n < 32 \<Longrightarrow> flag (raise n lt) m \<longleftrightarrow> m = n \<or> flag lt m"
  by (auto simp: flag_bit raise_def lt_simps BIT_def bit_simps)

lemma flag_clear [lt_simps]: "n < 32 \<Longrightarrow> flag (clear n lt) m \<longleftrightarrow> m \<noteq> n \<and> flag lt m"
  by (auto simp: flag_bit clear_def lt_simps CLEARBIT_def bit_simps dest: bit_imp_le_length)

text \<open>What the life of a thread depends on.\<close>

record tview =
  v_exited :: bool
  v_busy :: bool
  v_sleeping :: bool
  v_terminate :: bool
  v_detach :: bool
  v_join :: nat

definition view :: "lthread \<Rightarrow> tview" where
  "view lt = \<lparr> v_exited = flag lt LT_ST_EXITED, v_busy = flag lt LT_ST_BUSY, v_sleeping = flag lt LT_ST_SLEEPING,
     v_terminate = flag lt LT_ST_TERMINATE, v_detach = flag lt LT_ST_DETACH, v_join = lt_join lt \<rparr>"

definition views :: "lt_world \<Rightarrow> nat \<Rightarrow> tview option" where
  "views w p = map_option view (threads w p)"

lemma lt_join_set_state [lt_simps]: "lt_join (set_state st lt) = lt_join lt"
  "lt_join (raise n lt) = lt_join lt" "lt_join (clear n lt) = lt_join lt"
  "yield_cbarg (raise n lt) = yield_cbarg lt" "yield_cbarg (clear n lt) = yield_cbarg lt"
  "yield_cb (raise n lt) = yield_cb lt" "yield_cb (clear n lt) = yield_cb lt"
  by (simp_all add: set_state_def raise_def clear_def)

lemma view_other [lt_simps]:
  "view (lt \<lparr> yield_cb := f \<rparr>) = view lt" "view (lt \<lparr> yield_cbarg := v \<rparr>) = view lt"
  "view (lt \<lparr> tls := t \<rparr>) = view lt" "view (lt \<lparr> tp := x \<rparr>) = view lt"
  "view (lt \<lparr> esp := x \<rparr>) = view lt" "view (lt \<lparr> ebp := x \<rparr>) = view lt" "view (lt \<lparr> eip := x \<rparr>) = view lt"
  "view (lt \<lparr> lt_join := j \<rparr>) = (view lt) \<lparr> v_join := j \<rparr>"
  "view (lt \<lparr> attr := (attr lt) \<lparr> funcname := n \<rparr> \<rparr>) = view lt"
  by (simp_all add: view_def flag_def lt_simps) (simp_all add: state_of_def)

lemma view_flags [lt_simps]:
  "view (raise LT_ST_EXITED lt) = (view lt) \<lparr> v_exited := True \<rparr>"
  "view (raise LT_ST_BUSY lt) = (view lt) \<lparr> v_busy := True \<rparr>"
  "view (clear LT_ST_BUSY lt) = (view lt) \<lparr> v_busy := False \<rparr>"
  "view (raise LT_ST_SLEEPING lt) = (view lt) \<lparr> v_sleeping := True \<rparr>"
  "view (clear LT_ST_SLEEPING lt) = (view lt) \<lparr> v_sleeping := False \<rparr>"
  "view (raise LT_ST_DETACH lt) = (view lt) \<lparr> v_detach := True \<rparr>"
  "view (raise LT_ST_READY lt) = view lt" "view (clear LT_ST_READY lt) = view lt"
  "view (clear LT_ST_EXPIRED lt) = view lt" "view (raise LT_ST_EXPIRED lt) = view lt"
  "view (clear LT_ST_NEW lt) = view lt"
  by (simp_all add: view_def lt_simps)

lemmas view_ready [lt_simps] = view_flags(7,8) [unfolded One_nat_def]

lemma views_simps [lt_simps]:
  "views (store p lt w) = (views w)(p \<mapsto> view lt)"
  "fut (store p lt w) = fut w" "current_lthread (store p lt w) = current_lthread w"
  "emem (store p lt w) = emem w" "threads (store p lt w) = (threads w)(p \<mapsto> lt)"
  "views (w \<lparr> fut := f \<rparr>) = views w" "views (w \<lparr> emem := m \<rparr>) = views w"
  "views (w \<lparr> current_lthread := c \<rparr>) = views w" "views (w \<lparr> fsbase := b \<rparr>) = views w"
  "views (w \<lparr> spawned_lthreads := n \<rparr>) = views w" "views (w \<lparr> cloned := k \<rparr>) = views w"
  "views (w \<lparr> destr_log := l \<rparr>) = views w"
  "views (w \<lparr> threads := (threads w)(p := None) \<rparr>) = (views w)(p := None)"
  by (auto simp: views_def store_def fun_eq_iff)

lemma store_fields [lt_simps]: "destr_log (store p lt w) = destr_log w"
  "lthread_destructors (store p lt w) = lthread_destructors w"
  by (simp_all add: store_def)

lemma store_store [lt_simps]: "store p a (store p b w) = store p a w"
  by (simp add: store_def)

lemma deref_Inr: "deref p w = Inr lt \<longleftrightarrow> threads w p = Some lt"
  by (auto simp: deref_def split: option.splits)

lemma views_Some: "threads w p = Some lt \<Longrightarrow> views w p = Some (view lt)"
  by (simp add: views_def)

text \<open>Worlds that differ only in what no thread's place depends on.\<close>

definition same_places :: "lt_world \<Rightarrow> lt_world \<Rightarrow> bool" where
  "same_places w w' \<longleftrightarrow> views w' = views w \<and> fut w' = fut w \<and> current_lthread w' = current_lthread w"

lemmas inr_simps = andThen_eq_Inr deref_Inr if_eq_Inr

section \<open>Effects of the operations on the views\<close>

lemma rundestructors_loop_same:
  "views (rundestructors_loop ds w) = views w" "fut (rundestructors_loop ds w) = fut w"
  "current_lthread (rundestructors_loop ds w) = current_lthread w" "threads (rundestructors_loop ds w) = threads w"
  "emem (rundestructors_loop ds w) = emem w"
  by (induction ds w rule: rundestructors_loop.induct) (simp_all add: lt_simps)

lemma munmap_w_same:
  "munmap_w a n w = Inr w' \<Longrightarrow> same_places w w' \<and> threads w' = threads w"
  by (auto simp: munmap_w_def inr_simps same_places_def lt_simps split: prod.splits)

lemma mmap_rw_same: "mmap_rw n w = Inr (r, w') \<Longrightarrow> same_places w w' \<and> threads w' = threads w"
  by (auto simp: mmap_rw_def inr_simps same_places_def lt_simps split: prod.splits)

lemma store_u64_same: "store_u64 a v w = Inr w' \<Longrightarrow> same_places w w' \<and> threads w' = threads w"
  by (auto simp: store_u64_def inr_simps same_places_def lt_simps)

lemma lthread_rundestructors_same:
  "lthread_rundestructors p w = Inr w' \<Longrightarrow> same_places w w'"
  by (auto simp: lthread_rundestructors_def inr_simps rundestructors_loop_same lt_simps same_places_def views_Some fun_upd_idem)

lemma same_places_refl: "same_places w w"
  by (simp add: same_places_def)

lemma same_places_trans: "same_places w w1 \<Longrightarrow> same_places w1 w2 \<Longrightarrow> same_places w w2"
  by (simp add: same_places_def)

lemma lthread_free_effect:
  assumes "lthread_free s p w = Inr w'"
  shows "threads w p \<noteq> None \<and> views w' = (views w)(p := None) \<and> fut w' = fut w \<and>
    current_lthread w' = current_lthread w"
proof -
  obtain lt w1 w2 w3 where lt: "threads w p = Some lt"
    and 1: "(if current_lthread w s \<noteq> 0 \<and> \<not> flag lt LT_ST_APP_MAIN then lthread_rundestructors p w else Inr w) = Inr w1"
    and 2: "(if thread_type (attr lt) = LKL_KERNEL_THREAD \<and> itls lt \<noteq> 0
              then munmap_w (itls lt) (itlssz lt) w1 else Inr w1) = Inr w2"
    and 3: "(if lt_stack (attr lt) \<noteq> 0
              then munmap_w (lt_stack (attr lt)) (stack_size (attr lt)) w2 else Inr w2) = Inr w3"
    and w': "w' = w3 \<lparr> threads := (threads w3)(p := None) \<rparr>"
    using assms unfolding lthread_free_def andThen_eq_Inr deref_Inr by auto
  have "same_places w w1" using 1 by (auto simp: same_places_refl split: if_splits dest: lthread_rundestructors_same)
  moreover have "same_places w1 w2" using 2 by (auto simp: same_places_refl split: if_splits dest: munmap_w_same)
  moreover have "same_places w2 w3" using 3 by (auto simp: same_places_refl split: if_splits dest: munmap_w_same)
  ultimately have "same_places w w3" by (blast intro: same_places_trans)
  then show ?thesis using lt by (simp add: w' lt_simps) (simp add: same_places_def)
qed

lemma create_stack_same: "create_stack stk n w = Inr (r, w') \<Longrightarrow> same_places w w' \<and> threads w' = threads w"
  by (auto simp: create_stack_def inr_simps split: if_splits prod.splits dest: mmap_rw_same)
    (auto simp: same_places_def)

lemma lthread_set_funcname_same:
  "lthread_set_funcname cpy p f w = Inr w' \<Longrightarrow> same_places w w'"
  by (auto simp: lthread_set_funcname_def inr_simps same_places_def lt_simps fun_upd_idem views_Some)

lemma create_name_same: "create_name cpy s p attrp w = Inr w' \<Longrightarrow> same_places w w'"
  by (auto simp: create_name_def inr_simps same_places_refl split: option.splits if_splits dest: lthread_set_funcname_same)

lemma attr_ok_view:
  "attr_ok attrp \<Longrightarrow> n \<in> {LT_ST_EXITED, LT_ST_BUSY, LT_ST_SLEEPING, LT_ST_TERMINATE} \<Longrightarrow>
   \<not> bit (BIT LT_ST_NEW OR (case attrp of None \<Rightarrow> 0 | Some a \<Rightarrow> lt_state a)) n"
  by (auto simp: attr_ok_def BIT_def bit_simps split: option.splits)

definition fresh_view :: "tview \<Rightarrow> bool" where
  "fresh_view v \<longleftrightarrow> \<not> v_exited v \<and> \<not> v_busy v \<and> \<not> v_sleeping v \<and> \<not> v_terminate v \<and> v_join v = 0"

lemma scheduler_enqueue_effect:
  "scheduler_enqueue p w = Inr w' \<Longrightarrow>
   w' = w \<lparr> fut := (fut w) \<lparr> run_queue := run_queue (fut w) @ [p] \<rparr> \<rparr> \<and> (\<exists>lt. threads w p = Some lt \<and> \<not> flag lt LT_ST_EXITED)"
  by (auto simp: scheduler_enqueue_def inr_simps)

lemma create_fields_effect:
  assumes "create_fields p attrp f arg w = Inr w'" and "attr_ok attrp" and "\<And>lt. threads w p = Some lt \<Longrightarrow> lt_join lt = 0"
  shows "\<exists>v. fresh_view v \<and> views w' = (views w)(p \<mapsto> v) \<and> fut w' = fut w \<and> current_lthread w' = current_lthread w"
proof -
  obtain lt where lt: "threads w p = Some lt" and w': "w' = (store p (lt \<lparr>
         attr := (attr lt) \<lparr> lt_state := BIT LT_ST_NEW OR (case attrp of None \<Rightarrow> 0 | Some a \<Rightarrow> lt_state a),
                             thread_type := LKL_KERNEL_THREAD, funcname := [] \<rparr>,
         lt_tid := spawned_lthreads w, lt_fun := f, lt_arg := arg, tls := [] \<rparr>) w)
       \<lparr> spawned_lthreads := spawned_lthreads w + 1 \<rparr>" (is "_ = (store p ?lt w) \<lparr> spawned_lthreads := _ \<rparr>")
    using assms(1) by (auto simp: create_fields_def inr_simps)
  have "fresh_view (view ?lt)"
    using attr_ok_view [OF assms(2)] assms(3) [OF lt] by (simp add: fresh_view_def view_def flag_bit state_of_def)
  then show ?thesis by (intro exI [of _ "view ?lt"]) (simp add: w' lt_simps)
qed

lemma init_tp_effect:
  assumes "init_tp p m sz w = Inr w'"
  shows "same_places w w' \<and> (\<forall>lt'. threads w' p = Some lt' \<longrightarrow> (\<exists>lt. threads w p = Some lt \<and> lt_join lt' = lt_join lt))"
  using assms
  by (auto simp: init_tp_def Let_def inr_simps lt_simps same_places_def views_Some fun_upd_idem dest!: store_u64_same)

lemma dealloc_simps [lt_simps]:
  "views (lthread_dealloc p w) = (views w)(p := None)" "fut (lthread_dealloc p w) = fut w"
  "current_lthread (lthread_dealloc p w) = current_lthread w"
  by (auto simp: lthread_dealloc_def views_def)

text \<open>A creation leaves everything in place or adds one fresh thread at the end of the queue.\<close>

definition added :: "nat \<Rightarrow> lt_world \<Rightarrow> lt_world \<Rightarrow> bool" where
  "added p w w' \<longleftrightarrow> (\<exists>v. fresh_view v \<and> views w' = (views w)(p \<mapsto> v)) \<and>
     fut w' = (fut w) \<lparr> run_queue := run_queue (fut w) @ [p] \<rparr> \<and> current_lthread w' = current_lthread w"

lemma create_tls_effect:
  assumes c: "create_tls cpy s p attrp f arg stk sz w = Inr (r, q, w')" and ok: "attr_ok attrp"
  shows "(views w' = (views w)(p := None) \<and> fut w' = fut w \<and> current_lthread w' = current_lthread w) \<or> added p w w'"
proof -
  let ?tlssz = "(TCB_SIZE + TLS_ALIGN - 1) AND (- TLS_ALIGN)"
  obtain it w2 where 2: "mmap_rw ?tlssz w = Inr (it, w2)"
    using c unfolding create_tls_def Let_def andThen_eq_Inr by auto
  note s2 = mmap_rw_same [OF 2]
  show ?thesis
  proof (cases "it = MAP_FAILED")
    case True
    with c 2 s2 show ?thesis
      unfolding create_tls_def Let_def by (auto simp: same_places_def lt_simps)
  next
    case False
    let ?lt = "lthread_zero \<lparr> attr := (attr lthread_zero) \<lparr> lt_stack := stk, stack_size := sz \<rparr>,
                                     itlssz := ?tlssz, itls := it \<rparr>"
    from False c 2 obtain w3 w4 w5 where 3: "init_tp p it ?tlssz (store p ?lt w2) = Inr w3"
      and 4: "create_fields p attrp f arg w3 = Inr w4" and 5: "create_name cpy s p attrp w4 = Inr w5"
      and 6: "scheduler_enqueue p w5 = Inr w'"
      unfolding create_tls_def Let_def by (auto simp: andThen_eq_Inr)
    note s3 = init_tp_effect [OF 3]
    have "lt_join lt = 0" if "threads w3 p = Some lt" for lt
      using s3 that by (auto simp: lt_simps lthread_zero_def)
    from create_fields_effect [OF 4 ok this] obtain v where v: "fresh_view v" "views w4 = (views w3)(p \<mapsto> v)"
      "fut w4 = fut w3" "current_lthread w4 = current_lthread w3" by auto
    show ?thesis
      using v s2 s3 create_name_same [OF 5] scheduler_enqueue_effect [OF 6]
      by (auto simp: same_places_def added_def lt_simps)
  qed
qed

lemma lthread_create_effect:
  assumes c: "lthread_create cpy alloc s attrp f arg w = Inr (r, q, w')" and ok: "attr_ok attrp"
    and new: "\<And>p. alloc = Some p \<Longrightarrow> threads w p = None"
  shows "same_places w w' \<or> (\<exists>p. alloc = Some p \<and> added p w w')"
proof (cases alloc)
  case None
  then show ?thesis using c by (simp add: lthread_create_def same_places_refl)
next
  case (Some p)
  have v0: "(views w)(p := None) = views w" using new [OF Some] by (auto simp: views_def)
  from c Some obtain stk sz r1 w1 where 1: "create_stack stk sz (store p lthread_zero w) = Inr (r1, w1)"
    and 2: "(case r1 of None \<Rightarrow> Inr (- 1, 0, lthread_dealloc p w1)
      | Some stk \<Rightarrow> create_tls cpy s p attrp f arg stk sz w1) = Inr (r, q, w')"
    by (auto simp: lthread_create_def Let_def andThen_eq_Inr)
  note s1 = create_stack_same [OF 1]
  show ?thesis
  proof (cases r1)
    case None
    with 2 v0 s1 show ?thesis by (auto simp: same_places_def lt_simps)
  next
    case (Some stk)
    with 2 have "create_tls cpy s p attrp f arg stk sz w1 = Inr (r, q, w')" by simp
    from create_tls_effect [OF this ok] show ?thesis
    proof
      assume "added p w1 w'"
      then have "added p w w'" using s1 by (auto simp: added_def same_places_def lt_simps)
      then show ?thesis using \<open>alloc = Some p\<close> by blast
    qed (use s1 v0 in \<open>auto simp: same_places_def lt_simps\<close>)
  qed
qed

lemma lthread_create_primitive_effect:
  assumes "lthread_create_primitive (Some p) ip sp tcb w = Inr (r, q, w')"
  shows "q = p \<and> (\<exists>lt. threads w' p = Some lt \<and> fresh_view (view lt) \<and> views w' = (views w)(p \<mapsto> view lt)) \<and>
    fut w' = fut w \<and> current_lthread w' = current_lthread w"
proof -
  have "fresh_view (view lt)" if "state_of lt = BIT LT_ST_READY" "lt_join lt = 0" for lt
    using that by (simp add: fresh_view_def view_def flag_bit BIT_def bit_simps)
  then show ?thesis
    using assms
    by (auto simp: lthread_create_primitive_def Let_def if_eq_Inr lt_simps state_of_def lthread_zero_def)
qed

lemma setspecific_same:
  assumes "lthread_setspecific_remote ok p key v w = Inr (r, w')"
  shows "same_places w w'"
proof -
  obtain lt t where lt: "threads w p = Some lt" and "w' = store p (lt \<lparr> tls := t \<rparr>) w \<or> w' = store p lt w"
    using assms unfolding lthread_setspecific_remote_def lthread_addtlsslot_def andThen_eq_Inr deref_Inr
    by (auto split: option.splits if_splits)
  with views_Some [OF lt] show ?thesis
    by (auto simp: same_places_def lt_simps fun_upd_idem)
qed

lemma lthread_lock_Inr:
  "lthread_lock p w = Inr w' \<longleftrightarrow> (\<exists>lt. threads w p = Some lt \<and> \<not> flag lt LT_ST_BUSY \<and> w' = store p (raise LT_ST_BUSY lt) w)"
  by (auto simp: lthread_lock_def inr_simps)

lemma lthread_unlock_Inr:
  "lthread_unlock p w = Inr w' \<longleftrightarrow> (\<exists>lt. threads w p = Some lt \<and> flag lt LT_ST_BUSY \<and> w' = store p (clear LT_ST_BUSY lt) w)"
  by (auto simp: lthread_unlock_def inr_simps)

lemma init_stack_same:
  assumes "lthread_init_stack exec p w = Inr w'"
  shows "same_places w w'"
proof -
  obtain lt a w2 a' w3 x y z where lt: "threads w p = Some lt" "\<not> flag lt LT_ST_BUSY"
    and 2: "store_u64 a 0 (store p (raise LT_ST_BUSY lt) w) = Inr w2" and 3: "store_u64 a' (of_nat p) w2 = Inr w3"
    and 4: "lthread_unlock p (store p (clear LT_ST_NEW
          ((raise LT_ST_BUSY lt) \<lparr> esp := x, ebp := y, eip := z \<rparr>)) w3) = Inr w'"
    using assms unfolding lthread_init_stack_def Let_def andThen_eq_Inr deref_Inr lthread_lock_Inr
    by (auto simp: lt_simps)
  have "(view lt) \<lparr> v_busy := True, v_busy := False \<rparr> = view lt" using lt(2) by (simp add: view_def)
  then show ?thesis
    using 4 store_u64_same [OF 2] store_u64_same [OF 3] lt
    by (auto simp: same_places_def lthread_unlock_Inr lt_simps views_Some fun_upd_idem)
qed

lemma resume_begin_effect:
  assumes "resume_begin exec s p w = Inr w'"
  shows "views w' = views w \<and> fut w' = fut w \<and> current_lthread w' = (current_lthread w)(s := p)"
proof -
  obtain lt0 w1 lt where 1: "(if flag lt0 LT_ST_NEW then lthread_init_stack exec p w else Inr w) = Inr w1"
    and lt: "threads w1 p = Some lt"
    and w': "w' = set_tls_tp s (lt \<lparr> yield_cb := No_cb, yield_cbarg := 0 \<rparr>)
       ((store p (lt \<lparr> yield_cb := No_cb, yield_cbarg := 0 \<rparr>) w1) \<lparr> current_lthread := (current_lthread w1)(s := p) \<rparr>)"
    using assms unfolding resume_begin_def Let_def andThen_eq_Inr deref_Inr by auto
  have "same_places w w1" using 1 by (auto simp: same_places_refl split: if_splits dest: init_stack_same)
  moreover from this have "views w p = Some (view lt)"
    using views_Some [OF lt] by (simp add: same_places_def)
  ultimately show ?thesis
    by (auto simp: w' set_tls_tp_def lt_simps same_places_def fun_upd_idem)
qed

text \<open>\<open>resume_end\<close> for a thread that goes on living, and for one that has exited.\<close>

lemma resume_end_live:
  assumes e: "resume_end s p fs0 w = Inr (r, w')" and lt: "threads w p = Some lt"
    and "\<not> flag lt LT_ST_TERMINATE" "\<not> flag lt LT_ST_EXITED"
  shows "\<exists>w1 lt1. views w1 = views w \<and> fut w1 = fut w \<and> current_lthread w1 = (current_lthread w)(s := 0) \<and>
    yield_cb lt1 = yield_cb lt \<and> yield_cbarg lt1 = yield_cbarg lt \<and> call_yield_cb lt1 w1 = Inr w'"
proof -
  let ?lt = "if flag lt LT_ST_APP_MAIN \<and> thread_type (attr lt) = LKL_KERNEL_THREAD then lt \<lparr> tp := fs0 \<rparr> else lt"
  let ?w1 = "reset_tls_tp s ?lt ((store p ?lt w) \<lparr> current_lthread := (current_lthread w)(s := 0) \<rparr>)"
  have v: "view ?lt = view lt" by (simp add: lt_simps)
  then have f: "\<not> flag ?lt LT_ST_TERMINATE" "\<not> flag ?lt LT_ST_EXITED" using assms(3,4) by (simp_all add: view_def)
  have "call_yield_cb ?lt ?w1 = Inr w'"
    using e lt f by (simp add: resume_end_def deref_def Let_def andThen_eq_Inr)
  moreover have "views ?w1 = views w"
    using v views_Some [OF lt] by (simp add: reset_tls_tp_def lt_simps fun_upd_idem)
  ultimately show ?thesis
    by (intro exI [of _ ?w1] exI [of _ ?lt]) (simp add: reset_tls_tp_def lt_simps)
qed

lemma resume_end_exited:
  assumes e: "resume_end s p fs0 w = Inr (r, w')" and lt: "threads w p = Some lt"
    and "\<not> flag lt LT_ST_TERMINATE" "flag lt LT_ST_EXITED"
  shows "\<exists>w1 lt1. views w1 = views w \<and> fut w1 = fut w \<and> current_lthread w1 = (current_lthread w)(s := 0) \<and>
    threads w1 p = Some lt1 \<and> view lt1 = view lt \<and> resume_exited s p lt1 w1 = Inr w'"
proof -
  let ?lt = "if flag lt LT_ST_APP_MAIN \<and> thread_type (attr lt) = LKL_KERNEL_THREAD then lt \<lparr> tp := fs0 \<rparr> else lt"
  let ?w1 = "reset_tls_tp s ?lt ((store p ?lt w) \<lparr> current_lthread := (current_lthread w)(s := 0) \<rparr>)"
  have v: "view ?lt = view lt" by (simp add: lt_simps)
  then have f: "\<not> flag ?lt LT_ST_TERMINATE" "flag ?lt LT_ST_EXITED" using assms(3,4) by (simp_all add: view_def)
  have "resume_exited s p ?lt ?w1 = Inr w'"
    using e lt f by (simp add: resume_end_def deref_def Let_def andThen_eq_Inr)
  moreover have "views ?w1 = views w"
    using v views_Some [OF lt] by (simp add: reset_tls_tp_def lt_simps fun_upd_idem)
  ultimately show ?thesis using v
    by (intro exI [of _ ?w1] exI [of _ ?lt]) (simp add: reset_tls_tp_def lt_simps)
qed

definition released :: "nat \<Rightarrow> futex_state \<Rightarrow> futex_state" where
  "released j f = f \<lparr> run_queue := run_queue f @ (if j \<noteq> 0 then [j] else []) \<rparr>"

lemma resume_exited_effect:
  assumes e: "resume_exited s p lt w = Inr w'" and lt: "threads w p = Some lt"
  shows "views w' = (if v_detach (view lt) then (views w)(p := None)
        else (views w)(p \<mapsto> (view lt) \<lparr> v_busy := False, v_join := 0 \<rparr>)) \<and>
    fut w' = released (v_join (view lt)) (fut w) \<and> current_lthread w' = (current_lthread w)(s := 0)"
proof -
  obtain w2 w3 lt3 w4 where 2: "(if lt_join lt \<noteq> 0
              then andThen (scheduler_enqueue (lt_join lt) w) (\<lambda>w1. Inr (store p (lt \<lparr> lt_join := 0 \<rparr>) w1))
              else Inr w) = Inr w2"
    and 3: "lthread_unlock p w2 = Inr w3" and lt3: "threads w3 p = Some lt3"
    and 4: "(if flag lt3 LT_ST_DETACH then lthread_free s p w3 else Inr w3) = Inr w4"
    and w': "w' = w4 \<lparr> current_lthread := (current_lthread w4)(s := 0) \<rparr>"
    using e unfolding resume_exited_def andThen_eq_Inr deref_Inr by auto
  have j: "v_join (view lt) = lt_join lt" by (simp add: view_def)
  have s2: "threads w2 p = Some (lt \<lparr> lt_join := 0 \<rparr>) \<and> views w2 = (views w)(p \<mapsto> (view lt) \<lparr> v_join := 0 \<rparr>) \<and>
      fut w2 = released (lt_join lt) (fut w) \<and> current_lthread w2 = current_lthread w"
  proof (cases "lt_join lt = 0")
    case True
    then have "lt \<lparr> lt_join := 0 \<rparr> = lt" by simp
    moreover from this have "(view lt) \<lparr> v_join := 0 \<rparr> = view lt" by (simp add: view_def True)
    ultimately show ?thesis
      using 2 True lt views_Some [OF lt] by (simp add: released_def fun_upd_idem)
  next
    case False
    then show ?thesis
      using 2 by (auto simp: andThen_eq_Inr released_def lt_simps dest!: scheduler_enqueue_effect)
  qed
  then have s3: "w3 = store p (clear LT_ST_BUSY (lt \<lparr> lt_join := 0 \<rparr>)) w2"
    using 3 by (simp add: lthread_unlock_Inr)
  have "lt3 = clear LT_ST_BUSY (lt \<lparr> lt_join := 0 \<rparr>)" using lt3 by (simp add: s3 lt_simps)
  then have "view lt3 = (view lt) \<lparr> v_join := 0, v_busy := False \<rparr>" by (simp add: lt_simps)
  moreover from this have "flag lt3 LT_ST_DETACH = v_detach (view lt)" by (simp add: view_def)
  ultimately show ?thesis
    using 4 s2 s3 by (auto simp: w' lt_simps j split: if_splits dest!: lthread_free_effect)
qed

section \<open>The life of a thread\<close>

text \<open>
  The abstract machine: every thread is in exactly one place. It is waiting to run, running on one
  scheduler, asleep until \<^verbatim>\<open>lthread_wakeup\<close>, waiting on a futex, waiting for another thread to exit,
  exited but not yet joined, or gone.
\<close>

datatype place = Gone | Queued | Running nat | Sleeping | Waiting | Joining nat | Exited

definition release :: "nat \<Rightarrow> (nat \<Rightarrow> place) \<Rightarrow> nat \<Rightarrow> place" where
  "release p loc = (\<lambda>q. if loc q = Joining p then Queued else loc q)"

inductive life :: "(nat \<Rightarrow> place) \<Rightarrow> (nat \<Rightarrow> place) \<Rightarrow> bool" where
  life_create: "loc p = Gone \<Longrightarrow> p \<noteq> 0 \<Longrightarrow> life loc (loc(p := Queued))"
| life_dispatch: "loc p = Queued \<Longrightarrow> (\<And>q. loc q \<noteq> Running s) \<Longrightarrow> life loc (loc(p := Running s))"
| life_sleep: "loc p = Running s \<Longrightarrow> life loc (loc(p := Sleeping))"
| life_wakeup: "loc p = Sleeping \<Longrightarrow> life loc (loc(p := Queued))"
| life_wait: "loc p = Running s \<Longrightarrow> life loc (loc(p := Waiting))"
| life_wake: "(\<And>p. p \<in> P \<Longrightarrow> loc p = Waiting) \<Longrightarrow> life loc (\<lambda>p. if p \<in> P then Queued else loc p)"
| life_join: "loc c = Running s \<Longrightarrow> loc p \<noteq> Gone \<Longrightarrow> loc p \<noteq> Exited \<Longrightarrow> (\<And>q. loc q \<noteq> Joining p) \<Longrightarrow>
    life loc (loc(c := Joining p))"
| life_exit: "loc p = Running s \<Longrightarrow> life loc ((release p loc)(p := Exited))"
| life_exit_detached: "loc p = Running s \<Longrightarrow> life loc ((release p loc)(p := Gone))"
| life_reap: "loc p = Exited \<Longrightarrow> loc c = Running s \<Longrightarrow> life loc (loc(p := Gone))"

definition life_boot :: "nat \<Rightarrow> (nat \<Rightarrow> place) \<Rightarrow> bool" where
  "life_boot main loc \<longleftrightarrow> main \<noteq> 0 \<and> loc = (\<lambda>_. Gone)(main := Queued)"

text \<open>The places that a concrete state gives to the threads.\<close>

fun at_place :: "lt_world \<Rightarrow> nat \<Rightarrow> place \<Rightarrow> bool" where
  "at_place w p Gone \<longleftrightarrow> views w p = None"
| "at_place w p Queued \<longleftrightarrow> p \<in> set (run_queue (fut w))"
| "at_place w p (Running s) \<longleftrightarrow> p \<noteq> 0 \<and> current_lthread w s = p"
| "at_place w p Sleeping \<longleftrightarrow> (\<exists>v. views w p = Some v \<and> v_sleeping v)"
| "at_place w p Waiting \<longleftrightarrow> p \<in> futex_lt ` set (futex_queues (fut w))"
| "at_place w p (Joining q) \<longleftrightarrow> p \<noteq> 0 \<and> (\<exists>v. views w q = Some v \<and> v_join v = p)"
| "at_place w p Exited \<longleftrightarrow> (\<exists>v. views w p = Some v \<and> v_exited v)"

definition sane :: "lt_world \<Rightarrow> bool" where
  "sane w \<longleftrightarrow> (\<forall>p v. views w p = Some v \<longrightarrow> \<not> v_busy v \<and> \<not> v_terminate v) \<and>
     views w 0 = None \<and> distinct (run_queue (fut w)) \<and> futex_inv (fut w)"

definition places :: "lt_world \<Rightarrow> (nat \<Rightarrow> place) \<Rightarrow> bool" where
  "places w loc \<longleftrightarrow> (\<forall>p X. at_place w p X \<longleftrightarrow> loc p = X) \<and> sane w"

text \<open>A thread inside \<^verbatim>\<open>lthread_join\<close> is still waiting, or the thread it joins has exited and is kept for it.\<close>

definition joins_ok :: "lt_system \<Rightarrow> (nat \<Rightarrow> place) \<Rightarrow> bool" where
  "joins_ok \<sigma> loc \<longleftrightarrow>
     (\<forall>c p. loc c = Joining p \<longrightarrow> joining \<sigma> c = Some p) \<and>
     (\<forall>c p. joining \<sigma> c = Some p \<longrightarrow>
        loc c = Joining p \<or> loc p = Exited \<and> (loc c = Queued \<or> (\<exists>s. loc c = Running s))) \<and>
     (\<forall>c d p. joining \<sigma> c = Some p \<longrightarrow> joining \<sigma> d = Some p \<longrightarrow> c = d) \<and>
     (\<forall>c p v. joining \<sigma> c = Some p \<longrightarrow> views (world \<sigma>) p = Some v \<longrightarrow> \<not> v_detach v)"

definition placed_in :: "lt_system \<Rightarrow> (nat \<Rightarrow> place) \<Rightarrow> bool" where
  "placed_in \<sigma> loc \<longleftrightarrow> places (world \<sigma>) loc \<and> joins_ok \<sigma> loc"

lemma same_places_at: "same_places w w' \<Longrightarrow> at_place w' p X = at_place w p X"
  by (cases X) (simp_all add: same_places_def)

lemma same_places_places: "same_places w w' \<Longrightarrow> places w loc \<Longrightarrow> places w' loc"
  by (simp add: places_def same_places_at) (simp add: sane_def same_places_def)

lemma placesD: "places w loc \<Longrightarrow> at_place w p X \<longleftrightarrow> loc p = X"
  by (simp add: places_def)

lemma places_update:
  assumes "places w loc" and "sane w'" and "\<And>q X. q \<noteq> p \<Longrightarrow> at_place w' q X = at_place w q X"
    and "\<And>X. at_place w' p X \<longleftrightarrow> Y = X"
  shows "places w' (loc(p := Y))"
  using assms by (auto simp: places_def)

lemma places_views:
  assumes "places w loc"
  shows "loc p \<noteq> Gone \<Longrightarrow> \<exists>v. views w p = Some v" and "loc p = Gone \<Longrightarrow> views w p = None"
    and "loc 0 = Gone"
proof -
  have "views w 0 = None" using assms by (simp add: places_def sane_def)
  then show "loc p \<noteq> Gone \<Longrightarrow> \<exists>v. views w p = Some v" and "loc p = Gone \<Longrightarrow> views w p = None" and "loc 0 = Gone"
    using placesD [OF assms, of p Gone] placesD [OF assms, of 0 Gone] by auto
qed

lemma places_nonzero: "places w loc \<Longrightarrow> views w p = Some v \<Longrightarrow> 0 < p"
  by (cases "p = 0") (auto simp: places_def sane_def)

lemma step_dispatch:
  assumes P: "places w loc" and q: "run_queue (fut w) = p # q" and idle: "current_lthread w s = 0"
    and w': "views w' = views w" "fut w' = (fut w) \<lparr> run_queue := q \<rparr>"
      "current_lthread w' = (current_lthread w)(s := p)"
  shows "places w' (loc(p := Running s))" and "loc p = Queued" and "loc r \<noteq> Running s"
proof -
  note D = placesD [OF P]
  show lp: "loc p = Queued" using D [of p Queued] q by simp
  show "loc r \<noteq> Running s" using D [of r "Running s"] idle by auto
  have p0: "p \<noteq> 0" using lp places_views(3) [OF P] by (cases "p = 0") auto
  have "sane w'" using P by (auto simp: places_def sane_def w' q futex_inv_def)
  then show "places w' (loc(p := Running s))"
  proof (rule places_update [OF P])
    fix r X assume "r \<noteq> p"
    then show "at_place w' r X = at_place w r X"
      using idle by (cases X) (auto simp: w' q)
  next
    fix X
    show "at_place w' p X \<longleftrightarrow> Running s = X"
      using D [of p X] P p0 by (cases X) (auto simp: w' lp places_def sane_def q)
  qed
qed

lemma step_added:
  assumes P: "places w loc" and new: "views w p = None" and p0: "p \<noteq> 0" and a: "added p w w'"
  shows "places w' (loc(p := Queued))" and "loc p = Gone"
proof -
  note D = placesD [OF P]
  from a obtain v where v: "fresh_view v" "views w' = (views w)(p \<mapsto> v)"
    and f: "fut w' = (fut w) \<lparr> run_queue := run_queue (fut w) @ [p] \<rparr>" and c: "current_lthread w' = current_lthread w"
    by (auto simp: added_def)
  show lp: "loc p = Gone" using D [of p Gone] new by simp
  have "sane w'"
    using P D [of p Queued] D [of p Waiting] v(1) p0
    by (auto simp: places_def sane_def v(2) f futex_inv_def lp fresh_view_def)
  then show "places w' (loc(p := Queued))"
  proof (rule places_update [OF P])
    fix r X assume "r \<noteq> p"
    then show "at_place w' r X = at_place w r X"
      using v(1) new by (cases X) (auto simp: v(2) f c fresh_view_def)
  next
    fix X
    show "at_place w' p X \<longleftrightarrow> Queued = X"
      using D [of p X] v(1) p0 by (cases X) (auto simp: v(2) f c lp fresh_view_def)
  qed
qed

lemma step_sleep:
  assumes P: "places w loc" and run: "loc p = Running s" and v: "views w p = Some v"
    and w': "views w' = (views w)(p \<mapsto> v \<lparr> v_sleeping := True \<rparr>)" "fut w' = fut w"
      "current_lthread w' = (current_lthread w)(s := 0)"
  shows "places w' (loc(p := Sleeping))"
proof -
  note D = placesD [OF P]
  have "sane w'" using P v places_nonzero [OF P v] by (auto simp: places_def sane_def w')
  then show ?thesis
  proof (rule places_update [OF P])
    fix r X assume "r \<noteq> p"
    then show "at_place w' r X = at_place w r X"
      using D [of p "Running s"] run v by (cases X) (auto simp: w')
  next
    fix X
    show "at_place w' p X \<longleftrightarrow> Sleeping = X"
      using D [of p X] v run D [of p "Running s"] by (cases X) (auto simp: w')
  qed
qed

lemma step_wakeup:
  assumes P: "places w loc" and v: "views w p = Some v" "v_sleeping v"
    and w': "views w' = (views w)(p \<mapsto> v \<lparr> v_sleeping := False \<rparr>)"
      "fut w' = (fut w) \<lparr> run_queue := run_queue (fut w) @ [p] \<rparr>" "current_lthread w' = current_lthread w"
  shows "places w' (loc(p := Queued))" and "loc p = Sleeping"
proof -
  note D = placesD [OF P]
  show lp: "loc p = Sleeping" using D [of p Sleeping] v by simp
  have "sane w'"
    using P v D [of p Queued] D [of p Waiting] lp places_nonzero [OF P v(1)]
    by (auto simp: places_def sane_def w' futex_inv_def)
  then show "places w' (loc(p := Queued))"
  proof (rule places_update [OF P])
    fix r X assume "r \<noteq> p"
    then show "at_place w' r X = at_place w r X" using v by (cases X) (auto simp: w')
  next
    fix X
    show "at_place w' p X \<longleftrightarrow> Queued = X" using D [of p X] v lp by (cases X) (auto simp: w')
  qed
qed

lemma step_wait:
  assumes P: "places w loc" and run: "loc p = Running s"
    and w': "views w' = views w" "futex_queues (fut w') = fq # futex_queues (fut w)" "futex_lt fq = p"
      "run_queue (fut w') = run_queue (fut w)" "futex_inv (fut w')"
      "current_lthread w' = (current_lthread w)(s := 0)"
  shows "places w' (loc(p := Waiting))"
proof -
  note D = placesD [OF P]
  have "sane w'" using P by (auto simp: places_def sane_def w')
  then show ?thesis
  proof (rule places_update [OF P])
    fix r X assume "r \<noteq> p"
    then show "at_place w' r X = at_place w r X"
      using D [of p "Running s"] run by (cases X) (auto simp: w')
  next
    fix X
    show "at_place w' p X \<longleftrightarrow> Waiting = X"
      using D [of p X] run D [of p "Running s"] by (cases X) (auto simp: w')
  qed
qed

lemma step_wake:
  assumes P: "places w loc" and sub: "set ws \<subseteq> set (futex_queues (fut w))" and d: "distinct ws"
    and w': "views w' = views w" "futex_queues (fut w') = filter (\<lambda>e. e \<notin> set ws) (futex_queues (fut w))"
      "run_queue (fut w') = run_queue (fut w) @ map futex_lt ws" "futex_inv (fut w')"
      "current_lthread w' = current_lthread w"
  defines "W \<equiv> futex_lt ` set ws"
  shows "places w' (\<lambda>p. if p \<in> W then Queued else loc p)" and "p \<in> W \<Longrightarrow> loc p = Waiting"
proof -
  note D = placesD [OF P]
  have inv: "futex_inv (fut w)" using P by (simp add: places_def sane_def)
  have inj: "inj_on futex_lt (set (futex_queues (fut w)))"
    using inv by (simp add: futex_inv_def distinct_map)
  show "p \<in> W \<Longrightarrow> loc p = Waiting" for p
    using D [of p Waiting] sub by (auto simp: W_def)
  have out: "futex_lt e \<notin> W" if e: "e \<in> set (futex_queues (fut w))" "e \<notin> set ws" for e
  proof
    assume "futex_lt e \<in> W"
    then obtain e' where e': "e' \<in> set ws" "futex_lt e = futex_lt e'" by (auto simp: W_def)
    with sub have "e' \<in> set (futex_queues (fut w))" by blast
    with inj e(1) e'(2) have "e = e'" by (simp add: inj_on_def)
    with e e' show False by simp
  qed
  have lt: "p \<in> futex_lt ` set (futex_queues (fut w')) \<longleftrightarrow> p \<in> futex_lt ` set (futex_queues (fut w)) \<and> p \<notin> W" for p
  proof
    show "p \<in> futex_lt ` set (futex_queues (fut w')) \<Longrightarrow> p \<in> futex_lt ` set (futex_queues (fut w)) \<and> p \<notin> W"
      using out by (auto simp: w'(2))
    show "p \<in> futex_lt ` set (futex_queues (fut w)) \<and> p \<notin> W \<Longrightarrow> p \<in> futex_lt ` set (futex_queues (fut w'))"
      by (auto simp: w'(2) W_def)
  qed
  have "distinct (map futex_lt ws)"
    using d inj sub by (simp add: distinct_map inj_on_subset)
  moreover have "set (run_queue (fut w)) \<inter> set (map futex_lt ws) = {}"
    using inv image_mono [OF sub, of futex_lt] unfolding futex_inv_def by auto
  ultimately have "distinct (run_queue (fut w'))"
    using P by (simp add: w'(3) places_def sane_def)
  then have "sane w'" using P w'(4) by (simp add: places_def sane_def w'(1))
  moreover have "at_place w' p X \<longleftrightarrow> (if p \<in> W then Queued else loc p) = X" for p X
  proof (cases "p \<in> W")
    case True
    then have wait: "loc p = Waiting" using D [of p Waiting] sub by (auto simp: W_def)
    have q: "at_place w' p Queued" using True by (simp add: w'(3) W_def)
    have "\<not> at_place w' p Waiting" using lt [of p] True by (simp only: at_place.simps) blast
    moreover have "at_place w' p X = at_place w p X" if "X \<noteq> Queued" "X \<noteq> Waiting"
      using that by (cases X) (simp_all add: w'(1,5))
    ultimately show ?thesis using True wait q D [of p X] by (cases "X = Queued \<or> X = Waiting") auto
  next
    case False
    then have "at_place w' p X = at_place w p X"
      using lt [of p] by (cases X) (auto simp: w'(1,3,5) W_def)
    with False D [of p X] show ?thesis by simp
  qed
  ultimately show "places w' (\<lambda>p. if p \<in> W then Queued else loc p)" by (simp add: places_def)
qed

lemma step_join:
  assumes P: "places w loc" and run: "loc c = Running s" and v: "views w p = Some v" "v_join v = 0" "\<not> v_exited v"
    and w': "views w' = (views w)(p \<mapsto> v \<lparr> v_join := c \<rparr>)" "fut w' = fut w"
      "current_lthread w' = (current_lthread w)(s := 0)"
  shows "places w' (loc(c := Joining p))" and "loc p \<noteq> Gone" "loc p \<noteq> Exited" "loc q \<noteq> Joining p"
proof -
  note D = placesD [OF P]
  have c: "c \<noteq> 0" "current_lthread w s = c" using D [of c "Running s"] run by auto
  show "loc p \<noteq> Gone" "loc p \<noteq> Exited" "loc q \<noteq> Joining p"
    using D [of p Gone] D [of p Exited] D [of q "Joining p"] v by auto
  have "sane w'" using P v places_nonzero [OF P v(1)] by (auto simp: places_def sane_def w')
  then show "places w' (loc(c := Joining p))"
  proof (rule places_update [OF P])
    fix r X assume "r \<noteq> c"
    then show "at_place w' r X = at_place w r X" using c v by (cases X) (auto simp: w')
  next
    fix X
    show "at_place w' c X \<longleftrightarrow> Joining p = X"
      using D [of c X] run c v by (cases X) (auto simp: w')
  qed
qed

lemma step_exit:
  assumes P: "places w loc" and run: "loc p = Running s" and v: "views w p = Some v"
    and w': "views w' = (views w)(p := V)" "fut w' = released (v_join v) (fut w)"
      "current_lthread w' = (current_lthread w)(s := 0)"
    and Y: "V = None \<and> Y = Gone \<or>
      (\<exists>v'. V = Some v' \<and> v_exited v' \<and> \<not> v_sleeping v' \<and> \<not> v_busy v' \<and> \<not> v_terminate v' \<and> v_join v' = 0) \<and> Y = Exited"
  shows "places w' ((release p loc)(p := Y))"
proof -
  note D = placesD [OF P]
  let ?j = "v_join v"
  have p: "p \<noteq> 0" "current_lthread w s = p" using D [of p "Running s"] run by auto
  have J: "loc q = Joining p \<longleftrightarrow> q \<noteq> 0 \<and> q = ?j" for q using D [of q "Joining p"] v by auto
  have jp: "?j \<noteq> p" using J [of p] run p(1) by auto
  have "?j \<notin> set (run_queue (fut w))" "?j \<notin> futex_lt ` set (futex_queues (fut w))" if "?j \<noteq> 0"
    using J [of ?j] D [of ?j Queued] D [of ?j Waiting] that by auto
  then have sane: "sane w'"
    using P Y p by (auto simp: places_def sane_def w' released_def futex_inv_def)
  have "at_place w' q X \<longleftrightarrow> ((release p loc)(p := Y)) q = X" for q X
  proof -
    consider "q = p" | "q \<noteq> p" "q = ?j" "?j \<noteq> 0" | "q \<noteq> p" "q = ?j \<longrightarrow> ?j = 0" by auto
    then show ?thesis
    proof cases
      case 1
      then show ?thesis using D [of p X] Y run p jp v by (cases X) (auto simp: w' released_def)
    next
      case 2
      then have "loc q = Joining p" using J [of q] by simp
      then show ?thesis using 2 D [of q X] Y p v by (cases X) (auto simp: w' released_def release_def)
    next
      case 3
      then have "loc q \<noteq> Joining p" using J [of q] by auto
      moreover have "at_place w' q X = at_place w q X"
        using 3 p v Y by (cases X) (auto simp: w' released_def)
      ultimately show ?thesis using 3 D [of q X] by (simp add: release_def)
    qed
  qed
  then show ?thesis using sane by (simp add: places_def)
qed

lemma step_reap:
  assumes P: "places w loc" and e: "loc p = Exited"
    and w': "views w' = (views w)(p := None)" "fut w' = fut w" "current_lthread w' = current_lthread w"
    and nj: "\<And>c. loc c \<noteq> Joining p"
  shows "places w' (loc(p := Gone))"
proof -
  note D = placesD [OF P]
  have "sane w'" using P by (auto simp: places_def sane_def w')
  then show ?thesis
  proof (rule places_update [OF P])
    fix r X assume "r \<noteq> p"
    then show "at_place w' r X = at_place w r X"
      using D [of r "Joining p"] nj [of r] by (cases X) (auto simp: w' split: if_splits)
  next
    fix X
    show "at_place w' p X \<longleftrightarrow> Gone = X"
      using D [of p X] e by (cases X) (auto simp: w')
  qed
qed

section \<open>Simulation\<close>

lemma joinsD:
  "joins_ok \<sigma> loc \<Longrightarrow> joining \<sigma> c = Some p \<Longrightarrow>
     loc c = Joining p \<or> loc p = Exited \<and> (loc c = Queued \<or> (\<exists>s. loc c = Running s))"
  "joins_ok \<sigma> loc \<Longrightarrow> loc c = Joining p \<Longrightarrow> joining \<sigma> c = Some p"
  "joins_ok \<sigma> loc \<Longrightarrow> joining \<sigma> c = Some p \<Longrightarrow> joining \<sigma> d = Some p \<Longrightarrow> c = d"
  "joins_ok \<sigma> loc \<Longrightarrow> joining \<sigma> c = Some p \<Longrightarrow> views (world \<sigma>) p = Some v \<Longrightarrow> \<not> v_detach v"
  by (auto simp: joins_ok_def)

lemma joinsI:
  assumes "\<And>c p. loc c = Joining p \<Longrightarrow> joining \<sigma> c = Some p"
    and "\<And>c p. joining \<sigma> c = Some p \<Longrightarrow>
      loc c = Joining p \<or> loc p = Exited \<and> (loc c = Queued \<or> (\<exists>s. loc c = Running s))"
    and "\<And>c d p. joining \<sigma> c = Some p \<Longrightarrow> joining \<sigma> d = Some p \<Longrightarrow> c = d"
    and "\<And>c p v. joining \<sigma> c = Some p \<Longrightarrow> views (world \<sigma>) p = Some v \<Longrightarrow> \<not> v_detach v"
  shows "joins_ok \<sigma> loc"
  unfolding joins_ok_def using assms by blast

lemma joins_None:
  "joins_ok \<sigma> loc \<Longrightarrow> loc p \<in> {Gone, Sleeping, Waiting, Exited} \<Longrightarrow> joining \<sigma> p = None"
  by (cases "joining \<sigma> p") (auto dest: joinsD)

lemma joined_exists: "joins_ok \<sigma> loc \<Longrightarrow> places (world \<sigma>) loc \<Longrightarrow> joining \<sigma> c = Some p \<Longrightarrow> loc p \<noteq> Gone"
  using placesD [of "world \<sigma>" loc p Gone] placesD [of "world \<sigma>" loc c "Joining p"]
    joinsD(1) [of \<sigma> loc c p] by auto

text \<open>Moves of one thread that is not inside a join.\<close>

lemma joins_move:
  assumes J: "joins_ok \<sigma> loc" and "joining \<sigma> p = None" and "loc p \<noteq> Exited" and "\<And>q. Y \<noteq> Joining q"
    and "\<And>c q v. joining \<sigma> c = Some q \<Longrightarrow> views w' q = Some v \<Longrightarrow> \<not> v_detach v"
  shows "joins_ok (\<sigma> \<lparr> world := w' \<rparr>) (loc(p := Y))"
  using assms unfolding joins_ok_def
  by (auto simp: fun_upd_def split: if_splits)

lemma joins_same:
  assumes "joins_ok \<sigma> loc" and "views w' = views (world \<sigma>)"
  shows "joins_ok (\<sigma> \<lparr> world := w' \<rparr>) loc"
  using assms by (simp add: joins_ok_def)

lemma sim_same:
  "placed_in \<sigma> loc \<Longrightarrow> same_places (world \<sigma>) w' \<Longrightarrow> placed_in (\<sigma> \<lparr> world := w' \<rparr>) loc"
  by (auto simp: placed_in_def intro: same_places_places joins_same simp: same_places_def)

lemma runs_place: "places (world \<sigma>) loc \<Longrightarrow> runs s c \<sigma> \<Longrightarrow> loc c = Running s \<and> joining \<sigma> c = None"
  using placesD [of "world \<sigma>" loc c "Running s"] by (simp add: runs_def)

lemma sim_dispatch:
  assumes R: "placed_in \<sigma> loc" and idle: "current_lthread (world \<sigma>) s = 0"
    and d: "run_dispatch exec s (world \<sigma>) = Inr (Some p, w')"
  shows "placed_in (\<sigma> \<lparr> world := w' \<rparr>) (loc(p := Running s)) \<and> life loc (loc(p := Running s))"
proof -
  let ?w = "world \<sigma>"
  obtain q where q: "run_queue (fut ?w) = p # q"
    and b: "resume_begin exec s p (?w \<lparr> fut := (fut ?w) \<lparr> run_queue := q \<rparr> \<rparr>) = Inr w'"
    using d by (auto simp: run_dispatch_def Let_def inr_simps split: list.splits)
  have P: "places ?w loc" and J: "joins_ok \<sigma> loc" using R by (simp_all add: placed_in_def)
  note S = step_dispatch [OF P q idle, of w'] resume_begin_effect [OF b]
  then have *: "places w' (loc(p := Running s))" "loc p = Queued" "\<And>r. loc r \<noteq> Running s"
    by (simp_all add: lt_simps)
  have "joins_ok (\<sigma> \<lparr> world := w' \<rparr>) (loc(p := Running s))"
  proof (rule joinsI)
    fix c q assume "joining (\<sigma> \<lparr> world := w' \<rparr>) c = Some q"
    then show "(loc(p := Running s)) c = Joining q \<or> (loc(p := Running s)) q = Exited \<and>
        ((loc(p := Running s)) c = Queued \<or> (\<exists>s'. (loc(p := Running s)) c = Running s'))"
      using joinsD(1) [OF J, of c q] *(2) by auto
  qed (use joinsD [OF J] resume_begin_effect [OF b] in \<open>auto simp: lt_simps split: if_splits\<close>)
  then show ?thesis using * life_dispatch by (simp add: placed_in_def)
qed

lemma sim_added:
  assumes R: "placed_in \<sigma> loc" and new: "threads (world \<sigma>) p = None" and p0: "p \<noteq> 0" and a: "added p (world \<sigma>) w'"
  shows "placed_in (\<sigma> \<lparr> world := w' \<rparr>) (loc(p := Queued)) \<and> life loc (loc(p := Queued))"
proof -
  have P: "places (world \<sigma>) loc" and J: "joins_ok \<sigma> loc" using R by (simp_all add: placed_in_def)
  have v: "views (world \<sigma>) p = None" using new by (simp add: views_def)
  note S = step_added [OF P v p0 a]
  have "joins_ok (\<sigma> \<lparr> world := w' \<rparr>) (loc(p := Queued))"
  proof (rule joins_move [OF J])
    fix c q v assume "joining \<sigma> c = Some q" "views w' q = Some v"
    then show "\<not> v_detach v" using joined_exists [OF J P] joinsD(4) [OF J] S(2) a
      by (cases "q = p") (auto simp: added_def)
  qed (use S(2) joins_None [OF J] in auto)
  then show ?thesis using S life_create p0 by (simp add: placed_in_def)
qed

text \<open>The running thread gives up its processor.\<close>

lemma sim_move:
  assumes R: "placed_in \<sigma> loc" and run: "runs s c \<sigma>" and P': "places w' (loc(c := Y))"
    and "\<And>q. Y \<noteq> Joining q" and same: "\<And>q v. views w' q = Some v \<Longrightarrow> \<exists>v'. views (world \<sigma>) q = Some v' \<and> v_detach v' = v_detach v"
  shows "placed_in (\<sigma> \<lparr> world := w' \<rparr>) (loc(c := Y))"
proof -
  have P: "places (world \<sigma>) loc" and J: "joins_ok \<sigma> loc" using R by (simp_all add: placed_in_def)
  have "joins_ok (\<sigma> \<lparr> world := w' \<rparr>) (loc(c := Y))"
    using runs_place [OF P run] assms(4) same joinsD(4) [OF J]
    by (intro joins_move [OF J]) (auto, metis)
  then show ?thesis using P' by (simp add: placed_in_def)
qed

lemma running_thread:
  assumes "places w loc" and "loc c = Running s"
  shows "\<exists>lt. threads w c = Some lt \<and> \<not> flag lt LT_ST_EXITED \<and> \<not> flag lt LT_ST_TERMINATE \<and>
    \<not> flag lt LT_ST_BUSY \<and> current_lthread w s = c"
proof -
  obtain lt where "threads w c = Some lt"
    using placesD [OF assms(1), of c Gone] assms(2) by (auto simp: views_def)
  moreover from this have v: "views w c = Some (view lt)" by (rule views_Some)
  moreover have "\<not> v_busy (view lt) \<and> \<not> v_terminate (view lt)"
    using assms(1) v by (simp add: places_def sane_def)
  ultimately show ?thesis
    using placesD [OF assms(1), of c Exited] placesD [OF assms(1), of c "Running s"] assms(2)
    by (simp add: view_def)
qed

lemma sim_sleep:
  assumes R: "placed_in \<sigma> loc" and run: "runs s c \<sigma>" and y: "lthread_yield_and_sleep s (world \<sigma>) = Inr w1"
    and e: "resume_end s c fs0 w1 = Inr (r, w')"
  shows "placed_in (\<sigma> \<lparr> world := w' \<rparr>) (loc(c := Sleeping)) \<and> life loc (loc(c := Sleeping))"
proof -
  have P: "places (world \<sigma>) loc" using R by (simp add: placed_in_def)
  note lc = runs_place [OF P run, THEN conjunct1]
  obtain lt where lt: "threads (world \<sigma>) c = Some lt" "\<not> flag lt LT_ST_EXITED" "\<not> flag lt LT_ST_TERMINATE"
    "current_lthread (world \<sigma>) s = c"
    using running_thread [OF P lc] by auto
  let ?lt = "lt \<lparr> yield_cb := Lthread_desched_ready, yield_cbarg := c \<rparr>"
  have w1: "w1 = store c ?lt (world \<sigma>)"
    using y lt by (simp add: lthread_yield_and_sleep_def lthread_yield_cb_def deref_def)
  have t1: "threads w1 c = Some ?lt" by (simp add: w1 lt_simps)
  have "\<not> flag ?lt LT_ST_TERMINATE" "\<not> flag ?lt LT_ST_EXITED" using lt by (simp_all add: flag_def lt_simps)
  from resume_end_live [OF e t1 this] obtain w2 lt2 where 2: "views w2 = views w1" "fut w2 = fut w1"
      "current_lthread w2 = (current_lthread w1)(s := 0)" "yield_cb lt2 = Lthread_desched_ready" "yield_cbarg lt2 = c"
      "call_yield_cb lt2 w2 = Inr w'"
    by auto
  have v: "views (world \<sigma>) c = Some (view lt)" by (rule views_Some [OF lt(1)])
  have v1: "views w1 = views (world \<sigma>)" by (simp add: w1 lt_simps v fun_upd_idem)
  from 2 obtain lt3 where "threads w2 c = Some lt3" and w': "w' = store c (raise LT_ST_SLEEPING (clear LT_ST_READY lt3)) w2"
    by (auto simp: call_yield_cb_def lthread_desched_ready_def inr_simps)
  then have "view lt3 = view lt" using 2(1) v v1 views_Some [of w2 c lt3] by simp
  then have vs: "views w' = (views (world \<sigma>))(c \<mapsto> (view lt) \<lparr> v_sleeping := True \<rparr>)" by (simp add: w' lt_simps 2 v1)
  have P': "places w' (loc(c := Sleeping))"
    by (rule step_sleep [OF P lc v vs]) (simp_all add: w' lt_simps 2 w1)
  show ?thesis
  proof
    show "placed_in (\<sigma> \<lparr> world := w' \<rparr>) (loc(c := Sleeping))"
      by (rule sim_move [OF R run P']) (use v in \<open>auto simp: vs split: if_splits\<close>)
    show "life loc (loc(c := Sleeping))" using life_sleep [of loc c s] lc by simp
  qed
qed

lemma sim_wakeup:
  assumes R: "placed_in \<sigma> loc" and y: "lthread_wakeup p (world \<sigma>) = Inr w'"
  shows "\<exists>loc'. placed_in (\<sigma> \<lparr> world := w' \<rparr>) loc' \<and> (loc' = loc \<or> life loc loc')"
proof -
  have P: "places (world \<sigma>) loc" and J: "joins_ok \<sigma> loc" using R by (simp_all add: placed_in_def)
  obtain lt where lt: "threads (world \<sigma>) p = Some lt" using y by (auto simp: lthread_wakeup_def inr_simps)
  note v = views_Some [OF lt]
  show ?thesis
  proof (cases "flag lt LT_ST_SLEEPING")
    case False
    then have "w' = world \<sigma>" using y lt by (simp add: lthread_wakeup_def deref_def)
    then show ?thesis using R by auto
  next
    case True
    let ?w = "store p (raise LT_ST_READY (clear LT_ST_EXPIRED (clear LT_ST_SLEEPING lt))) (world \<sigma>)"
    have "scheduler_enqueue p ?w = Inr w'"
      using y True lt by (simp add: lthread_wakeup_def lthread_desched_sleep_def deref_def)
    then have w': "w' = ?w \<lparr> fut := (fut ?w) \<lparr> run_queue := run_queue (fut ?w) @ [p] \<rparr> \<rparr>"
      by (auto dest: scheduler_enqueue_effect)
    have vs: "views w' = (views (world \<sigma>))(p \<mapsto> (view lt) \<lparr> v_sleeping := False \<rparr>)" by (simp add: w' lt_simps)
    have s: "v_sleeping (view lt)" using True by (simp add: view_def)
    have st: "places w' (loc(p := Queued))" "loc p = Sleeping"
      by (rule step_wakeup [OF P v s vs]; simp add: w' lt_simps)+
    have "joins_ok (\<sigma> \<lparr> world := w' \<rparr>) (loc(p := Queued))"
    proof (rule joins_move [OF J])
      fix c q u assume "joining \<sigma> c = Some q" "views w' q = Some u"
      then show "\<not> v_detach u" using joinsD(4) [OF J, of c q] v by (auto simp: vs split: if_splits)
    qed (use st(2) joins_None [OF J] in auto)
    then have "placed_in (\<sigma> \<lparr> world := w' \<rparr>) (loc(p := Queued))" using st by (simp add: placed_in_def)
    then show ?thesis using life_wakeup [of loc p] st(2) by blast
  qed
qed

lemma sim_futex_wait:
  assumes R: "placed_in \<sigma> loc" and run: "runs s c \<sigma>"
    and f: "enclave_futex_timedwait c uaddr val ts now (fut (world \<sigma>)) = Some (Inr f')"
    and y: "lthread_yield_cb c Do_futex_unlock a ((world \<sigma>) \<lparr> fut := f' \<rparr>) = Inr w1"
    and e: "resume_end s c fs0 w1 = Inr (r, w')"
  shows "placed_in (\<sigma> \<lparr> world := w' \<rparr>) (loc(c := Waiting)) \<and> life loc (loc(c := Waiting))"
proof -
  have P: "places (world \<sigma>) loc" using R by (simp add: placed_in_def)
  note lc = runs_place [OF P run, THEN conjunct1]
  obtain lt where lt: "threads (world \<sigma>) c = Some lt" "\<not> flag lt LT_ST_EXITED" "\<not> flag lt LT_ST_TERMINATE"
    "current_lthread (world \<sigma>) s = c"
    using running_thread [OF P lc] by auto
  have inv: "futex_inv (fut (world \<sigma>))" using P by (simp add: places_def sane_def)
  have free: "c \<notin> futex_lt ` set (futex_queues (fut (world \<sigma>)))" "c \<notin> set (run_queue (fut (world \<sigma>)))"
    using placesD [OF P, of c Waiting] placesD [OF P, of c Queued] lc by auto
  have val: "umem (fut (world \<sigma>)) uaddr = val"
    using f inv by (auto simp: enclave_futex_timedwait_def inv_lock split: if_splits)
  note W = futex_wait_inv [OF inv free val, where ts = ts and now = now]
  from f W obtain fq where f': "f' = (fut (world \<sigma>)) \<lparr> futex_queues := fq # futex_queues (fut (world \<sigma>)),
      futex_sleepers := futex_sleepers (fut (world \<sigma>)) + 1 \<rparr>" "futex_lt fq = c" "futex_inv f'"
    by auto
  let ?lt = "lt \<lparr> yield_cb := Do_futex_unlock, yield_cbarg := a \<rparr>"
  have w1: "w1 = store c ?lt ((world \<sigma>) \<lparr> fut := f' \<rparr>)"
    using y lt by (simp add: lthread_yield_cb_def deref_def)
  have t1: "threads w1 c = Some ?lt" by (simp add: w1 lt_simps)
  have "\<not> flag ?lt LT_ST_TERMINATE" "\<not> flag ?lt LT_ST_EXITED" using lt by (simp_all add: flag_def lt_simps)
  from resume_end_live [OF e t1 this] obtain w2 where 2: "views w2 = views w1" "fut w2 = fut w1"
      "current_lthread w2 = (current_lthread w1)(s := 0)" "w' = w2 \<lparr> fut := futex_unlock (fut w2) \<rparr>"
    by (auto simp: call_yield_cb_def)
  have ul: "futex_unlock f' = f'" using f'(3) unlocked_same [of f'] by (simp add: futex_unlock_def futex_inv_def)
  have vs: "views w' = views (world \<sigma>)"
    by (simp add: 2 lt_simps w1 views_Some [OF lt(1)] fun_upd_idem)
  have F: "fut w' = f'" by (simp add: 2 w1 lt_simps ul)
  have P': "places w' (loc(c := Waiting))"
  proof (rule step_wait [OF P lc vs])
    show "futex_queues (fut w') = fq # futex_queues (fut (world \<sigma>))"
      and "run_queue (fut w') = run_queue (fut (world \<sigma>))" by (simp_all add: F f'(1))
    show "futex_inv (fut w')" and "futex_lt fq = c" using f'(2,3) F by simp_all
    show "current_lthread w' = (current_lthread (world \<sigma>))(s := 0)" by (simp add: 2 w1 lt_simps)
  qed
  have "placed_in (\<sigma> \<lparr> world := w' \<rparr>) (loc(c := Waiting))"
    by (rule sim_move [OF R run P']) (auto simp: vs)
  then show ?thesis using life_wait [of loc c s] lc by blast
qed

lemma sim_wake:
  assumes R: "placed_in \<sigma> loc" and sub: "set ws \<subseteq> set (futex_queues (fut (world \<sigma>)))" and d: "distinct ws"
  shows "\<exists>loc'. placed_in (\<sigma> \<lparr> world := (world \<sigma>) \<lparr> fut := wake_all x ws (fut (world \<sigma>)) \<rparr> \<rparr>) loc' \<and> life loc loc'"
proof -
  let ?f = "fut (world \<sigma>)"
  let ?w' = "(world \<sigma>) \<lparr> fut := wake_all x ws ?f \<rparr>"
  let ?loc = "\<lambda>p. if p \<in> futex_lt ` set ws then Queued else loc p"
  have P: "places (world \<sigma>) loc" and J: "joins_ok \<sigma> loc" using R by (simp_all add: placed_in_def)
  have inv: "futex_inv ?f" using P by (simp add: places_def sane_def)
  have inv': "futex_inv (wake_all x ws ?f)" by (rule wake_all_inv [OF inv sub d])
  note Q = wake_all_queues [OF inv_distinct [OF inv], of x ws]
  have S: "places ?w' ?loc"
    by (rule step_wake(1) [OF P sub d]) (simp_all add: lt_simps Q inv' wake_all_fields)
  have W: "loc p = Waiting" if "p \<in> futex_lt ` set ws" for p
    using placesD [OF P, of p Waiting] sub that by auto
  have "joins_ok (\<sigma> \<lparr> world := ?w' \<rparr>) ?loc"
  proof (rule joinsI)
    fix c p assume j: "joining (\<sigma> \<lparr> world := ?w' \<rparr>) c = Some p"
    then show "?loc c = Joining p \<or> ?loc p = Exited \<and> (?loc c = Queued \<or> (\<exists>s. ?loc c = Running s))"
      using joinsD(1) [OF J, of c p] W [of c] W [of p] by auto
  qed (use joinsD [OF J] in \<open>auto simp: lt_simps split: if_splits\<close>)
  then show ?thesis using S W life_wake [of "futex_lt ` set ws" loc] by (auto simp: placed_in_def)
qed

lemma sim_futex_wake:
  assumes R: "placed_in \<sigma> loc" and f: "enclave_futex_wake uaddr num (fut (world \<sigma>)) = Some (n, f')"
  shows "\<exists>loc'. placed_in (\<sigma> \<lparr> world := (world \<sigma>) \<lparr> fut := f' \<rparr> \<rparr>) loc' \<and> life loc loc'"
proof -
  have inv: "futex_inv (fut (world \<sigma>))" using R by (simp add: placed_in_def places_def sane_def)
  let ?ws = "chosen (to_futex_key uaddr) (unat num) (futex_queues (fut (world \<sigma>)))"
  note C = chosen_sub [OF inv_distinct [OF inv], of "to_futex_key uaddr" "unat num"]
  show ?thesis using sim_wake [OF R C, of FUTEX_NONE] enclave_futex_wake_result [OF inv, of uaddr num] f by simp
qed

lemma sim_poll:
  assumes R: "placed_in \<sigma> loc" and p: "run_poll sleepspins wake_spins woken now (ctx, world \<sigma>) = (ctx', w')"
  shows "\<exists>loc'. placed_in (\<sigma> \<lparr> world := w' \<rparr>) loc' \<and> (loc' = loc \<or> life loc loc')"
proof (cases "w' = world \<sigma>")
  case True
  then show ?thesis using R by auto
next
  case False
  with p have w': "w' = (world \<sigma>) \<lparr> fut := futex_tick now (fut (world \<sigma>)) \<rparr>"
    by (auto simp: run_poll_def Let_def split: if_splits)
  have inv: "futex_inv (fut (world \<sigma>))" using R by (simp add: placed_in_def places_def sane_def)
  let ?ws = "filter (\<lambda>e. futex_deadline e \<noteq> 0 \<and> futex_deadline e < now) (futex_queues (fut (world \<sigma>)))"
  have "set ?ws \<subseteq> set (futex_queues (fut (world \<sigma>)))" "distinct ?ws"
    using inv_distinct [OF inv] by auto
  from sim_wake [OF R this, of FUTEX_EXPIRED] show ?thesis
    unfolding w' futex_tick_result [OF inv] by blast
qed

lemma sim_detach:
  assumes R: "placed_in \<sigma> loc" and run: "runs s c \<sigma>" and nj: "\<And>d. joining \<sigma> d \<noteq> Some c"
    and d: "lthread_detach s (world \<sigma>) = Inr w'"
  shows "placed_in (\<sigma> \<lparr> world := w' \<rparr>) loc"
proof -
  have P: "places (world \<sigma>) loc" and J: "joins_ok \<sigma> loc" using R by (simp_all add: placed_in_def)
  obtain lt where lt: "threads (world \<sigma>) c = Some lt" and w': "w' = store c (raise LT_ST_DETACH lt) (world \<sigma>)"
    using d run by (auto simp: lthread_detach_def lthread_detach2_def runs_def inr_simps)
  note v = views_Some [OF lt]
  have vs: "views w' = (views (world \<sigma>))(c \<mapsto> (view lt) \<lparr> v_detach := True \<rparr>)" by (simp add: w' lt_simps)
  have "at_place w' p X = at_place (world \<sigma>) p X" for p X
    using v by (cases X) (auto simp: vs, simp_all add: w' lt_simps)
  moreover have "sane w'"
    using P v places_nonzero [OF P v] by (auto simp: places_def sane_def vs, simp_all add: w' lt_simps)
  ultimately have "places w' loc" using P by (simp add: places_def)
  moreover have "joins_ok (\<sigma> \<lparr> world := w' \<rparr>) loc"
    using nj joinsD [OF J] by (intro joinsI) (auto simp: vs split: if_splits)
  ultimately show ?thesis by (simp add: placed_in_def)
qed

lemma joins_exit:
  assumes J: "joins_ok \<sigma> loc" and run: "loc c = Running s" "joining \<sigma> c = None"
    and Y: "Y = Exited \<or> Y = Gone \<and> (\<forall>d. joining \<sigma> d \<noteq> Some c)"
    and dt: "\<And>d q v. joining \<sigma> d = Some q \<Longrightarrow> views w' q = Some v \<Longrightarrow> \<not> v_detach v"
  shows "joins_ok (\<sigma> \<lparr> world := w' \<rparr>) ((release c loc)(c := Y))"
proof (rule joinsI)
  fix d p assume j: "joining (\<sigma> \<lparr> world := w' \<rparr>) d = Some p"
  then have "d \<noteq> c" using run(2) by auto
  with j show "((release c loc)(c := Y)) d = Joining p \<or> ((release c loc)(c := Y)) p = Exited \<and>
      (((release c loc)(c := Y)) d = Queued \<or> (\<exists>s. ((release c loc)(c := Y)) d = Running s))"
    using joinsD(1) [OF J, of d p] Y run(1) by (auto simp: release_def)
next
  fix d p assume "((release c loc)(c := Y)) d = Joining p"
  then show "joining (\<sigma> \<lparr> world := w' \<rparr>) d = Some p"
    using joinsD(2) [OF J, of d p] Y by (auto simp: release_def split: if_splits)
qed (use joinsD(3) [OF J] dt in auto)

lemma sim_exit:
  assumes R: "placed_in \<sigma> loc" and run: "runs s c \<sigma>" and x: "lthread_exit s v (world \<sigma>) = Inr w1"
    and e: "resume_end s c fs0 w1 = Inr (r, w')"
  shows "\<exists>loc'. placed_in (\<sigma> \<lparr> world := w' \<rparr>) loc' \<and> life loc loc'"
proof -
  have P: "places (world \<sigma>) loc" and J: "joins_ok \<sigma> loc" using R by (simp_all add: placed_in_def)
  note lc = runs_place [OF P run]
  obtain lt where lt: "threads (world \<sigma>) c = Some lt" "\<not> flag lt LT_ST_TERMINATE" "current_lthread (world \<sigma>) s = c"
    "\<not> flag lt LT_ST_BUSY" "\<not> flag lt LT_ST_EXITED"
    using running_thread [OF P lc [THEN conjunct1]] by auto
  note vw = views_Some [OF lt(1)]
  let ?lt = "raise LT_ST_EXITED ((raise LT_ST_BUSY lt) \<lparr> yield_cbarg := v \<rparr>)"
  have w1: "threads w1 c = Some ?lt" "views w1 = (views (world \<sigma>))(c \<mapsto> (view lt) \<lparr> v_busy := True, v_exited := True \<rparr>)"
      "fut w1 = fut (world \<sigma>)" "current_lthread w1 = current_lthread (world \<sigma>)"
    using x lt by (auto simp: lthread_exit_def exec_return_def lthread_lock_Inr inr_simps lt_simps)
  have "view ?lt = (view lt) \<lparr> v_busy := True, v_exited := True \<rparr>" by (simp add: lt_simps)
  moreover from this have "\<not> flag ?lt LT_ST_TERMINATE" "flag ?lt LT_ST_EXITED" using lt(2) by (simp_all add: view_def)
  ultimately obtain w2 lt2 where 2: "views w2 = views w1" "fut w2 = fut w1"
      "current_lthread w2 = (current_lthread w1)(s := 0)" "threads w2 c = Some lt2"
      "view lt2 = (view lt) \<lparr> v_busy := True, v_exited := True \<rparr>" "resume_exited s c lt2 w2 = Inr w'"
    using resume_end_exited [OF e w1(1)] by auto
  note E = resume_exited_effect [OF 2(6,4)]
  let ?V = "if v_detach (view lt) then None else Some ((view lt) \<lparr> v_busy := False, v_exited := True, v_join := 0 \<rparr>)"
  let ?Y = "if v_detach (view lt) then Gone else Exited"
  have vs: "views w' = (views (world \<sigma>))(c := ?V)" using E 2 w1 by (auto simp: fun_eq_iff)
  have F: "fut w' = released (v_join (view lt)) (fut (world \<sigma>))" using E 2 w1 by simp
  have C: "current_lthread w' = (current_lthread (world \<sigma>))(s := 0)" using E 2 w1 by simp
  have "\<not> v_sleeping (view lt)" using placesD [OF P, of c Sleeping] lc vw by auto
  moreover have "\<not> v_terminate (view lt)" using lt(2) by (simp add: view_def)
  ultimately have P': "places w' ((release c loc)(c := ?Y))"
    by (intro step_exit [OF P lc [THEN conjunct1] vw vs F C]) auto
  have "joins_ok (\<sigma> \<lparr> world := w' \<rparr>) ((release c loc)(c := ?Y))"
  proof (rule joins_exit [OF J])
    show "?Y = Exited \<or> ?Y = Gone \<and> (\<forall>d. joining \<sigma> d \<noteq> Some c)"
      using joinsD(4) [OF J _ vw] by auto
    fix d q u assume "joining \<sigma> d = Some q" "views w' q = Some u"
    then show "\<not> v_detach u" using joinsD(4) [OF J, of d q] vw by (auto simp: vs split: if_splits)
  qed (use lc in auto)
  then have "placed_in (\<sigma> \<lparr> world := w' \<rparr>) ((release c loc)(c := ?Y))" using P' by (simp add: placed_in_def)
  moreover have "life loc ((release c loc)(c := ?Y))"
    using life_exit [of loc c s] life_exit_detached [of loc c s] lc by simp
  ultimately show ?thesis by blast
qed

lemma join_begin_Inr:
  assumes "join_begin s p t w = Inr (res, w')"
  obtains (refused) "res = Join_refused" "same_places w w'"
  | (exited) lt where "res = Join_exited" "threads w p = Some lt" "flag lt LT_ST_EXITED" "\<not> flag lt LT_ST_BUSY"
      "w' = store p (raise LT_ST_BUSY lt) w"
  | (wait) lt where "res = Join_wait" "threads w p = Some lt" "\<not> flag lt LT_ST_EXITED" "\<not> flag lt LT_ST_BUSY"
      "\<not> flag lt LT_ST_DETACH" "lt_join lt = 0"
      "lthread_yield_cb (current_lthread w s) Lthread_unlock p
         (store p ((raise LT_ST_BUSY lt) \<lparr> lt_join := current_lthread w s \<rparr>) w) = Inr w'"
proof -
  obtain lt where lt: "threads w p = Some lt"
    using assms by (auto simp: join_begin_def inr_simps split: if_splits)
  let ?lt = "raise LT_ST_BUSY lt"
  let ?w1 = "store p ?lt w"
  note E = assms [unfolded join_begin_def deref_def lthread_lock_def]
  have d1: "threads ?w1 p = Some ?lt" by (simp add: lt_simps)
  consider "flag lt LT_ST_DETACH" | "\<not> flag lt LT_ST_DETACH" "flag lt LT_ST_EXITED"
    | "\<not> flag lt LT_ST_DETACH" "\<not> flag lt LT_ST_EXITED" "lt_join lt \<noteq> 0"
    | "\<not> flag lt LT_ST_DETACH" "\<not> flag lt LT_ST_EXITED" "lt_join lt = 0" by blast
  then show thesis
  proof cases
    case 1
    with E lt show thesis by (intro refused) (auto simp: same_places_refl if_eq_Inr)
  next
    case 2
    with E lt show thesis by (intro exited [OF _ lt]) (auto simp: lt_simps split: if_splits)
  next
    case 3
    have b: "\<not> flag lt LT_ST_BUSY" using E lt 3 by (auto split: if_splits)
    with E lt 3 have "lthread_unlock p ?w1 = Inr w'" and r: "res = Join_refused"
      by (auto simp: lt_simps andThen_eq_Inr split: if_splits)
    then have "w' = store p (clear LT_ST_BUSY ?lt) ?w1" by (simp add: lthread_unlock_Inr d1)
    moreover have "(view lt) \<lparr> v_busy := True, v_busy := False \<rparr> = view lt" using b by (simp add: view_def)
    ultimately have "same_places w w'"
      by (simp add: same_places_def lt_simps views_Some [OF lt] fun_upd_idem)
    with r show thesis by (rule refused)
  next
    case 4
    with E lt show thesis by (intro wait [OF _ lt]) (auto simp: lt_simps andThen_eq_Inr split: if_splits)
  qed
qed

lemma sim_reap:
  assumes R: "placed_in \<sigma> loc" and f: "lthread_free s p w1 = Inr w'"
    and e: "loc p = Exited"
    and w1: "views w1 = (views (world \<sigma>))(p \<mapsto> v)" "fut w1 = fut (world \<sigma>)"
      "current_lthread w1 = current_lthread (world \<sigma>)"
    and nj: "\<And>d. joining \<sigma> d = Some p \<Longrightarrow> loc d \<noteq> Joining p"
    and jj: "\<And>d q. jj d = Some q \<longleftrightarrow> joining \<sigma> d = Some q \<and> q \<noteq> p"
  shows "placed_in (\<sigma> \<lparr> world := w', joining := jj \<rparr>) (loc(p := Gone))"
proof -
  have P: "places (world \<sigma>) loc" and J: "joins_ok \<sigma> loc" using R by (simp_all add: placed_in_def)
  note F = lthread_free_effect [OF f]
  have vs: "views w' = (views (world \<sigma>))(p := None)" using F w1 by simp
  have nj': "loc d \<noteq> Joining p" for d using nj [of d] joinsD(2) [OF J, of d p] by auto
  have P': "places w' (loc(p := Gone))"
    by (rule step_reap [OF P e vs _ _ nj']) (simp_all add: F w1)
  have "joins_ok (\<sigma> \<lparr> world := w', joining := jj \<rparr>) (loc(p := Gone))"
  proof (rule joinsI)
    fix c q assume "joining (\<sigma> \<lparr> world := w', joining := jj \<rparr>) c = Some q"
    then have j: "joining \<sigma> c = Some q" "q \<noteq> p" by (simp_all add: jj)
    show "(loc(p := Gone)) c = Joining q \<or> (loc(p := Gone)) q = Exited \<and>
        ((loc(p := Gone)) c = Queued \<or> (\<exists>s. (loc(p := Gone)) c = Running s))"
      using joinsD(1) [OF J j(1)] j(2) e by auto
  next
    fix c q assume "(loc(p := Gone)) c = Joining q"
    then have "loc c = Joining q" by (auto split: if_splits)
    then show "joining (\<sigma> \<lparr> world := w', joining := jj \<rparr>) c = Some q"
      using joinsD(2) [OF J] nj' [of c] by (auto simp: jj)
  qed (use joinsD(3,4) [OF J] in \<open>auto simp: jj vs split: if_splits\<close>)
  then show ?thesis using P' by (simp add: placed_in_def)
qed

lemma sim_join_exited:
  assumes R: "placed_in \<sigma> loc" and run: "runs s c \<sigma>" and nj: "\<And>d. joining \<sigma> d \<noteq> Some p"
    and b: "join_begin s p (- 1) (world \<sigma>) = Inr (Join_exited, w1)" and j: "join_reap s p w1 = Inr (v, w')"
  shows "placed_in (\<sigma> \<lparr> world := w' \<rparr>) (loc(p := Gone)) \<and> life loc (loc(p := Gone))"
proof -
  have P: "places (world \<sigma>) loc" using R by (simp add: placed_in_def)
  from b obtain lt where lt: "threads (world \<sigma>) p = Some lt" "flag lt LT_ST_EXITED" "w1 = store p (raise LT_ST_BUSY lt) (world \<sigma>)"
    by (cases rule: join_begin_Inr) auto
  have e: "loc p = Exited" using placesD [OF P, of p Exited] views_Some [OF lt(1)] lt(2) by (simp add: view_def)
  have f: "lthread_free s p w1 = Inr w'" using j by (auto simp: join_reap_def inr_simps)
  have "placed_in (\<sigma> \<lparr> world := w', joining := joining \<sigma> \<rparr>) (loc(p := Gone))"
    by (rule sim_reap [OF R f e]) (use nj in \<open>auto simp: lt(3) lt_simps\<close>)
  then show ?thesis using life_reap [of loc p c s] e runs_place [OF P run] by simp
qed

lemma sim_join_end:
  assumes R: "placed_in \<sigma> loc" and c: "c \<noteq> 0" "current_lthread (world \<sigma>) s = c" "joining \<sigma> c = Some p"
    and j: "join_end s p (world \<sigma>) = Inr (v, w')"
  shows "placed_in (\<sigma> \<lparr> world := w', joining := (joining \<sigma>)(c := None) \<rparr>) (loc(p := Gone)) \<and> life loc (loc(p := Gone))"
proof -
  have P: "places (world \<sigma>) loc" and J: "joins_ok \<sigma> loc" using R by (simp_all add: placed_in_def)
  have lc: "loc c = Running s" using placesD [OF P, of c "Running s"] c by simp
  have e: "loc p = Exited" using joinsD(1) [OF J c(3)] lc by auto
  from j obtain lt where lt: "threads (world \<sigma>) p = Some lt"
    and f: "lthread_free s p (store p (raise LT_ST_BUSY lt) (world \<sigma>)) = Inr w'"
    by (auto simp: join_end_def join_reap_def inr_simps lthread_lock_Inr)
  have only: "d = c" if "joining \<sigma> d = Some p" for d using joinsD(3) [OF J that c(3)] .
  have "placed_in (\<sigma> \<lparr> world := w', joining := (joining \<sigma>)(c := None) \<rparr>) (loc(p := Gone))"
  proof (rule sim_reap [OF R f e])
    show "loc d \<noteq> Joining p" if "joining \<sigma> d = Some p" for d using only [OF that] lc by simp
    show "((joining \<sigma>)(c := None)) d = Some q \<longleftrightarrow> joining \<sigma> d = Some q \<and> q \<noteq> p" for d q
    proof (cases "d = c")
      case True
      then show ?thesis using c(3) by auto
    next
      case False
      then show ?thesis using only [of d] by auto
    qed
  qed (simp_all add: lt_simps)
  then show ?thesis using life_reap [of loc p c s] e lc by simp
qed

lemma sim_join_wait:
  assumes R: "placed_in \<sigma> loc" and run: "runs s c \<sigma>" and nj: "\<And>d. joining \<sigma> d \<noteq> Some p"
    and b: "join_begin s p (- 1) (world \<sigma>) = Inr (Join_wait, w1)" and e: "resume_end s c fs0 w1 = Inr (r, w')"
  shows "placed_in (\<sigma> \<lparr> world := w', joining := (joining \<sigma>)(c := Some p) \<rparr>) (loc(c := Joining p)) \<and>
    life loc (loc(c := Joining p))"
proof -
  have P: "places (world \<sigma>) loc" and J: "joins_ok \<sigma> loc" using R by (simp_all add: placed_in_def)
  note lc = runs_place [OF P run]
  obtain lc0 where c0: "threads (world \<sigma>) c = Some lc0" "\<not> flag lc0 LT_ST_EXITED" "\<not> flag lc0 LT_ST_TERMINATE"
    "current_lthread (world \<sigma>) s = c"
    using running_thread [OF P lc [THEN conjunct1]] by auto
  from b obtain lt where lt: "threads (world \<sigma>) p = Some lt" "\<not> flag lt LT_ST_EXITED" "\<not> flag lt LT_ST_BUSY"
      "\<not> flag lt LT_ST_DETACH" "lt_join lt = 0"
    and y: "lthread_yield_cb c Lthread_unlock p
         (store p ((raise LT_ST_BUSY lt) \<lparr> lt_join := c \<rparr>) (world \<sigma>)) = Inr w1"
    using c0(4) by (cases rule: join_begin_Inr) auto
  note vp = views_Some [OF lt(1)]
  let ?w0 = "store p ((raise LT_ST_BUSY lt) \<lparr> lt_join := c \<rparr>) (world \<sigma>)"
  from y obtain lt1 where lt1: "threads ?w0 c = Some lt1"
    and w1: "w1 = store c (lt1 \<lparr> yield_cb := Lthread_unlock, yield_cbarg := p \<rparr>) ?w0"
    by (auto simp: lthread_yield_cb_def inr_simps)
  let ?lt1 = "lt1 \<lparr> yield_cb := Lthread_unlock, yield_cbarg := p \<rparr>"
  have v0: "views ?w0 = (views (world \<sigma>))(p \<mapsto> (view lt) \<lparr> v_busy := True, v_join := c \<rparr>)" by (simp add: lt_simps)
  have v1: "views w1 = views ?w0" using views_Some [OF lt1] by (simp add: w1 views_simps(1) view_other fun_upd_idem)
  have t1: "threads w1 c = Some ?lt1" by (simp add: w1 lt_simps)
  have "view lt1 = view lc0 \<or> view lt1 = (view lt) \<lparr> v_busy := True, v_join := c \<rparr> \<and> c = p"
    using views_Some [OF lt1] views_Some [OF c0(1)] by (auto simp: v0 split: if_splits)
  then have "\<not> flag ?lt1 LT_ST_TERMINATE" "\<not> flag ?lt1 LT_ST_EXITED"
    using c0 lt(1) by (auto simp: flag_def lt_simps view_def)
  from resume_end_live [OF e t1 this] obtain w2 where 2: "views w2 = views w1" "fut w2 = fut w1"
      "current_lthread w2 = (current_lthread w1)(s := 0)" "lthread_unlock p w2 = Inr w'"
    by (auto simp: call_yield_cb_def)
  then obtain lt2 where "threads w2 p = Some lt2" and w': "w' = store p (clear LT_ST_BUSY lt2) w2"
    by (auto simp: lthread_unlock_Inr)
  then have "view lt2 = (view lt) \<lparr> v_busy := True, v_join := c \<rparr>"
    using views_Some [of w2 p lt2] by (simp add: 2 v1 v0)
  moreover have "(view lt) \<lparr> v_join := c, v_busy := False \<rparr> = (view lt) \<lparr> v_join := c \<rparr>" using lt(3) by (simp add: view_def)
  ultimately have vs: "views w' = (views (world \<sigma>))(p \<mapsto> (view lt) \<lparr> v_join := c \<rparr>)"
    by (simp add: w' views_simps(1) view_flags 2 v1 v0)
  have st: "places w' (loc(c := Joining p))" "loc p \<noteq> Gone" "loc p \<noteq> Exited" "\<And>q. loc q \<noteq> Joining p"
    by (rule step_join [OF P lc [THEN conjunct1] vp _ _ vs];
        use lt in \<open>simp add: view_def w' lt_simps 2 w1\<close>)+
  have "joins_ok (\<sigma> \<lparr> world := w', joining := (joining \<sigma>)(c := Some p) \<rparr>) (loc(c := Joining p))"
  proof (rule joinsI)
    fix d q assume "joining (\<sigma> \<lparr> world := w', joining := (joining \<sigma>)(c := Some p) \<rparr>) d = Some q"
    then show "(loc(c := Joining p)) d = Joining q \<or> (loc(c := Joining p)) q = Exited \<and>
        ((loc(c := Joining p)) d = Queued \<or> (\<exists>s. (loc(c := Joining p)) d = Running s))"
      using joinsD(1) [OF J, of d q] lc by (auto split: if_splits)
  next
    fix d q assume "(loc(c := Joining p)) d = Joining q"
    then show "joining (\<sigma> \<lparr> world := w', joining := (joining \<sigma>)(c := Some p) \<rparr>) d = Some q"
      using joinsD(2) [OF J, of d q] by (auto split: if_splits)
  next
    fix d q u assume "joining (\<sigma> \<lparr> world := w', joining := (joining \<sigma>)(c := Some p) \<rparr>) d = Some q"
      "views (world (\<sigma> \<lparr> world := w', joining := (joining \<sigma>)(c := Some p) \<rparr>)) q = Some u"
    then show "\<not> v_detach u"
      using joinsD(4) [OF J, of d q] lt(4) nj [of d] by (auto simp: vs view_def split: if_splits)
  qed (use nj joinsD(3) [OF J] in \<open>auto split: if_splits\<close>)
  then show ?thesis using st life_join [of loc c s p] lc by (auto simp: placed_in_def)
qed

lemma sim_start:
  assumes "lt_boot main \<sigma>"
  shows "placed_in \<sigma> ((\<lambda>_. Gone)(main := Queued))"
proof -
  obtain lt where lt: "threads (world \<sigma>) = [main \<mapsto> lt]" "lt_join lt = 0"
      "\<forall>n \<in> {LT_ST_EXITED, LT_ST_BUSY, LT_ST_SLEEPING, LT_ST_TERMINATE}. \<not> flag lt n"
    and b: "main \<noteq> 0" "joining \<sigma> = (\<lambda>_. None)" "current_lthread (world \<sigma>) = (\<lambda>_. 0)" "futex_inv (fut (world \<sigma>))"
      "futex_queues (fut (world \<sigma>)) = []" "run_queue (fut (world \<sigma>)) = [main]"
    using assms unfolding lt_boot_def by blast
  have v: "views (world \<sigma>) = [main \<mapsto> view lt]" by (auto simp: views_def lt(1))
  have "at_place (world \<sigma>) p X \<longleftrightarrow> ((\<lambda>_. Gone)(main := Queued)) p = X" for p X
    using lt(2,3) b by (cases X) (auto simp: v view_def)
  moreover have "sane (world \<sigma>)" using lt(2,3) b by (simp add: sane_def v view_def)
  ultimately show ?thesis using b by (simp add: placed_in_def places_def joins_ok_def)
qed

lemma sim_create:
  assumes R: "placed_in \<sigma> loc" and ok: "attr_ok attrp"
    and new: "\<And>p. alloc = Some p \<Longrightarrow> p \<noteq> 0 \<and> threads (world \<sigma>) p = None"
    and c: "lthread_create cpy alloc s attrp f arg (world \<sigma>) = Inr (r, q, w')"
  shows "\<exists>loc'. placed_in (\<sigma> \<lparr> world := w' \<rparr>) loc' \<and> (loc' = loc \<or> life loc loc')"
proof -
  consider "same_places (world \<sigma>) w'" | p where "alloc = Some p" "added p (world \<sigma>) w'"
    using lthread_create_effect [OF c ok] new by blast
  then show ?thesis
  proof cases
    case 1
    then show ?thesis using sim_same [OF R] by blast
  next
    case 2
    then show ?thesis using sim_added [OF R _ _ 2(2)] new [OF 2(1)] by (intro exI [of _ "loc(p := Queued)"]) simp
  qed
qed

lemma sim_clone:
  assumes R: "placed_in \<sigma> loc" and p: "p \<noteq> 0" "threads (world \<sigma>) p = None"
    and c: "lthread_create_primitive (Some p) ip sp tcb (world \<sigma>) = Inr (r, q, w1)"
    and t: "lthread_setspecific_remote ok q key v w1 = Inr (r', w2)" and e: "scheduler_enqueue q w2 = Inr w'"
  shows "\<exists>loc'. placed_in (\<sigma> \<lparr> world := w' \<rparr>) loc' \<and> (loc' = loc \<or> life loc loc')"
proof -
  have "added p (world \<sigma>) w'"
    using lthread_create_primitive_effect [OF c] setspecific_same [OF t] scheduler_enqueue_effect [OF e]
    by (auto simp: added_def same_places_def lt_simps)
  from sim_added [OF R p(2,1) this] show ?thesis by blast
qed

lemma sim_write:
  assumes "placed_in \<sigma> loc"
  shows "placed_in (\<sigma> \<lparr> world := (world \<sigma>) \<lparr> fut := (fut (world \<sigma>)) \<lparr> umem := m \<rparr> \<rparr> \<rparr>) loc"
proof -
  let ?w = "(world \<sigma>) \<lparr> fut := (fut (world \<sigma>)) \<lparr> umem := m \<rparr> \<rparr>"
  have "at_place ?w p X = at_place (world \<sigma>) p X" for p X by (cases X) (simp_all add: lt_simps)
  moreover have "sane ?w = sane (world \<sigma>)" by (simp add: sane_def lt_simps futex_inv_def)
  ultimately show ?thesis using assms by (simp add: placed_in_def places_def joins_ok_def lt_simps)
qed

lemma sim_found:
  "placed_in \<sigma>' a \<and> life loc a \<Longrightarrow> \<exists>a. placed_in \<sigma>' a \<and> (a = loc \<or> life loc a)"
  "placed_in \<sigma>' loc \<Longrightarrow> \<exists>a. placed_in \<sigma>' a \<and> (a = loc \<or> life loc a)"
  "\<exists>a. placed_in \<sigma>' a \<and> life loc a \<Longrightarrow> \<exists>a. placed_in \<sigma>' a \<and> (a = loc \<or> life loc a)"
  by blast+

lemma join_refused_same: "join_begin s p t w = Inr (Join_refused, w') \<Longrightarrow> same_places w w'"
  by (erule join_begin_Inr) simp_all

interpretation lthreads: simulation "lt_boot main" lt_step "life_boot main" life placed_in for main
proof
  fix \<sigma> assume "lt_boot main \<sigma>"
  then show "\<exists>a. life_boot main a \<and> placed_in \<sigma> a"
    using sim_start [of main \<sigma>] by (intro exI [of _ "(\<lambda>_. Gone)(main := Queued)"]) (simp add: life_boot_def lt_boot_def)
next
  fix \<sigma> loc \<sigma>' assume R: "placed_in \<sigma> loc" and "lt_step \<sigma> \<sigma>'"
  from this(2) show "\<exists>a'. placed_in \<sigma>' a' \<and> (a' = loc \<or> life loc a')"
  proof cases
    case dispatch
    show ?thesis unfolding dispatch(1) by (rule sim_found(1) [OF sim_dispatch [OF R dispatch(2,3)]])
  next
    case create
    show ?thesis unfolding create(1) by (rule sim_create [OF R create(3,4,5)])
  next
    case clone
    show ?thesis unfolding clone(1) by (rule sim_clone [OF R clone(3-7)])
  next
    case sleep
    show ?thesis unfolding sleep(1) by (rule sim_found(1) [OF sim_sleep [OF R sleep(2-4)]])
  next
    case wakeup
    show ?thesis unfolding wakeup(1) by (rule sim_wakeup [OF R wakeup(2)])
  next
    case futex_wait
    show ?thesis unfolding futex_wait(1) by (rule sim_found(1) [OF sim_futex_wait [OF R futex_wait(2-5)]])
  next
    case futex_wake
    show ?thesis unfolding futex_wake(1) by (rule sim_found(3) [OF sim_futex_wake [OF R futex_wake(2)]])
  next
    case poll
    show ?thesis unfolding poll(1) by (rule sim_poll [OF R poll(2)])
  next
    case user_write
    show ?thesis unfolding user_write(1) by (rule sim_found(2) [OF sim_write [OF R]])
  next
    case setspecific
    show ?thesis unfolding setspecific(1) by (rule sim_found(2) [OF sim_same [OF R setspecific_same [OF setspecific(3)]]])
  next
    case detach
    show ?thesis unfolding detach(1) by (rule sim_found(2) [OF sim_detach [OF R detach(2-4)]])
  next
    case exit
    show ?thesis unfolding exit(1) by (rule sim_found(3) [OF sim_exit [OF R exit(2-4)]])
  next
    case join_refused
    show ?thesis unfolding join_refused(1) by (rule sim_found(2) [OF sim_same [OF R join_refused_same [OF join_refused(3)]]])
  next
    case join_exited
    show ?thesis unfolding join_exited(1) by (rule sim_found(1) [OF sim_join_exited [OF R join_exited(2-5)]])
  next
    case join_wait
    show ?thesis unfolding join_wait(1) by (rule sim_found(1) [OF sim_join_wait [OF R join_wait(2-5)]])
  next
    case join_end
    show ?thesis unfolding join_end(1) by (rule sim_found(1) [OF sim_join_end [OF R join_end(2-5)]])
  qed
qed

section \<open>Dispatching and freeing, exactly\<close>

lemma dispatch_errors:
  assumes P: "places w loc" and e: "run_dispatch exec s w = Inl err"
  shows "err = Bad_access"
proof -
  obtain p q where q: "run_queue (fut w) = p # q" using e by (cases "run_queue (fut w)") (auto simp: run_dispatch_def)
  have lp: "loc p = Queued" using placesD [OF P, of p Queued] q by simp
  then obtain lt where lt: "threads w p = Some lt" using placesD [OF P, of p Gone] by (auto simp: views_def)
  note v = views_Some [OF lt]
  have f: "\<not> flag lt LT_ST_EXITED" "\<not> flag lt LT_ST_BUSY" "\<not> flag lt LT_ST_TERMINATE"
    using placesD [OF P, of p Exited] lp v P by (auto simp: view_def places_def sane_def dest!: spec [of _ p])
  let ?w = "w \<lparr> fut := (fut w) \<lparr> run_queue := q \<rparr> \<rparr>"
  have "resume_begin exec s p ?w = Inl err"
    using e q lt f by (simp add: run_dispatch_def Let_def deref_def andThen_eq_Inl)
  then have "lthread_init_stack exec p ?w = Inl err"
  proof (cases "flag lt LT_ST_NEW")
    case True
    with \<open>resume_begin exec s p ?w = Inl err\<close> lt consider "lthread_init_stack exec p ?w = Inl err"
      | w1 where "lthread_init_stack exec p ?w = Inr w1" "threads w1 p = None"
      by (auto simp: resume_begin_def deref_def Let_def andThen_eq_Inl split: option.splits)
    then show ?thesis
    proof cases
      case 2
      have "views w1 = views w" using init_stack_same [OF 2(1)] by (simp add: same_places_def lt_simps)
      moreover have "views w1 p = None" using 2(2) by (simp add: views_def)
      ultimately show ?thesis using v by simp
    qed
  qed (use lt in \<open>simp add: resume_begin_def deref_def Let_def\<close>)
  then show ?thesis
    using lt f(2)
    by (auto simp: lthread_init_stack_def lthread_lock_def lthread_unlock_def deref_def Let_def andThen_eq_Inl
        store_u64_def lt_simps split: if_splits)
qed

text \<open>The destructor calls for a list of slots.\<close>

definition destr_calls :: "lt_world \<Rightarrow> (u32 \<times> u64) list \<Rightarrow> (u64 \<times> u64) list" where
  "destr_calls w ds = map (\<lambda>(k, d). (lthread_finddestr (uint k) w, d))
     (filter (\<lambda>(k, d). d \<noteq> 0 \<and> lthread_finddestr (uint k) w \<noteq> 0) ds)"

lemma finddestr_log: "lthread_finddestr key (w \<lparr> destr_log := l \<rparr>) = lthread_finddestr key w"
  by (simp add: lthread_finddestr_def)

lemma rundestructors_loop_log: "destr_log (rundestructors_loop ds w) = destr_log w @ destr_calls w ds"
proof (induction ds w rule: rundestructors_loop.induct)
  case (2 k d ds w)
  then show ?case by (simp add: destr_calls_def finddestr_log)
qed (simp add: destr_calls_def)

definition regions_ok :: "lthread \<Rightarrow> bool" where
  "regions_ok lt \<longleftrightarrow> (itls lt \<noteq> 0 \<longrightarrow> request_ok (itls lt) (itlssz lt)) \<and>
     (lt_stack (attr lt) \<noteq> 0 \<longrightarrow> request_ok (lt_stack (attr lt)) (stack_size (attr lt)))"

lemma munmap_w_returns:
  assumes "mem_inv (emem w)" and "request_ok a n"
  shows "\<exists>m. munmap_w a n w = Inr (w \<lparr> emem := m \<rparr>) \<and> mem_inv m"
  using assms
proof (cases rule: enclave_munmap_cases)
  case fail
  then have "munmap_w a n w = Inr (w \<lparr> emem := emem w \<rparr>)" by (simp add: munmap_w_def or_spin_def)
  then show ?thesis using assms(1) by blast
next
  case (ok t)
  then show ?thesis using assms(1) by (auto simp: munmap_w_def or_spin_def mem_simps)
qed

lemma maybe_munmap:
  assumes "mem_inv (emem w)" and "b \<Longrightarrow> request_ok a n"
  shows "\<exists>m. (if b then munmap_w a n w else Inr w) = Inr (w \<lparr> emem := m \<rparr>) \<and> mem_inv m"
  using assms munmap_w_returns [of w a n] by (cases b) (auto intro!: exI [of _ "emem w"])

lemma lthread_free_returns:
  assumes lt: "threads w p = Some lt" and inv: "mem_inv (emem w)" and ok: "regions_ok lt"
  shows "\<exists>w'. lthread_free s p w = Inr w' \<and> threads w' = (threads w)(p := None) \<and> mem_inv (emem w') \<and>
    destr_log w' = destr_log w @ (if current_lthread w s \<noteq> 0 \<and> \<not> flag lt LT_ST_APP_MAIN then destr_calls w (tls lt) else [])"
proof -
  let ?b = "current_lthread w s \<noteq> 0 \<and> \<not> flag lt LT_ST_APP_MAIN"
  let ?w1 = "if ?b then store p (lt \<lparr> tls := [] \<rparr>) (rundestructors_loop (tls lt) w) else w"
  have 1: "(if ?b then lthread_rundestructors p w else Inr w) = Inr ?w1"
    using lt by (simp add: lthread_rundestructors_def deref_def)
  have "emem ?w1 = emem w" by (simp add: lt_simps rundestructors_loop_same)
  then obtain m where 2: "(if thread_type (attr lt) = LKL_KERNEL_THREAD \<and> itls lt \<noteq> 0
        then munmap_w (itls lt) (itlssz lt) ?w1 else Inr ?w1) = Inr (?w1 \<lparr> emem := m \<rparr>)" "mem_inv m"
    using maybe_munmap [of ?w1 "thread_type (attr lt) = LKL_KERNEL_THREAD \<and> itls lt \<noteq> 0" "itls lt" "itlssz lt"]
      inv ok by (auto simp: regions_ok_def)
  then obtain m' where 3: "(if lt_stack (attr lt) \<noteq> 0
        then munmap_w (lt_stack (attr lt)) (stack_size (attr lt)) (?w1 \<lparr> emem := m \<rparr>) else Inr (?w1 \<lparr> emem := m \<rparr>)) =
        Inr (?w1 \<lparr> emem := m' \<rparr>)" "mem_inv m'"
    using maybe_munmap [of "?w1 \<lparr> emem := m \<rparr>" "lt_stack (attr lt) \<noteq> 0" "lt_stack (attr lt)" "stack_size (attr lt)"]
      ok by (auto simp: regions_ok_def)
  have "lthread_free s p w = Inr (?w1 \<lparr> emem := m', threads := (threads ?w1)(p := None) \<rparr>)"
    unfolding lthread_free_def deref_def lt option.case andThen_simps 1 2(1) 3(1) by simp
  then show ?thesis
    using 3(2) by (auto simp: rundestructors_loop_log rundestructors_loop_same store_def lt_simps)
qed

lemma attr_simps [lt_simps]:
  "itls (raise n lt) = itls lt" "itlssz (raise n lt) = itlssz lt" "tls (raise n lt) = tls lt"
  "itls (clear n lt) = itls lt" "itlssz (clear n lt) = itlssz lt" "tls (clear n lt) = tls lt"
  "lt_stack (attr (raise n lt)) = lt_stack (attr lt)" "stack_size (attr (raise n lt)) = stack_size (attr lt)"
  "lt_stack (attr (clear n lt)) = lt_stack (attr lt)" "stack_size (attr (clear n lt)) = stack_size (attr lt)"
  "thread_type (attr (raise n lt)) = thread_type (attr lt)" "thread_type (attr (clear n lt)) = thread_type (attr lt)"
  by (simp_all add: raise_def clear_def set_state_def)

lemma exit_exact:
  assumes lt: "threads w p = Some lt" and f: "\<not> flag lt LT_ST_BUSY" "\<not> flag lt LT_ST_TERMINATE"
  shows "\<exists>w1 lt1 w2. exec_return p v w = Inr w1 \<and>
    resume_end s p fs0 w1 = andThen (resume_exited s p lt1 w2) (\<lambda>w3. Inr (- 1, w3)) \<and>
    threads w2 = (threads w)(p \<mapsto> lt1) \<and> yield_cbarg lt1 = v \<and> flag lt1 LT_ST_BUSY \<and> flag lt1 LT_ST_EXITED \<and>
    (\<forall>n. n \<notin> {LT_ST_BUSY, LT_ST_EXITED} \<longrightarrow> flag lt1 n = flag lt n) \<and> lt_join lt1 = lt_join lt \<and>
    regions_ok lt1 = regions_ok lt \<and> tls lt1 = tls lt \<and>
    fut w2 = fut w \<and> emem w2 = emem w \<and> destr_log w2 = destr_log w \<and>
    lthread_destructors w2 = lthread_destructors w \<and> current_lthread w2 = (current_lthread w)(s := 0)"
proof -
  let ?lt = "raise LT_ST_EXITED ((raise LT_ST_BUSY lt) \<lparr> yield_cbarg := v \<rparr>)"
  let ?w1 = "store p ?lt w"
  let ?lt1 = "if flag ?lt LT_ST_APP_MAIN \<and> thread_type (attr ?lt) = LKL_KERNEL_THREAD then ?lt \<lparr> tp := fs0 \<rparr> else ?lt"
  let ?w2 = "reset_tls_tp s ?lt1 ((store p ?lt1 ?w1) \<lparr> current_lthread := (current_lthread ?w1)(s := 0) \<rparr>)"
  have 1: "exec_return p v w = Inr ?w1"
    using lt f by (simp add: exec_return_def lthread_lock_def deref_def lt_simps)
  have fl: "\<not> flag ?lt1 LT_ST_TERMINATE" "flag ?lt1 LT_ST_EXITED" "flag ?lt1 LT_ST_BUSY" using f by (simp_all add: lt_simps)
  have 2: "resume_end s p fs0 ?w1 = andThen (resume_exited s p ?lt1 ?w2) (\<lambda>w3. Inr (- 1, w3))"
    unfolding resume_end_def deref_def Let_def using fl by (simp add: lt_simps)
  have "regions_ok ?lt1 = regions_ok lt" by (simp add: regions_ok_def lt_simps)
  moreover have "flag ?lt1 n = flag lt n" if "n \<notin> {LT_ST_BUSY, LT_ST_EXITED}" for n using that by (simp add: lt_simps)
  ultimately show ?thesis
    using 1 2 fl(2,3)
    by (intro exI [of _ ?w1] exI [of _ ?lt1] exI [of _ ?w2] conjI allI impI)
       (simp_all add: lt_simps reset_tls_tp_def store_def)
qed

lemma resume_exited_joined:
  assumes lt: "threads w p = Some lt" "flag lt LT_ST_BUSY" "\<not> flag lt LT_ST_DETACH" and c: "lt_join lt = c" "c \<noteq> 0" "c \<noteq> p"
    and lc: "threads w c = Some lc" "\<not> flag lc LT_ST_EXITED"
  shows "resume_exited s p lt w = Inr (w \<lparr> threads := (threads w)(p \<mapsto> clear LT_ST_BUSY (lt \<lparr> lt_join := 0 \<rparr>)),
    fut := (fut w) \<lparr> run_queue := run_queue (fut w) @ [c] \<rparr>, current_lthread := (current_lthread w)(s := 0) \<rparr>)"
  using assms
  by (simp add: resume_exited_def scheduler_enqueue_def deref_def lthread_unlock_def lt_simps) (simp add: store_def)

lemma resume_exited_detached:
  assumes lt: "threads w p = Some lt" "flag lt LT_ST_BUSY" "flag lt LT_ST_DETACH" "lt_join lt = 0"
    and cur: "current_lthread w s = 0" and inv: "mem_inv (emem w)" and ok: "regions_ok lt"
  shows "\<exists>w'. resume_exited s p lt w = Inr w' \<and> threads w' = (threads w)(p := None) \<and> destr_log w' = destr_log w"
proof -
  let ?w = "store p (clear LT_ST_BUSY lt) w"
  have "threads ?w p = Some (clear LT_ST_BUSY lt)" "mem_inv (emem ?w)" "regions_ok (clear LT_ST_BUSY lt)"
    using inv ok by (simp_all add: lt_simps regions_ok_def)
  from lthread_free_returns [OF this, of s] obtain w' where
    "lthread_free s p ?w = Inr w'" "threads w' = (threads w)(p := None)" "destr_log w' = destr_log w"
    using cur by (auto simp: lt_simps store_def)
  then show ?thesis
    using lt by (simp add: resume_exited_def lthread_unlock_def deref_def lt_simps)
qed

lemma set_slot_find:
  "find (\<lambda>(k, _). uint k = key) ds = Some x \<Longrightarrow>
   find (\<lambda>(k, _). uint k = key) (set_slot key v ds) = Some (word_of_int key, v)"
  by (induction key v ds rule: set_slot.induct) (auto split: if_splits)

lemma set_slot_other:
  "key' \<noteq> key \<Longrightarrow> find (\<lambda>(k, _). uint k = key') (set_slot key v ds) = find (\<lambda>(k, _). uint k = key') ds"
  by (induction key v ds rule: set_slot.induct) auto

section \<open>Properties\<close>




text \<open>
  C36: thread-specific data is a map. After a successful set the same key reads the value back, every
  other key and every other thread reads as before; a failed set (no memory for a slot) changes nothing
  and returns \<open>ENOMEM\<close>; a set of an existing slot never fails.
\<close>

theorem tls_set_get:
  assumes "threads w p = Some lt" and "0 \<le> key" "key < 2 ^ 32"
  shows "\<exists>r w'. lthread_setspecific_remote ok p key v w = Inr (r, w') \<and>
    (r = 0 \<longrightarrow> lthread_getspecific_remote p key w' = Inr v \<and>
      (\<forall>key'. key' \<noteq> key \<longrightarrow> lthread_getspecific_remote p key' w' = lthread_getspecific_remote p key' w)) \<and>
    (r \<noteq> 0 \<longrightarrow> r = 12 \<and> \<not> ok \<and> threads w' = threads w) \<and>
    (\<forall>q. q \<noteq> p \<longrightarrow> threads w' q = threads w q) \<and> (ok \<or> lthread_findtlsslot lt key \<noteq> None \<longrightarrow> r = 0)"
proof -
  have k: "uint (word_of_int key :: u32) = key" using assms(2,3) by (simp add: uint_word_of_int)
  show ?thesis
  proof (cases "lthread_findtlsslot lt key")
    case None
    then have "find (\<lambda>(k, _). uint k = key) (tls lt) = None" by (simp add: lthread_findtlsslot_def)
    then show ?thesis
      using assms(1) None k
      by (cases ok) (auto simp: lthread_setspecific_remote_def lthread_addtlsslot_def lthread_getspecific_remote_def
          deref_def lt_simps lthread_findtlsslot_def)
  next
    case (Some x)
    then show ?thesis
      using assms(1) set_slot_find [of key "tls lt" x v] set_slot_other [of _ key v "tls lt"]
      by (auto simp: lthread_setspecific_remote_def lthread_getspecific_remote_def deref_def lt_simps
          lthread_findtlsslot_def)
  qed
qed

text \<open>
  C37: when a detached thread exits, \<^verbatim>\<open>_lthread_resume\<close> frees it before \<^verbatim>\<open>lthread_run\<close> reads its state
  again, which is then an access to freed memory; and since the scheduler has already cleared its
  current thread, the TLS destructors of a detached thread are never called.
\<close>

theorem lthread_detached_use_after_free:
  assumes "threads w p = Some lt" "\<not> flag lt LT_ST_BUSY" "\<not> flag lt LT_ST_TERMINATE" "flag lt LT_ST_DETACH" "lt_join lt = 0"
    and "mem_inv (emem w)" "regions_ok lt"
  shows "\<exists>w1 w2. exec_return p v w = Inr w1 \<and> resume_end s p fs0 w1 = Inr (- 1, w2) \<and> threads w2 p = None \<and>
    destr_log w2 = destr_log w \<and> run_return exit_status s p fs0 w1 = Inl Use_after_free"
proof -
  from exit_exact [OF assms(1-3), of v s fs0] obtain w1 lt1 w2 where 1: "exec_return p v w = Inr w1"
    and 2: "resume_end s p fs0 w1 = andThen (resume_exited s p lt1 w2) (\<lambda>w3. Inr (- 1, w3))"
    and lt1: "threads w2 = (threads w)(p \<mapsto> lt1)" "flag lt1 LT_ST_BUSY" "lt_join lt1 = lt_join lt"
      "\<forall>n. n \<notin> {LT_ST_BUSY, LT_ST_EXITED} \<longrightarrow> flag lt1 n = flag lt n" "regions_ok lt1 = regions_ok lt"
    and w2: "emem w2 = emem w" "destr_log w2 = destr_log w" "current_lthread w2 = (current_lthread w)(s := 0)"
    by blast
  have "\<exists>w'. resume_exited s p lt1 w2 = Inr w' \<and> threads w' = (threads w2)(p := None) \<and> destr_log w' = destr_log w2"
    by (rule resume_exited_detached) (use assms lt1 w2 in auto)
  then obtain w3 where 3: "resume_end s p fs0 w1 = Inr (- 1, w3)" "threads w3 p = None" "destr_log w3 = destr_log w"
    using 2 w2 by auto
  then have "run_return exit_status s p fs0 w1 = Inl Use_after_free" by (simp add: run_return_def deref_def)
  with 1 3 show ?thesis by blast
qed

text \<open>
  C38: \<^verbatim>\<open>lthread_create\<close> compares the TLS mapping with \<^verbatim>\<open>MAP_FAILED\<close>, which \<^verbatim>\<open>enclave_mmap\<close> never returns:
  when the stack could be mapped and the TLS image could not, it writes through the negated error
  number instead of returning -1.
\<close>

theorem lthread_create_tls_failure:
  assumes "sched_stack_size w s = sz"
    and "enclave_mmap 0 sz False 3 True (emem w) = Some (stk, m1)" "0 \<le> sint stk"
    and "enclave_mmap 0 64 False 3 True m1 = Some (- 12, m2)"
  shows "lthread_create strncpy_s (Some p) s None f arg w = Inl Bad_access"
  using assms
  by (simp add: lthread_create_def create_stack_def mmap_rw_def or_spin_def lt_simps create_tls_def init_tp_def Let_def
      deref_def store_u64_def)

section \<open>Witnesses\<close>

text \<open>
  A small world: thread 1 is ready and joins thread 2 in the second variant, thread 2 has one TLS slot
  with a registered destructor.
\<close>

definition sample_thread :: "u32 \<Rightarrow> nat \<Rightarrow> lthread" where
  "sample_thread st j = lthread_zero \<lparr> attr := (attr lthread_zero) \<lparr> lt_state := st \<rparr>, lt_join := j, tls := [(0, 5)] \<rparr>"

definition sample_world :: "(nat \<Rightarrow> lthread option) \<Rightarrow> nat list \<Rightarrow> (nat \<Rightarrow> nat) \<Rightarrow> enclave_mem \<Rightarrow> lt_world" where
  "sample_world th q cur m = \<lparr> threads = th,
     fut = \<lparr> futex_queues = [], futex_sleepers = 0, futex_locked = False, umem = (\<lambda>_. 0), lt_err = (\<lambda>_. 0), run_queue = q \<rparr>,
     emem = m, current_lthread = cur, sched_stack_size = (\<lambda>_. 4096), sched_tp = (\<lambda>_. 64), fsbase = (\<lambda>_. 64),
     terminating_scheduler = None, spawned_lthreads = 3, cloned = 0, lthread_destructors = [(0, 77)], global_count = 1,
     destr_log = [] \<rparr>"

definition sample_system :: lt_system where
  "sample_system = \<lparr> world = sample_world [1 \<mapsto> sample_thread 2 0] [1] (\<lambda>_. 0) (sample_used 0), joining = (\<lambda>_. None) \<rparr>"

lemma sample_flags: "flag (sample_thread st j) n = bit st n" "lt_join (sample_thread st j) = j"
  "tls (sample_thread st j) = [(0, 5)]" "regions_ok (sample_thread st j)"
  by (simp_all add: flag_bit state_of_def sample_thread_def regions_ok_def lthread_zero_def)

lemma bits_2: "\<not> bit (2 :: u32) 0" "\<not> bit (2 :: u32) 2" "\<not> bit (2 :: u32) 3" "\<not> bit (2 :: u32) 4" "\<not> bit (2 :: u32) 9"
    "\<not> bit (2 :: u32) 6" "\<not> bit (2 :: u32) 8" "bit (66 :: u32) 6" "\<not> bit (66 :: u32) 3" "\<not> bit (66 :: u32) 9"
  by (simp_all add: bit_iff_odd)

lemma sample_boot: "lt_boot 1 sample_system"
  unfolding lt_boot_def sample_system_def
  by (auto simp: sample_world_def futex_inv_def sample_flags bits_2 intro!: exI [of _ "sample_thread 2 0"])

lemma sample_start: "reachable (lt_boot 1) lt_step sample_system"
  by (rule reachable.start) (rule sample_boot)

lemma sample_dispatched:
  "\<exists>w'. run_dispatch 0 0 (world sample_system) = Inr (Some 1, w') \<and> current_lthread w' 0 = 1"
  by (simp add: run_dispatch_def sample_system_def sample_world_def deref_def sample_flags bits_2 resume_begin_def Let_def)
     (simp add: store_def set_tls_tp_def sample_thread_def lthread_zero_def)




theorem tls_set_get_witness:
  "\<exists>r w'. lthread_setspecific_remote True 1 0 9 (world sample_system) = Inr (r, w') \<and>
     lthread_getspecific_remote 1 0 w' = Inr 9"
  using tls_set_get [of "world sample_system" 1 "sample_thread 2 0" 0 True 9]
  by (auto simp: sample_system_def sample_world_def)

theorem lthread_detached_use_after_free_witness:
  "\<exists>w1. exec_return 1 0 (sample_world [1 \<mapsto> sample_thread 66 0] [] (\<lambda>_. 1) (sample_used 0)) = Inr w1 \<and>
     run_return 0 0 1 0 w1 = Inl Use_after_free"
  using lthread_detached_use_after_free
    [of "sample_world [1 \<mapsto> sample_thread 66 0] [] (\<lambda>_. 1) (sample_used 0)" 1 "sample_thread 66 0" 0 0 0 0]
  by (simp add: sample_flags bits_2) (auto simp: sample_world_def sample_used_inv)

lemma sample_tls_full:
  "\<exists>m2. enclave_mmap 0 64 False 3 True (mmap_trace (mapped_state 4096 4096 5 1 3 True 0 (sample_used 31))) = Some (- 12, m2)"
    (is "\<exists>m2. enclave_mmap _ _ _ _ _ ?m = _")
proof -
  have inv: "mem_inv ?m" using sample_used_inv [of 31] by (simp add: mem_simps)
  have req: "request_ok 0 64" by (simp add: request_ok_def)
  have bm: "mmap_bitmap ?m = [63]" by (simp add: mem_simps sample_fields) code_simp
  have "\<not> free_run [63] t 1" if "t < 6" for t
  proof -
    have "t \<in> {0, 1, 2, 3, 4, 5}" using that by auto
    then show ?thesis by (auto simp: free_run_def bitmap_test_def bit_iff_odd)
  qed
  moreover have "npages_of ?m = 6" by (simp add: npages_of_def mem_simps sample_used_def sample_mem_def)
  moreover have "req_pages 64 = 1" by (simp add: req_pages_def)
  ultimately have nf: "\<not> fits False 0 64 t ?m" if "t + req_pages 64 \<le> npages_of ?m" for t
    using that by (simp only: fits_def bm if_False) simp
  from inv req show ?thesis
    by (cases rule: enclave_mmap_cases [where fixed = False and prot = 3 and zero_pages = True]) (use nf in auto)
qed

theorem lthread_create_tls_failure_witness:
  "lthread_create (\<lambda>f. f) (Some 5) 0 None 0 0 (sample_world [1 \<mapsto> sample_thread 2 0] [] (\<lambda>_. 1) (sample_used 31)) = Inl Bad_access"
proof -
  obtain m2 where m2: "enclave_mmap 0 64 False 3 True (mmap_trace (mapped_state 4096 4096 5 1 3 True 0 (sample_used 31))) = Some (- 12, m2)"
    using sample_tls_full by blast
  show ?thesis
    by (rule lthread_create_tls_failure [OF _ _ _ m2, of _ _ 4096 4096])
      (simp_all add: sample_world_def sample_last)
qed

end
