(* ===== verification/Lkl_Sync.thy ===== *)
theory Lkl_Sync
  imports Futex
begin

text \<open>
  The semaphores and mutexes that \<^verbatim>\<open>src/src/lkl/posix-host.c\<close> gives to the Linux kernel library, built
  on the futexes of \<^verbatim>\<open>src/src/sched/futex.c\<close>. Any number of threads run \<open>sem_up\<close>, \<open>sem_down\<close>,
  \<open>mutex_lock\<close> and \<open>mutex_unlock\<close> at the same time; a step is one atomic access or one futex call, and the
  program counters say where in these functions a thread is. The word that the threads sleep on is in
  the user memory of the futex state. A weak compare-and-exchange may fail although the value
  agrees.
\<close>

section \<open>Sleeping on a word\<close>

abbreviation (input) INT_MAX :: u32 where "INT_MAX \<equiv> 0x7FFFFFFF"

definition set_word :: "u64 \<Rightarrow> u32 \<Rightarrow> futex_state \<Rightarrow> futex_state" where
  "set_word a v s = s \<lparr> umem := (umem s)(a := v) \<rparr>"

text \<open>A woken thread that gets to run leaves the run queue.\<close>

definition dispatch :: "nat \<Rightarrow> futex_state \<Rightarrow> futex_state" where
  "dispatch t s = s \<lparr> run_queue := remove1 t (run_queue s) \<rparr>"

definition sleeping :: "futex_state \<Rightarrow> nat set" where
  "sleeping s = futex_lt ` set (futex_queues s)"

text \<open>
  The sleepers of a futex state that only the word at \<open>a\<close> is slept on, and the threads that have been
  woken and not yet run.
\<close>

definition word_inv :: "u64 \<Rightarrow> nat \<Rightarrow> futex_state \<Rightarrow> bool" where
  "word_inv a n s \<longleftrightarrow> futex_inv s \<and> distinct (run_queue s) \<and> sleeping s \<subseteq> {..<n} \<and>
     (\<forall>e \<in> set (futex_queues s). futex_key e = to_futex_key a)"

lemma set_word_fields [sched_simps]:
  "umem (set_word a v s) = (umem s)(a := v)" "run_queue (set_word a v s) = run_queue s"
  "sleeping (set_word a v s) = sleeping s" "word_inv b n (set_word a v s) = word_inv b n s"
  by (simp_all add: set_word_def sleeping_def word_inv_def futex_inv_def)

lemma dispatch_fields [sched_simps]:
  "umem (dispatch t s) = umem s" "run_queue (dispatch t s) = remove1 t (run_queue s)" "sleeping (dispatch t s) = sleeping s"
  by (simp_all add: dispatch_def sleeping_def)

lemma dispatch_inv: "word_inv a n s \<Longrightarrow> word_inv a n (dispatch t s)"
  by (auto simp: word_inv_def futex_inv_def dispatch_def sleeping_def dest: notin_set_remove1)

lemma word_inv_asleep: "word_inv a n s \<Longrightarrow> t \<in> sleeping s \<Longrightarrow> t \<notin> set (run_queue s)"
  by (auto simp: word_inv_def futex_inv_def sleeping_def)

lemma word_wait_sleeps:
  assumes "word_inv a n s" and "t \<notin> sleeping s" and "t \<notin> set (run_queue s)" and "t < n" and "umem s a = v"
  shows "\<exists>s'. enclave_futex_wait t a v now s = Some (Inr s') \<and> word_inv a n s' \<and>
    sleeping s' = insert t (sleeping s) \<and> run_queue s' = run_queue s \<and> umem s' = umem s"
proof -
  have "futex_inv s" "t \<notin> futex_lt ` set (futex_queues s)" using assms(1,2) by (auto simp: word_inv_def sleeping_def)
  from futex_wait_inv [OF this assms(3,5), where ts = None and now = now] show ?thesis
    using assms(1,4) by (auto simp: enclave_futex_wait_def word_inv_def sleeping_def)
qed

lemma word_wait_returns:
  assumes "word_inv a n s" and "umem s a \<noteq> v"
  shows "enclave_futex_wait t a v now s = Some (Inl (- EAGAIN, s))"
  using assms unlocked_same [of s]
  by (auto simp: enclave_futex_wait_def enclave_futex_timedwait_def word_inv_def inv_lock futex_unlock_def futex_inv_def)

lemma word_wake_all:
  assumes "word_inv a n s" and "n \<le> unat INT_MAX"
  shows "\<exists>w s'. enclave_futex_wake a INT_MAX s = Some (w, s') \<and> word_inv a n s' \<and>
    sleeping s' = {} \<and> set (run_queue s') = set (run_queue s) \<union> sleeping s \<and> umem s' = umem s"
proof -
  let ?q = "futex_queues s"
  have inv: "futex_inv s" and d: "distinct (map futex_lt ?q)" "distinct ?q"
    using assms(1) inv_distinct by (auto simp: word_inv_def futex_inv_def)
  have "length ?q = card (sleeping s)" using distinct_card [OF d(1)] by (simp add: sleeping_def)
  also have "\<dots> \<le> n" using assms(1) card_mono [of "{..<n}" "sleeping s"] by (simp add: word_inv_def)
  finally have "length ?q \<le> unat INT_MAX" using assms(2) by linarith
  moreover have "filter (\<lambda>e. futex_key e = to_futex_key a) ?q = ?q" using assms(1) by (auto simp: word_inv_def filter_id_conv)
  ultimately have c: "chosen (to_futex_key a) (unat INT_MAX) ?q = ?q" by (simp add: chosen_def)
  let ?s' = "wake_all FUTEX_NONE ?q s"
  have "futex_inv ?s'" using wake_all_inv [OF inv _ d(2)] by simp
  moreover have "futex_queues ?s' = []" using d by (simp add: sched_simps)
  moreover have "distinct (run_queue ?s')"
    using assms(1) d by (auto simp: sched_simps word_inv_def futex_inv_def)
  ultimately show ?thesis
    using enclave_futex_wake_result [OF inv, of a INT_MAX] c
    by (auto simp: word_inv_def sleeping_def sched_simps)
qed

text \<open>The same facts, from the result of the call.\<close>

lemma word_waitD:
  assumes "word_inv a n s" and "t \<notin> sleeping s" and "t \<notin> set (run_queue s)" and "t < n"
  shows "enclave_futex_wait t a v now s = Some (Inr s') \<Longrightarrow> umem s a = v \<and> word_inv a n s' \<and>
      sleeping s' = insert t (sleeping s) \<and> run_queue s' = run_queue s \<and> umem s' = umem s"
    and "enclave_futex_wait t a v now s = Some (Inl (e, s')) \<Longrightarrow> umem s a \<noteq> v \<and> s' = s"
  using word_wait_sleeps [OF assms, of v now] word_wait_returns [OF assms(1), of v t now] by auto

lemma word_wakeD:
  assumes "word_inv a n s" and "n \<le> unat INT_MAX" and "enclave_futex_wake a INT_MAX s = Some (w, s')"
  shows "word_inv a n s' \<and> sleeping s' = {} \<and> set (run_queue s') = set (run_queue s) \<union> sleeping s \<and> umem s' = umem s"
  using word_wake_all [OF assms(1,2)] assms(3) by auto

section \<open>Semaphores\<close>

text \<open>
  Where a thread is in \<open>sem_up\<close> or \<open>sem_down\<close>: about to load the count, about to test and decrement the
  value it has loaded, about to sleep, asleep (or woken and not yet running), about to wake the others.
  The numbers of completed calls are ghost variables.
\<close>

datatype sem_pc = SIdle | DownLoad | DownTry u32 | DownWait | DownSleep | UpWake

record sem_sys =
  sem_fx :: futex_state
  sem_pcs :: "nat \<Rightarrow> sem_pc"
  ups :: nat
  downs :: nat

definition sem_goto :: "nat \<Rightarrow> sem_pc \<Rightarrow> sem_sys \<Rightarrow> sem_sys" where
  "sem_goto t c s = s \<lparr> sem_pcs := (sem_pcs s)(t := c) \<rparr>"

definition sem_alloc :: "u64 \<Rightarrow> u32 \<Rightarrow> sem_sys \<Rightarrow> bool" where
  "sem_alloc sem count s \<longleftrightarrow> umem (sem_fx s) sem = count \<and> futex_queues (sem_fx s) = [] \<and> run_queue (sem_fx s) = [] \<and>
     futex_sleepers (sem_fx s) = 0 \<and> \<not> futex_locked (sem_fx s) \<and> sem_pcs s = (\<lambda>_. SIdle) \<and> ups s = 0 \<and> downs s = 0"

text \<open>The atomic increment of \<open>sem_up\<close>, and the successful decrement of \<open>sem_down\<close>.\<close>

definition sem_increment :: "u64 \<Rightarrow> nat \<Rightarrow> sem_sys \<Rightarrow> sem_sys" where
  "sem_increment sem t s =
     (let c = umem (sem_fx s) sem
      in sem_goto t (if c = 0 then UpWake else SIdle) (s \<lparr> sem_fx := set_word sem (c + 1) (sem_fx s), ups := ups s + 1 \<rparr>))"

definition sem_decrement :: "u64 \<Rightarrow> nat \<Rightarrow> u32 \<Rightarrow> sem_sys \<Rightarrow> sem_sys" where
  "sem_decrement sem t c s =
     sem_goto t SIdle (s \<lparr> sem_fx := set_word sem (c - 1) (sem_fx s), downs := downs s + 1 \<rparr>)"

inductive sem_step :: "u64 \<Rightarrow> nat \<Rightarrow> sem_sys \<Rightarrow> sem_sys \<Rightarrow> bool" for sem n where
  up: "t < n \<Longrightarrow> sem_pcs s t = SIdle \<Longrightarrow> sem_step sem n s (sem_increment sem t s)"
| up_wake: "sem_pcs s t = UpWake \<Longrightarrow> enclave_futex_wake sem INT_MAX (sem_fx s) = Some (w, fx) \<Longrightarrow>
    sem_step sem n s (sem_goto t SIdle (s \<lparr> sem_fx := fx \<rparr>))"
| down: "t < n \<Longrightarrow> sem_pcs s t = SIdle \<Longrightarrow> sem_step sem n s (sem_goto t DownLoad s)"
| down_load: "sem_pcs s t = DownLoad \<Longrightarrow> sem_step sem n s (sem_goto t (DownTry (umem (sem_fx s) sem)) s)"
| down_zero: "sem_pcs s t = DownTry 0 \<Longrightarrow> sem_step sem n s (sem_goto t DownWait s)"
| down_take: "sem_pcs s t = DownTry c \<Longrightarrow> c \<noteq> 0 \<Longrightarrow> umem (sem_fx s) sem = c \<Longrightarrow>
    sem_step sem n s (sem_decrement sem t c s)"
| down_fail: "sem_pcs s t = DownTry c \<Longrightarrow> c \<noteq> 0 \<Longrightarrow>
    sem_step sem n s (sem_goto t (DownTry (umem (sem_fx s) sem)) s)"
| down_sleep: "sem_pcs s t = DownWait \<Longrightarrow> enclave_futex_wait t sem 0 now (sem_fx s) = Some (Inr fx) \<Longrightarrow>
    sem_step sem n s (sem_goto t DownSleep (s \<lparr> sem_fx := fx \<rparr>))"
| down_no_sleep: "sem_pcs s t = DownWait \<Longrightarrow> enclave_futex_wait t sem 0 now (sem_fx s) = Some (Inl (e, fx)) \<Longrightarrow>
    sem_step sem n s (sem_goto t DownLoad (s \<lparr> sem_fx := fx \<rparr>))"
| down_woken: "sem_pcs s t = DownSleep \<Longrightarrow> t \<in> set (run_queue (sem_fx s)) \<Longrightarrow>
    sem_step sem n s (sem_goto t DownLoad (s \<lparr> sem_fx := dispatch t (sem_fx s) \<rparr>))"

lemma sem_goto_fields [sched_simps]:
  "sem_fx (sem_goto t c s) = sem_fx s" "sem_pcs (sem_goto t c s) = (sem_pcs s)(t := c)"
  "ups (sem_goto t c s) = ups s" "downs (sem_goto t c s) = downs s"
  by (simp_all add: sem_goto_def)

text \<open>The invariant: the threads' places agree with the futex, the count is what the calls leave.\<close>

definition sem_places :: "u64 \<Rightarrow> nat \<Rightarrow> sem_sys \<Rightarrow> bool" where
  "sem_places sem n s \<longleftrightarrow> word_inv sem n (sem_fx s) \<and> (\<forall>t. sem_pcs s t \<noteq> SIdle \<longrightarrow> t < n) \<and>
     (\<forall>t. sem_pcs s t = DownSleep \<longleftrightarrow> t \<in> sleeping (sem_fx s) \<union> set (run_queue (sem_fx s)))"

definition sem_count :: "u64 \<Rightarrow> u32 \<Rightarrow> sem_sys \<Rightarrow> bool" where
  "sem_count sem count s \<longleftrightarrow> (unat count + ups s < 2 ^ 32 \<longrightarrow>
     downs s \<le> unat count + ups s \<and> unat (umem (sem_fx s) sem) = unat count + ups s - downs s)"

definition sem_waking :: "u64 \<Rightarrow> sem_sys \<Rightarrow> bool" where
  "sem_waking sem s \<longleftrightarrow> sleeping (sem_fx s) = {} \<or> umem (sem_fx s) sem = 0 \<or> (\<exists>t. sem_pcs s t = UpWake)"

definition sem_inv :: "u64 \<Rightarrow> nat \<Rightarrow> u32 \<Rightarrow> sem_sys \<Rightarrow> bool" where
  "sem_inv sem n count s \<longleftrightarrow> sem_places sem n s \<and> sem_count sem count s \<and> sem_waking sem s"

lemma sem_count_same:
  "umem (sem_fx s') sem = umem (sem_fx s) sem \<Longrightarrow> ups s' = ups s \<Longrightarrow> downs s' = downs s \<Longrightarrow>
     sem_count sem count s' = sem_count sem count s"
  by (simp add: sem_count_def)

lemma sem_count_increment:
  assumes "sem_count sem count s"
  shows "sem_count sem count (sem_increment sem t s)"
proof -
  have "unat (umem (sem_fx s) sem + 1) = unat (umem (sem_fx s) sem) + 1" if "unat count + Suc (ups s) < 2 ^ 32"
    using assms that by (intro trans [OF unat_add_small]) (auto simp: sem_count_def)
  then show ?thesis using assms by (auto simp: sem_count_def sem_increment_def Let_def sched_simps)
qed

lemma sem_count_decrement:
  assumes "sem_count sem count s" and "umem (sem_fx s) sem = c" and "c \<noteq> 0"
  shows "sem_count sem count (sem_decrement sem t c s)"
proof -
  have "1 \<le> c" using assms(3) by (simp add: word_le_nat_alt unat_gt_0 Suc_leI)
  then have "unat (c - 1) = unat c - 1" by (simp add: unat_sub_small)
  moreover have "0 < unat c" using assms(3) by (simp add: unat_gt_0)
  ultimately show ?thesis using assms(1,2) by (auto simp: sem_count_def sem_decrement_def sched_simps)
qed

lemma sem_waking_goto:
  assumes "sem_waking sem s" and "sem_pcs s t \<noteq> UpWake" and "sleeping (sem_fx s') \<subseteq> sleeping (sem_fx s)"
    and "umem (sem_fx s) sem = 0 \<Longrightarrow> umem (sem_fx s') sem = 0 \<or> c = UpWake" and "sem_pcs s' = (sem_pcs s)(t := c)"
  shows "sem_waking sem s'"
proof -
  consider "sleeping (sem_fx s) = {}" | "umem (sem_fx s) sem = 0" | u where "sem_pcs s u = UpWake"
    using assms(1) by (auto simp: sem_waking_def)
  then show ?thesis
  proof cases
    case 2
    then have "umem (sem_fx s') sem = 0 \<or> sem_pcs s' t = UpWake" using assms(4,5) by auto
    then show ?thesis unfolding sem_waking_def by blast
  next
    case (3 u)
    then have "sem_pcs s' u = UpWake" using assms(2,5) by auto
    then show ?thesis unfolding sem_waking_def by blast
  qed (use assms(3) in \<open>simp add: sem_waking_def\<close>)
qed

lemma sem_running: "sem_inv sem n count s \<Longrightarrow> sem_pcs s t \<noteq> SIdle \<Longrightarrow> t < n"
  by (simp add: sem_inv_def sem_places_def)

lemma sem_awake:
  "sem_inv sem n count s \<Longrightarrow> sem_pcs s t \<noteq> DownSleep \<Longrightarrow> t \<notin> sleeping (sem_fx s) \<and> t \<notin> set (run_queue (sem_fx s))"
  by (auto simp: sem_inv_def sem_places_def)

lemma sem_goto_awake:
  assumes "sem_inv sem n count s" and "sem_pcs s t \<noteq> DownSleep" and "c \<noteq> DownSleep" and "sem_pcs s t \<noteq> UpWake" and "t < n"
  shows "sem_inv sem n count (sem_goto t c s)"
proof -
  have "sem_waking sem (sem_goto t c s)"
    using assms(1,4) by (auto simp: sem_inv_def sem_waking_def sched_simps)
  moreover have "sem_places sem n (sem_goto t c s)" using assms by (auto simp: sem_inv_def sem_places_def sched_simps)
  ultimately show ?thesis using assms(1) sem_count_same [of "sem_goto t c s"] by (simp add: sem_inv_def sched_simps)
qed

text \<open>Steps that change only the word and the place of a thread that is awake before and after.\<close>

lemma sem_places_word:
  assumes "sem_inv sem n count s" and "sem_pcs s t \<noteq> DownSleep" and "c \<noteq> DownSleep" and "t < n"
    and "sem_fx s' = set_word sem v (sem_fx s)" and "sem_pcs s' = (sem_pcs s)(t := c)"
  shows "sem_places sem n s'"
  using assms(1,3-) sem_awake [OF assms(1,2)] by (simp add: sem_inv_def sem_places_def sched_simps)

lemma sem_inv_up:
  assumes "sem_inv sem n count s" and "t < n" and "sem_pcs s t = SIdle"
  shows "sem_inv sem n count (sem_increment sem t s)"
proof -
  let ?c = "if umem (sem_fx s) sem = 0 then UpWake else SIdle"
  have f: "sem_fx (sem_increment sem t s) = set_word sem (umem (sem_fx s) sem + 1) (sem_fx s)"
    "sem_pcs (sem_increment sem t s) = (sem_pcs s)(t := ?c)"
    by (simp_all add: sem_increment_def Let_def sched_simps)
  have "sem_places sem n (sem_increment sem t s)"
    using assms f by (intro sem_places_word [of sem n count s t ?c]) auto
  moreover have "sem_waking sem (sem_increment sem t s)"
    by (rule sem_waking_goto [of sem s t _ ?c]) (use f assms(1,3) in \<open>simp_all add: sched_simps sem_inv_def\<close>)
  ultimately show ?thesis using assms(1) sem_count_increment by (simp add: sem_inv_def)
qed

lemma sem_inv_take:
  assumes "sem_inv sem n count s" and "sem_pcs s t = DownTry c" and "c \<noteq> 0" and "umem (sem_fx s) sem = c"
  shows "sem_inv sem n count (sem_decrement sem t c s)"
proof -
  have f: "sem_fx (sem_decrement sem t c s) = set_word sem (c - 1) (sem_fx s)"
    "sem_pcs (sem_decrement sem t c s) = (sem_pcs s)(t := SIdle)"
    by (simp_all add: sem_decrement_def sched_simps)
  have "sem_places sem n (sem_decrement sem t c s)"
    using assms f sem_running [OF assms(1), of t] by (intro sem_places_word [of sem n count s t SIdle]) auto
  moreover have "sem_waking sem (sem_decrement sem t c s)"
    by (rule sem_waking_goto [of sem s t _ SIdle]) (use f assms in \<open>simp_all add: sched_simps sem_inv_def\<close>)
  ultimately show ?thesis using assms sem_count_decrement by (simp add: sem_inv_def)
qed

text \<open>Steps that replace the futex state and keep the word.\<close>

lemma sem_inv_futex:
  assumes "sem_inv sem n count s" and "umem fx = umem (sem_fx s)" and "word_inv sem n fx" and "t < n"
    and "\<And>u. u \<in> sleeping fx \<union> set (run_queue fx) \<longleftrightarrow> (if u = t then c = DownSleep else sem_pcs s u = DownSleep)"
    and "sleeping fx = {} \<or> umem fx sem = 0 \<or> (sleeping fx \<subseteq> sleeping (sem_fx s) \<and> sem_pcs s t \<noteq> UpWake)"
  shows "sem_inv sem n count (sem_goto t c (s \<lparr> sem_fx := fx \<rparr>))"
proof -
  have "sem_places sem n (sem_goto t c (s \<lparr> sem_fx := fx \<rparr>))"
    using assms by (auto simp: sem_inv_def sem_places_def sched_simps)
  moreover have "sem_waking sem (sem_goto t c (s \<lparr> sem_fx := fx \<rparr>))"
    using assms(1,2,6) by (auto simp: sem_inv_def sem_waking_def sched_simps)
  moreover have "sem_count sem count (sem_goto t c (s \<lparr> sem_fx := fx \<rparr>))"
    using assms(1,2) sem_count_same [of "sem_goto t c (s \<lparr> sem_fx := fx \<rparr>)" sem s count] by (simp add: sem_inv_def sched_simps)
  ultimately show ?thesis by (simp add: sem_inv_def)
qed

lemma sem_inv_step:
  assumes "sem_step sem n s s'" and n: "n \<le> unat INT_MAX" and "sem_inv sem n count s"
  shows "sem_inv sem n count s'"
  using assms(1)
proof (cases rule: sem_step.cases)
  case (up t)
  then show ?thesis using sem_inv_up [OF assms(3)] by blast
next
  case (up_wake t w fx)
  then have i: "word_inv sem n (sem_fx s)" "t < n" "\<forall>u. sem_pcs s u = DownSleep \<longleftrightarrow> u \<in> sleeping (sem_fx s) \<union> set (run_queue (sem_fx s))"
    using assms(3) by (auto simp: sem_inv_def sem_places_def)
  from word_wakeD [OF i(1) n up_wake(3)] have "word_inv sem n fx" "sleeping fx = {}"
    "set (run_queue fx) = set (run_queue (sem_fx s)) \<union> sleeping (sem_fx s)" "umem fx = umem (sem_fx s)" by simp_all
  with i up_wake sem_awake [OF assms(3), of t] show ?thesis unfolding up_wake(1) by (intro sem_inv_futex [OF assms(3)]) auto
next
  case (down_sleep t now fx)
  then have i: "word_inv sem n (sem_fx s)" "t \<notin> sleeping (sem_fx s)" "t \<notin> set (run_queue (sem_fx s))" "t < n"
      "\<forall>u. sem_pcs s u = DownSleep \<longleftrightarrow> u \<in> sleeping (sem_fx s) \<union> set (run_queue (sem_fx s))"
    using assms(3) sem_awake [OF assms(3), of t] by (auto simp: sem_inv_def sem_places_def)
  have z: "umem (sem_fx s) sem = 0" and "word_inv sem n fx"
    "sleeping fx = insert t (sleeping (sem_fx s))" "run_queue fx = run_queue (sem_fx s)" "umem fx = umem (sem_fx s)"
    using word_waitD(1) [OF i(1-4) down_sleep(3)] by simp_all
  with i z down_sleep show ?thesis unfolding down_sleep(1) by (intro sem_inv_futex [OF assms(3)]) auto
next
  case (down_no_sleep t now e fx)
  then have i: "word_inv sem n (sem_fx s)" "t \<notin> sleeping (sem_fx s)" "t \<notin> set (run_queue (sem_fx s))" "t < n"
    using assms(3) sem_awake [OF assms(3), of t] by (auto simp: sem_inv_def sem_places_def)
  have "fx = sem_fx s" using word_waitD(2) [OF i down_no_sleep(3)] by simp
  then show ?thesis using down_no_sleep sem_goto_awake [OF assms(3), of t DownLoad] i by simp
next
  case (down_woken t)
  let ?fx = "dispatch t (sem_fx s)"
  have i: "word_inv sem n (sem_fx s)" "\<And>u. u \<in> sleeping (sem_fx s) \<union> set (run_queue (sem_fx s)) \<longleftrightarrow> sem_pcs s u = DownSleep"
    using assms(3) by (simp_all add: sem_inv_def sem_places_def)
  have q: "set (run_queue ?fx) = set (run_queue (sem_fx s)) - {t}" "t \<notin> sleeping ?fx"
    using i(1) down_woken(3) word_inv_asleep by (auto simp: sched_simps word_inv_def)
  show ?thesis unfolding down_woken(1)
  proof (rule sem_inv_futex [OF assms(3)])
    show "t < n" by (rule sem_running [OF assms(3)]) (simp add: down_woken(2))
    show "u \<in> sleeping ?fx \<union> set (run_queue ?fx) \<longleftrightarrow> (if u = t then DownLoad = DownSleep else sem_pcs s u = DownSleep)" for u
      using q i(2) [of u] by (auto simp: sched_simps)
    show "umem ?fx = umem (sem_fx s)" by (simp add: sched_simps)
    show "word_inv sem n ?fx" using i(1) by (rule dispatch_inv)
    show "sleeping ?fx = {} \<or> umem ?fx sem = 0 \<or> (sleeping ?fx \<subseteq> sleeping (sem_fx s) \<and> sem_pcs s t \<noteq> UpWake)"
      using down_woken(2) by (simp add: sched_simps)
  qed
next
  case (down_take t c)
  then show ?thesis using sem_inv_take [OF assms(3)] by blast
next
  case (down t)
  then show ?thesis using sem_goto_awake [OF assms(3), of t DownLoad] by simp
next
  case (down_load t)
  then show ?thesis using sem_goto_awake [OF assms(3), of t] sem_running [OF assms(3), of t] by simp
next
  case (down_zero t)
  then show ?thesis using sem_goto_awake [OF assms(3), of t DownWait] sem_running [OF assms(3), of t] by simp
next
  case (down_fail t c)
  then show ?thesis using sem_goto_awake [OF assms(3), of t] sem_running [OF assms(3), of t] by simp
qed

lemma sem_inv_init: "sem_alloc sem count s \<Longrightarrow> sem_inv sem n count s"
  by (simp add: sem_alloc_def sem_inv_def sem_places_def sem_count_def sem_waking_def word_inv_def futex_inv_def sleeping_def)

text \<open>
  C10: the semaphore under any interleaving of any number of threads (below \<open>2 ^ 31\<close>). The count is always
  the initial count plus the completed \<open>sem_up\<close> calls minus the completed \<open>sem_down\<close> calls, so that never more
  threads get through than were let through (as long as the sum fits the counter); and no wake-up is lost: whenever a thread
  sleeps although the count is not zero, another thread is about to wake all sleepers.
\<close>

theorem sem_counts:
  assumes "reachable (sem_alloc sem count) (sem_step sem n) s" and "n \<le> unat INT_MAX"
  shows "(unat count + ups s < 2 ^ 32 \<longrightarrow>
      downs s \<le> unat count + ups s \<and> unat (umem (sem_fx s) sem) = unat count + ups s - downs s) \<and>
    (\<forall>t. sem_pcs s t = DownSleep \<and> t \<notin> set (run_queue (sem_fx s)) \<longrightarrow>
      umem (sem_fx s) sem = 0 \<or> (\<exists>u. sem_pcs s u = UpWake))"
proof -
  have "sem_inv sem n count s"
    using assms(1) sem_inv_init sem_inv_step [OF _ assms(2)] by (rule reachable_invariant)
  then show ?thesis by (auto simp: sem_inv_def sem_count_def sem_waking_def sem_places_def)
qed

definition sem_start :: sem_sys where
  "sem_start = \<lparr> sem_fx = \<lparr> futex_queues = [], futex_sleepers = 0, futex_locked = False, umem = (\<lambda>_. 0),
     lt_err = (\<lambda>_. 0), run_queue = [] \<rparr>, sem_pcs = (\<lambda>_. SIdle), ups = 0, downs = 0 \<rparr>"

theorem sem_counts_witness:
  "downs (sem_increment 64 1 sem_start) \<le> 1 \<and> unat (umem (sem_fx (sem_increment 64 1 sem_start)) 64) = 1"
proof -
  have "reachable (sem_alloc 64 0) (sem_step 64 2) sem_start"
    by (rule reachable.start) (simp add: sem_alloc_def sem_start_def)
  moreover have "sem_step 64 2 sem_start (sem_increment 64 1 sem_start)"
    by (rule sem_step.up) (simp_all add: sem_start_def)
  ultimately have "reachable (sem_alloc 64 0) (sem_step 64 2) (sem_increment 64 1 sem_start)" by (rule reachable.move)
  from sem_counts [OF this] show ?thesis
    by (simp add: sem_increment_def sem_start_def sem_goto_def set_word_def)
qed

section \<open>Mutexes\<close>

text \<open>
  The word is the \<open>flag\<close> of the mutex: 0 unlocked, 1 locked, 2 locked with waiters. \<open>recursion_count\<close> is a
  bit field of 31 bits. \<open>holds\<close> counts, as a ghost variable, the \<open>mutex_lock\<close> calls of a thread that have
  returned and not been undone; a thread unlocks only what it has locked, locks a mutex that is not
  recursive only once, and nests fewer than \<open>2 ^ 30\<close> locks.
\<close>

datatype mutex_pc = MIdle | LockFailed u32 | LockExchange | LockWait | LockSleep | LockOwn | UnlockFlag | UnlockClear | UnlockWake

record mutex_sys =
  mx_fx :: futex_state
  mx_owner :: "nat option"
  is_recursive :: bool
  recursion_count :: "31 word"
  mx_pcs :: "nat \<Rightarrow> mutex_pc"
  holds :: "nat \<Rightarrow> nat"

definition mutex_alloc :: "u64 \<Rightarrow> bool \<Rightarrow> mutex_sys \<Rightarrow> bool" where
  "mutex_alloc mutex recursive s \<longleftrightarrow> is_recursive s = recursive \<and> umem (mx_fx s) mutex = 0 \<and> mx_owner s = None \<and>
     recursion_count s = 0 \<and> futex_queues (mx_fx s) = [] \<and> run_queue (mx_fx s) = [] \<and> futex_sleepers (mx_fx s) = 0 \<and>
     \<not> futex_locked (mx_fx s) \<and> mx_pcs s = (\<lambda>_. MIdle) \<and> holds s = (\<lambda>_. 0)"

definition mx_goto :: "nat \<Rightarrow> mutex_pc \<Rightarrow> mutex_sys \<Rightarrow> mutex_sys" where
  "mx_goto t c s = s \<lparr> mx_pcs := (mx_pcs s)(t := c) \<rparr>"

definition mx_flag :: "u64 \<Rightarrow> u32 \<Rightarrow> mutex_sys \<Rightarrow> mutex_sys" where
  "mx_flag mutex v s = s \<lparr> mx_fx := set_word mutex v (mx_fx s) \<rparr>"

text \<open>The end of \<open>mutex_lock\<close>, and the nested lock of its owner.\<close>

definition mx_own :: "nat \<Rightarrow> mutex_sys \<Rightarrow> mutex_sys" where
  "mx_own t s = mx_goto t MIdle (s \<lparr> mx_owner := (if is_recursive s then Some t else mx_owner s), holds := (holds s)(t := 1) \<rparr>)"

definition mx_nest :: "nat \<Rightarrow> mutex_sys \<Rightarrow> mutex_sys" where
  "mx_nest t s = mx_goto t MIdle (s \<lparr> recursion_count := recursion_count s + 1, holds := (holds s)(t := holds s t + 1) \<rparr>)"

text \<open>After a failed first attempt that saw \<open>state\<close>.\<close>

definition mx_failed :: "nat \<Rightarrow> u32 \<Rightarrow> mutex_sys \<Rightarrow> mutex_sys" where
  "mx_failed t state s =
     (if is_recursive s \<and> mx_owner s = Some t then mx_nest t s
      else mx_goto t (if state \<noteq> 2 then LockExchange else LockWait) s)"

text \<open>The beginning of \<open>mutex_unlock\<close>, and the decrement of the flag.\<close>

definition mx_unlock :: "nat \<Rightarrow> mutex_sys \<Rightarrow> mutex_sys" where
  "mx_unlock t s =
     (if is_recursive s \<and> 0 < sint (recursion_count s)
      then s \<lparr> recursion_count := recursion_count s - 1, holds := (holds s)(t := holds s t - 1) \<rparr>
      else mx_goto t UnlockFlag (s \<lparr> mx_owner := (if is_recursive s then None else mx_owner s), holds := (holds s)(t := holds s t - 1) \<rparr>))"

definition mx_fetch_sub :: "u64 \<Rightarrow> nat \<Rightarrow> mutex_sys \<Rightarrow> mutex_sys" where
  "mx_fetch_sub mutex t s =
     (let v = umem (mx_fx s) mutex in mx_goto t (if v \<noteq> 1 then UnlockClear else MIdle) (mx_flag mutex (v - 1) s))"

inductive mutex_step :: "u64 \<Rightarrow> nat \<Rightarrow> mutex_sys \<Rightarrow> mutex_sys \<Rightarrow> bool" for mutex n where
  lock: "t < n \<Longrightarrow> mx_pcs s t = MIdle \<Longrightarrow> holds s t = 0 \<or> is_recursive s \<Longrightarrow> holds s t < 2 ^ 30 \<Longrightarrow>
    umem (mx_fx s) mutex = 0 \<Longrightarrow> mutex_step mutex n s (mx_goto t LockOwn (mx_flag mutex 1 s))"
| lock_fail: "t < n \<Longrightarrow> mx_pcs s t = MIdle \<Longrightarrow> holds s t = 0 \<or> is_recursive s \<Longrightarrow> holds s t < 2 ^ 30 \<Longrightarrow>
    mutex_step mutex n s (mx_goto t (LockFailed (umem (mx_fx s) mutex)) s)"
| lock_failed: "mx_pcs s t = LockFailed state \<Longrightarrow> mutex_step mutex n s (mx_failed t state s)"
| lock_exchange: "mx_pcs s t = LockExchange \<Longrightarrow>
    mutex_step mutex n s (mx_goto t (if umem (mx_fx s) mutex = 0 then LockOwn else LockWait) (mx_flag mutex 2 s))"
| lock_sleep: "mx_pcs s t = LockWait \<Longrightarrow> enclave_futex_wait t mutex 2 now (mx_fx s) = Some (Inr fx) \<Longrightarrow>
    mutex_step mutex n s (mx_goto t LockSleep (s \<lparr> mx_fx := fx \<rparr>))"
| lock_no_sleep: "mx_pcs s t = LockWait \<Longrightarrow> enclave_futex_wait t mutex 2 now (mx_fx s) = Some (Inl (e, fx)) \<Longrightarrow>
    mutex_step mutex n s (mx_goto t LockExchange (s \<lparr> mx_fx := fx \<rparr>))"
| lock_woken: "mx_pcs s t = LockSleep \<Longrightarrow> t \<in> set (run_queue (mx_fx s)) \<Longrightarrow>
    mutex_step mutex n s (mx_goto t LockExchange (s \<lparr> mx_fx := dispatch t (mx_fx s) \<rparr>))"
| lock_own: "mx_pcs s t = LockOwn \<Longrightarrow> mutex_step mutex n s (mx_own t s)"
| unlock: "t < n \<Longrightarrow> mx_pcs s t = MIdle \<Longrightarrow> 0 < holds s t \<Longrightarrow> mutex_step mutex n s (mx_unlock t s)"
| unlock_flag: "mx_pcs s t = UnlockFlag \<Longrightarrow> mutex_step mutex n s (mx_fetch_sub mutex t s)"
| unlock_clear: "mx_pcs s t = UnlockClear \<Longrightarrow> mutex_step mutex n s (mx_goto t UnlockWake (mx_flag mutex 0 s))"
| unlock_wake: "mx_pcs s t = UnlockWake \<Longrightarrow> enclave_futex_wake mutex INT_MAX (mx_fx s) = Some (w, fx) \<Longrightarrow>
    mutex_step mutex n s (mx_goto t MIdle (s \<lparr> mx_fx := fx \<rparr>))"

lemma mx_fields [sched_simps]:
  "mx_fx (mx_goto t c s) = mx_fx s" "mx_pcs (mx_goto t c s) = (mx_pcs s)(t := c)" "holds (mx_goto t c s) = holds s"
  "mx_owner (mx_goto t c s) = mx_owner s" "is_recursive (mx_goto t c s) = is_recursive s" "recursion_count (mx_goto t c s) = recursion_count s"
  "mx_fx (mx_flag m v s) = set_word m v (mx_fx s)" "mx_pcs (mx_flag m v s) = mx_pcs s" "holds (mx_flag m v s) = holds s"
  "mx_owner (mx_flag m v s) = mx_owner s" "is_recursive (mx_flag m v s) = is_recursive s" "recursion_count (mx_flag m v s) = recursion_count s"
  by (simp_all add: mx_goto_def mx_flag_def)

text \<open>The thread that has the mutex, from taking the flag until clearing it.\<close>

definition owns :: "mutex_sys \<Rightarrow> nat \<Rightarrow> bool" where
  "owns s t \<longleftrightarrow> 0 < holds s t \<or> mx_pcs s t \<in> {LockOwn, UnlockFlag, UnlockClear}"

definition mx_places :: "u64 \<Rightarrow> nat \<Rightarrow> mutex_sys \<Rightarrow> bool" where
  "mx_places mutex n s \<longleftrightarrow> word_inv mutex n (mx_fx s) \<and> (\<forall>t. mx_pcs s t \<noteq> MIdle \<longrightarrow> t < n) \<and>
     (\<forall>t. mx_pcs s t = LockSleep \<longleftrightarrow> t \<in> sleeping (mx_fx s) \<union> set (run_queue (mx_fx s)))"

definition mx_excl :: "u64 \<Rightarrow> mutex_sys \<Rightarrow> bool" where
  "mx_excl mutex s \<longleftrightarrow> (\<exists>h. (\<forall>t. owns s t \<longleftrightarrow> h = Some t) \<and> (umem (mx_fx s) mutex = 0 \<longleftrightarrow> h = None)) \<and>
     umem (mx_fx s) mutex \<in> {0, 1, 2}"

definition mx_nesting :: "mutex_sys \<Rightarrow> bool" where
  "mx_nesting s \<longleftrightarrow>
     (\<forall>t. 0 < holds s t \<longrightarrow> mx_pcs s t = MIdle \<or> (is_recursive s \<and> (\<exists>v. mx_pcs s t = LockFailed v))) \<and>
     (\<forall>t v. mx_pcs s t = LockFailed v \<longrightarrow> holds s t < 2 ^ 30) \<and>
     (if is_recursive s
      then (\<forall>t. mx_owner s = Some t \<longleftrightarrow> 0 < holds s t) \<and> (mx_owner s = None \<longrightarrow> recursion_count s = 0) \<and>
           (\<forall>t. 0 < holds s t \<longrightarrow> holds s t = unat (recursion_count s) + 1 \<and> holds s t \<le> 2 ^ 30)
      else \<forall>t. holds s t \<le> 1)"

definition mx_waking :: "u64 \<Rightarrow> mutex_sys \<Rightarrow> bool" where
  "mx_waking mutex s \<longleftrightarrow> sleeping (mx_fx s) = {} \<or> umem (mx_fx s) mutex = 2 \<or> (\<exists>t. mx_pcs s t \<in> {UnlockClear, UnlockWake})"

lemma mx_exclI:
  "(\<And>t. owns s t \<longleftrightarrow> h = Some t) \<Longrightarrow> (umem (mx_fx s) mutex = 0 \<longleftrightarrow> h = None) \<Longrightarrow> umem (mx_fx s) mutex \<in> {0, 1, 2} \<Longrightarrow> mx_excl mutex s"
  unfolding mx_excl_def by blast

text \<open>Steps that change neither who has the mutex nor the flag.\<close>

lemma mx_excl_same:
  assumes "mx_excl mutex s" and "\<And>u. owns s' u = owns s u" and "umem (mx_fx s') mutex = umem (mx_fx s) mutex"
  shows "mx_excl mutex s'"
  using assms by (simp add: mx_excl_def)

lemma mx_excl_taken:
  assumes "mx_excl mutex s" and "umem (mx_fx s) mutex = 0" and "\<And>u. owns s' u \<longleftrightarrow> u = t \<or> owns s u"
    and "umem (mx_fx s') mutex \<in> {1, 2}"
  shows "mx_excl mutex s'"
  using assms by (intro mx_exclI [of s' "Some t"]) (auto simp: mx_excl_def)

lemma mx_excl_released:
  assumes "mx_excl mutex s" and "owns s t" and "\<And>u. owns s' u \<longleftrightarrow> u \<noteq> t \<and> owns s u" and "umem (mx_fx s') mutex = 0"
  shows "mx_excl mutex s'"
  using assms by (intro mx_exclI [of s' None]) (auto simp: mx_excl_def)

lemma mx_excl_flag:
  assumes "mx_excl mutex s" and "owns s t" and "\<And>u. owns s' u = owns s u" and "umem (mx_fx s') mutex \<in> {1, 2}"
  shows "mx_excl mutex s'"
  using assms by (intro mx_exclI [of s' "Some t"]) (auto simp: mx_excl_def)

lemma mx_place:
  assumes "mx_places mutex n s"
  shows "word_inv mutex n (mx_fx s)" and "mx_pcs s t \<noteq> MIdle \<Longrightarrow> t < n"
    and "mx_pcs s t \<noteq> LockSleep \<Longrightarrow> t \<notin> sleeping (mx_fx s)" and "mx_pcs s t \<noteq> LockSleep \<Longrightarrow> t \<notin> set (run_queue (mx_fx s))"
  using assms by (auto simp: mx_places_def)

text \<open>What the futex calls of \<open>mutex_lock\<close> and \<open>mutex_unlock\<close> do.\<close>

lemma mx_waitD:
  assumes "mx_places mutex n s" and "mx_pcs s t = LockWait"
  shows "enclave_futex_wait t mutex v now (mx_fx s) = Some (Inr fx) \<Longrightarrow> umem (mx_fx s) mutex = v \<and> word_inv mutex n fx \<and>
      sleeping fx = insert t (sleeping (mx_fx s)) \<and> run_queue fx = run_queue (mx_fx s) \<and> umem fx = umem (mx_fx s)"
    and "enclave_futex_wait t mutex v now (mx_fx s) = Some (Inl (e, fx)) \<Longrightarrow> umem (mx_fx s) mutex \<noteq> v \<and> fx = mx_fx s"
  using word_waitD [of mutex n "mx_fx s" t] mx_place(1) [OF assms(1)] mx_place(2-4) [OF assms(1), of t] assms(2) by simp_all

lemma sint_31: "unat (w :: 31 word) < 2 ^ 30 \<Longrightarrow> sint w = int (unat w)"
proof -
  assume "unat w < 2 ^ 30"
  then have "uint w < 2 ^ 30" by (metis of_nat_less_iff of_nat_numeral of_nat_power uint_nat)
  moreover have "- (2 ^ 30) \<le> uint w" by (rule order_trans [OF _ uint_ge_0]) simp
  ultimately show ?thesis by (simp add: sint_uint signed_take_bit_int_eq_self_iff)
qed

text \<open>The two branches of the beginning of \<open>mutex_unlock\<close>.\<close>

lemma mx_unlock_cases:
  assumes "mx_nesting s" and "0 < holds s t"
  obtains (nested) "is_recursive s" "0 < sint (recursion_count s)" "0 < unat (recursion_count s)"
      "holds s t = unat (recursion_count s) + 1"
  | (last) "\<not> (is_recursive s \<and> 0 < sint (recursion_count s))" "holds s t = 1" "is_recursive s \<longrightarrow> recursion_count s = 0"
proof (cases "is_recursive s")
  case True
  then have h: "holds s t = unat (recursion_count s) + 1" "holds s t \<le> 2 ^ 30" using assms by (simp_all add: mx_nesting_def)
  then have "sint (recursion_count s) = int (unat (recursion_count s))" by (intro sint_31) simp
  then show thesis using h True nested last by (cases "unat (recursion_count s)") (auto simp: unat_eq_0)
next
  case False
  then have "holds s t \<le> 1" using assms(1) by (simp add: mx_nesting_def)
  then show thesis using False last assms(2) by simp
qed

lemma mx_excl_step:
  assumes "mutex_step mutex n s s'" and n: "n \<le> unat INT_MAX" and e: "mx_excl mutex s" and r: "mx_nesting s" and p: "mx_places mutex n s"
  shows "mx_excl mutex s'"
  using assms(1)
proof (cases rule: mutex_step.cases)
  case (lock t)
  then have "holds s t = 0" using e by (cases "holds s t") (auto simp: mx_excl_def owns_def)
  then show ?thesis using lock by (intro mx_excl_taken [OF e, of s' t]) (auto simp: owns_def sched_simps)
next
  case (lock_fail t)
  then show ?thesis by (intro mx_excl_same [OF e]) (auto simp: owns_def sched_simps)
next
  case (lock_failed t state)
  then show ?thesis using r by (intro mx_excl_same [OF e]) (auto simp: owns_def sched_simps mx_failed_def mx_nest_def mx_nesting_def)
next
  case (lock_exchange t)
  then have h: "holds s t = 0" using r by (force simp: mx_nesting_def)
  show ?thesis
  proof (cases "umem (mx_fx s) mutex = 0")
    case True
    then show ?thesis using lock_exchange h by (intro mx_excl_taken [OF e, of s' t]) (auto simp: owns_def sched_simps)
  next
    case False
    then obtain u where "owns s u" using e by (auto simp: mx_excl_def)
    then show ?thesis using lock_exchange h False by (intro mx_excl_flag [OF e, of u]) (auto simp: owns_def sched_simps)
  qed
next
  case (lock_own t)
  then have "holds s t = 0" using r by (force simp: mx_nesting_def)
  then show ?thesis using lock_own by (intro mx_excl_same [OF e]) (auto simp: owns_def sched_simps mx_own_def)
next
  case (unlock t)
  from r unlock(4) show ?thesis
  proof (cases rule: mx_unlock_cases)
    case nested
    then show ?thesis using unlock by (intro mx_excl_same [OF e]) (auto simp: owns_def sched_simps mx_unlock_def)
  next
    case last
    then show ?thesis using unlock by (intro mx_excl_same [OF e]) (auto simp: owns_def sched_simps mx_unlock_def)
  qed
next
  case (unlock_flag t)
  then have o: "owns s t" "holds s t = 0" using r by (auto simp: owns_def mx_nesting_def)
  then consider "umem (mx_fx s) mutex = 1" | "umem (mx_fx s) mutex = 2" using e by (auto simp: mx_excl_def)
  then show ?thesis
  proof cases
    case 1
    then show ?thesis using unlock_flag o
      by (intro mx_excl_released [OF e, of t]) (auto simp: owns_def sched_simps mx_fetch_sub_def Let_def)
  next
    case 2
    then show ?thesis using unlock_flag o
      by (intro mx_excl_flag [OF e, of t]) (auto simp: owns_def sched_simps mx_fetch_sub_def Let_def)
  qed
next
  case (unlock_clear t)
  then have "owns s t" "holds s t = 0" using r by (auto simp: owns_def mx_nesting_def)
  then show ?thesis using unlock_clear by (intro mx_excl_released [OF e, of t]) (auto simp: owns_def sched_simps)
next
  case (lock_sleep t now fx)
  then show ?thesis using mx_waitD(1) [OF p lock_sleep(2,3)] by (intro mx_excl_same [OF e]) (auto simp: owns_def sched_simps)
next
  case (lock_no_sleep t now err fx)
  then show ?thesis using mx_waitD(2) [OF p lock_no_sleep(2,3)] by (intro mx_excl_same [OF e]) (auto simp: owns_def sched_simps)
next
  case (lock_woken t)
  then show ?thesis by (intro mx_excl_same [OF e]) (auto simp: owns_def sched_simps)
next
  case (unlock_wake t w fx)
  then show ?thesis using word_wakeD [OF mx_place(1) [OF p] n unlock_wake(3)]
    by (intro mx_excl_same [OF e]) (auto simp: owns_def sched_simps)
qed

lemma mx_places_awake:
  assumes p: "mx_places mutex n s" and "mx_pcs s t \<noteq> LockSleep" and "c \<noteq> LockSleep" and "t < n"
    and f: "word_inv mutex n (mx_fx s')" "sleeping (mx_fx s') = sleeping (mx_fx s)" "run_queue (mx_fx s') = run_queue (mx_fx s)"
    and "mx_pcs s' = (mx_pcs s)(t := c)"
  shows "mx_places mutex n s'"
  using assms mx_place(3,4) [OF p assms(2)] by (simp add: mx_places_def)

lemma mx_places_step:
  assumes "mutex_step mutex n s s'" and n: "n \<le> unat INT_MAX" and p: "mx_places mutex n s"
  shows "mx_places mutex n s'"
  using assms(1)
proof (cases rule: mutex_step.cases)
  case (lock_sleep t now fx)
  then show ?thesis
    using mx_waitD(1) [OF p lock_sleep(2,3)] mx_place(2) [OF p, of t] p by (auto simp: mx_places_def sched_simps)
next
  case (lock_woken t)
  have q: "set (run_queue (dispatch t (mx_fx s))) = set (run_queue (mx_fx s)) - {t}" "t \<notin> sleeping (mx_fx s)"
    using mx_place(1) [OF p] lock_woken(3) word_inv_asleep by (auto simp: sched_simps word_inv_def)
  then show ?thesis
    using lock_woken mx_place(2) [OF p, of t] p by (auto simp: mx_places_def sched_simps dispatch_inv)
next
  case (unlock_wake t w fx)
  then show ?thesis
    using word_wakeD [OF mx_place(1) [OF p] n unlock_wake(3)] mx_place(2-4) [OF p, of t] p
    by (auto simp: mx_places_def sched_simps)
next
  case (lock_no_sleep t now err fx)
  then show ?thesis using mx_waitD(2) [OF p lock_no_sleep(2,3)] mx_place(1,2) [OF p]
    by (intro mx_places_awake [OF p, of t LockExchange]) (auto simp: sched_simps)
next
  case (lock_failed t state)
  let ?c = "if is_recursive s \<and> mx_owner s = Some t then MIdle else if state \<noteq> 2 then LockExchange else LockWait"
  show ?thesis using lock_failed mx_place(1,2) [OF p]
    by (intro mx_places_awake [OF p, of t ?c]) (auto simp: sched_simps mx_failed_def mx_nest_def)
next
  case (unlock t)
  let ?c = "if is_recursive s \<and> 0 < sint (recursion_count s) then MIdle else UnlockFlag"
  show ?thesis using unlock mx_place(1) [OF p]
    by (intro mx_places_awake [OF p, of t ?c]) (auto simp: sched_simps mx_unlock_def)
next
  case (unlock_flag t)
  let ?c = "if umem (mx_fx s) mutex \<noteq> 1 then UnlockClear else MIdle"
  show ?thesis using unlock_flag mx_place(1,2) [OF p]
    by (intro mx_places_awake [OF p, of t ?c]) (auto simp: sched_simps mx_fetch_sub_def Let_def)
next
  case (lock_own t)
  then show ?thesis using mx_place(1,2) [OF p]
    by (intro mx_places_awake [OF p, of t MIdle]) (auto simp: sched_simps mx_own_def)
next
  case (lock_exchange t)
  let ?c = "if umem (mx_fx s) mutex = 0 then LockOwn else LockWait"
  show ?thesis using lock_exchange mx_place(1,2) [OF p]
    by (intro mx_places_awake [OF p, of t ?c]) (auto simp: sched_simps)
next
  case (lock t)
  then show ?thesis using mx_place(1) [OF p] by (intro mx_places_awake [OF p, of t LockOwn]) (auto simp: sched_simps)
next
  case (lock_fail t)
  then show ?thesis using mx_place(1) [OF p]
    by (intro mx_places_awake [OF p, of t "LockFailed (umem (mx_fx s) mutex)"]) (auto simp: sched_simps)
next
  case (unlock_clear t)
  then show ?thesis using mx_place(1,2) [OF p] by (intro mx_places_awake [OF p, of t UnlockWake]) (auto simp: sched_simps)
qed

lemma mx_nesting_pc:
  assumes "mx_nesting s" and "holds s' = holds s" "mx_owner s' = mx_owner s" "is_recursive s' = is_recursive s"
      "recursion_count s' = recursion_count s" "mx_pcs s' = (mx_pcs s)(t := c)"
    and "0 < holds s t \<Longrightarrow> c = MIdle \<or> (is_recursive s \<and> (\<exists>v. c = LockFailed v))" and "\<And>v. c = LockFailed v \<Longrightarrow> holds s t < 2 ^ 30"
  shows "mx_nesting s'"
proof -
  note m = assms(1) [unfolded mx_nesting_def]
  show ?thesis unfolding mx_nesting_def assms(2-6)
  proof (intro conjI allI impI)
    fix u assume "0 < holds s u"
    then show "((mx_pcs s)(t := c)) u = MIdle \<or> (is_recursive s \<and> (\<exists>v. ((mx_pcs s)(t := c)) u = LockFailed v))"
      using m assms(7) by (cases "u = t") simp_all
  next
    fix u v assume "((mx_pcs s)(t := c)) u = LockFailed v"
    then show "holds s u < 2 ^ 30" using m assms(8) by (cases "u = t") auto
  qed (use m in blast)
qed

lemma mx_not_holding:
  "mx_nesting s \<Longrightarrow> mx_pcs s t \<noteq> MIdle \<Longrightarrow> (\<And>v. mx_pcs s t \<noteq> LockFailed v) \<Longrightarrow> holds s t = 0"
  unfolding mx_nesting_def by (metis neq0_conv)

lemma mx_nesting_nest:
  assumes r: "mx_nesting s" and "mx_pcs s t = LockFailed state" and rec: "is_recursive s" "mx_owner s = Some t"
  shows "mx_nesting (mx_nest t s)"
proof -
  have h: "holds s t = unat (recursion_count s) + 1" "holds s t < 2 ^ 30" "\<And>u. u \<noteq> t \<Longrightarrow> holds s u = 0"
    using r assms(2) rec by (auto simp: mx_nesting_def)
  then have "unat (recursion_count s + 1) = unat (recursion_count s) + 1" by (intro trans [OF unat_add_small]) simp_all
  with h r rec show ?thesis by (auto simp: mx_nesting_def mx_nest_def sched_simps)
qed

lemma mx_nesting_own:
  assumes r: "mx_nesting s" and e: "mx_excl mutex s" and "mx_pcs s t = LockOwn"
  shows "mx_nesting (mx_own t s)"
proof -
  have "owns s t" using assms(3) by (simp add: owns_def)
  then have "\<not> owns s u" if "u \<noteq> t" for u using e that by (auto simp: mx_excl_def)
  then have "holds s u = 0" if "u \<noteq> t" for u using that by (auto simp: owns_def)
  moreover have "holds s t = 0" using mx_not_holding [OF r, of t] assms(3) by simp
  ultimately have h: "holds s u = 0" for u by (cases "u = t") auto
  then have "is_recursive s \<Longrightarrow> mx_owner s = None" using r by (cases "mx_owner s") (auto simp: mx_nesting_def)
  with h r assms(3) show ?thesis by (auto simp: mx_nesting_def mx_own_def sched_simps)
qed

lemma mx_nesting_unlock:
  assumes r: "mx_nesting s" and "mx_pcs s t = MIdle" and h: "0 < holds s t" and e: "mx_excl mutex s"
  shows "mx_nesting (mx_unlock t s)"
proof -
  have "owns s t" using h by (simp add: owns_def)
  then have "\<not> owns s u" if "u \<noteq> t" for u using e that by (auto simp: mx_excl_def)
  then have u: "holds s u = 0" if "u \<noteq> t" for u using that by (auto simp: owns_def)
  from r h show ?thesis
  proof (cases rule: mx_unlock_cases)
    case nested
    then have "1 \<le> recursion_count s" by (simp add: word_le_nat_alt)
    then have "unat (recursion_count s - 1) = unat (recursion_count s) - 1" by (simp add: unat_sub_small)
    moreover have "holds s t \<le> 2 ^ 30" using r h nested(1) by (simp add: mx_nesting_def)
    ultimately show ?thesis using nested r assms(2) u by (auto simp: mx_nesting_def mx_unlock_def)
  next
    case last
    then show ?thesis using r u by (auto simp: mx_nesting_def mx_unlock_def sched_simps)
  qed
qed

lemma mx_nesting_step:
  assumes "mutex_step mutex n s s'" and r: "mx_nesting s" and e: "mx_excl mutex s"
  shows "mx_nesting s'"
  using assms(1)
proof (cases rule: mutex_step.cases)
  case (lock t)
  then have "holds s t = 0" using e by (cases "holds s t") (auto simp: mx_excl_def owns_def)
  with lock show ?thesis by (intro mx_nesting_pc [OF r, of s' t LockOwn]) (simp_all add: sched_simps)
next
  case (lock_fail t)
  then show ?thesis by (intro mx_nesting_pc [OF r, of s' t "LockFailed (umem (mx_fx s) mutex)"]) (auto simp: sched_simps)
next
  case (lock_failed t state)
  show ?thesis
  proof (cases "is_recursive s \<and> mx_owner s = Some t")
    case True
    then show ?thesis using lock_failed mx_nesting_nest [OF r] by (auto simp: mx_failed_def)
  next
    case False
    then have "holds s t = 0" using lock_failed r by (cases "holds s t") (auto simp: mx_nesting_def split: if_splits)
    with False lock_failed show ?thesis
      by (intro mx_nesting_pc [OF r, of s' t "if state \<noteq> 2 then LockExchange else LockWait"]) (auto simp: mx_failed_def sched_simps)
  qed
next
  case (lock_own t)
  then show ?thesis using mx_nesting_own [OF r e] by simp
next
  case (unlock t)
  then show ?thesis using mx_nesting_unlock [OF r _ _ e] by simp
next
  case (unlock_flag t)
  let ?c = "if umem (mx_fx s) mutex \<noteq> 1 then UnlockClear else MIdle"
  show ?thesis using unlock_flag mx_not_holding [OF r, of t]
    by (intro mx_nesting_pc [OF r, of s' t ?c]) (auto simp: mx_fetch_sub_def Let_def sched_simps)
next
  case (lock_exchange t)
  let ?c = "if umem (mx_fx s) mutex = 0 then LockOwn else LockWait"
  show ?thesis using lock_exchange mx_not_holding [OF r, of t]
    by (intro mx_nesting_pc [OF r, of s' t ?c]) (auto simp: sched_simps)
next
  case (lock_sleep t now fx)
  then show ?thesis using mx_not_holding [OF r, of t] by (intro mx_nesting_pc [OF r, of s' t LockSleep]) (auto simp: sched_simps)
next
  case (lock_no_sleep t now err fx)
  then show ?thesis using mx_not_holding [OF r, of t] by (intro mx_nesting_pc [OF r, of s' t LockExchange]) (auto simp: sched_simps)
next
  case (lock_woken t)
  then show ?thesis using mx_not_holding [OF r, of t] by (intro mx_nesting_pc [OF r, of s' t LockExchange]) (auto simp: sched_simps)
next
  case (unlock_clear t)
  then show ?thesis using mx_not_holding [OF r, of t] by (intro mx_nesting_pc [OF r, of s' t UnlockWake]) (auto simp: sched_simps)
next
  case (unlock_wake t w fx)
  then show ?thesis by (intro mx_nesting_pc [OF r, of s' t MIdle]) (auto simp: sched_simps)
qed

lemma mx_waking_pc:
  assumes "mx_waking mutex s" and "mx_pcs s t \<notin> {UnlockClear, UnlockWake}" and "sleeping (mx_fx s') = sleeping (mx_fx s)"
    and "umem (mx_fx s) mutex = 2 \<Longrightarrow> umem (mx_fx s') mutex = 2 \<or> c = UnlockClear" and "mx_pcs s' = (mx_pcs s)(t := c)"
  shows "mx_waking mutex s'"
proof -
  consider "sleeping (mx_fx s) = {}" | "umem (mx_fx s) mutex = 2" | u where "mx_pcs s u \<in> {UnlockClear, UnlockWake}"
    using assms(1) by (auto simp: mx_waking_def)
  then show ?thesis
  proof cases
    case 2
    then have "umem (mx_fx s') mutex = 2 \<or> mx_pcs s' t \<in> {UnlockClear, UnlockWake}" using assms(4,5) by auto
    then show ?thesis unfolding mx_waking_def by blast
  next
    case (3 u)
    then have "mx_pcs s' u \<in> {UnlockClear, UnlockWake}" using assms(2,5) by auto
    then show ?thesis unfolding mx_waking_def by blast
  qed (use assms(3) in \<open>simp add: mx_waking_def\<close>)
qed

lemma mx_waking_step:
  assumes "mutex_step mutex n s s'" and n: "n \<le> unat INT_MAX" and w: "mx_waking mutex s" and e: "mx_excl mutex s" and p: "mx_places mutex n s"
  shows "mx_waking mutex s'"
  using assms(1)
proof (cases rule: mutex_step.cases)
  case (lock_sleep t now fx)
  then show ?thesis using mx_waitD(1) [OF p lock_sleep(2,3)] by (simp add: mx_waking_def sched_simps)
next
  case (unlock_wake t w fx)
  then show ?thesis using word_wakeD [OF mx_place(1) [OF p] n unlock_wake(3)] by (simp add: mx_waking_def sched_simps)
next
  case (lock_exchange t)
  then show ?thesis by (simp add: mx_waking_def sched_simps)
next
  case (unlock_clear t)
  then have "mx_pcs s' t = UnlockWake" by (simp add: sched_simps)
  then show ?thesis unfolding mx_waking_def by blast
next
  case (lock t)
  then show ?thesis by (intro mx_waking_pc [OF w, of t s' LockOwn]) (simp_all add: sched_simps)
next
  case (lock_fail t)
  then show ?thesis by (intro mx_waking_pc [OF w, of t s' "LockFailed (umem (mx_fx s) mutex)"]) (simp_all add: sched_simps)
next
  case (lock_failed t state)
  let ?c = "if is_recursive s \<and> mx_owner s = Some t then MIdle else if state \<noteq> 2 then LockExchange else LockWait"
  show ?thesis using lock_failed by (intro mx_waking_pc [OF w, of t s' ?c]) (auto simp: mx_failed_def mx_nest_def sched_simps)
next
  case (lock_no_sleep t now err fx)
  then show ?thesis using mx_waitD(2) [OF p lock_no_sleep(2,3)]
    by (intro mx_waking_pc [OF w, of t s' LockExchange]) (simp_all add: sched_simps)
next
  case (lock_woken t)
  then show ?thesis by (intro mx_waking_pc [OF w, of t s' LockExchange]) (simp_all add: sched_simps)
next
  case (lock_own t)
  then show ?thesis by (intro mx_waking_pc [OF w, of t s' MIdle]) (simp_all add: sched_simps mx_own_def)
next
  case (unlock t)
  let ?c = "if is_recursive s \<and> 0 < sint (recursion_count s) then MIdle else UnlockFlag"
  show ?thesis using unlock by (intro mx_waking_pc [OF w, of t s' ?c]) (auto simp: mx_unlock_def sched_simps)
next
  case (unlock_flag t)
  let ?c = "if umem (mx_fx s) mutex \<noteq> 1 then UnlockClear else MIdle"
  show ?thesis using unlock_flag by (intro mx_waking_pc [OF w, of t s' ?c]) (auto simp: mx_fetch_sub_def Let_def sched_simps)
qed

definition mutex_inv :: "u64 \<Rightarrow> nat \<Rightarrow> mutex_sys \<Rightarrow> bool" where
  "mutex_inv mutex n s \<longleftrightarrow> mx_places mutex n s \<and> mx_excl mutex s \<and> mx_nesting s \<and> mx_waking mutex s"

lemma mutex_inv_step:
  assumes "n \<le> unat INT_MAX" and "mutex_inv mutex n s" and "mutex_step mutex n s s'"
  shows "mutex_inv mutex n s'"
  using assms(2) mx_places_step [OF assms(3,1)] mx_excl_step [OF assms(3,1)] mx_nesting_step [OF assms(3)] mx_waking_step [OF assms(3,1)]
  by (simp add: mutex_inv_def)

lemma mutex_inv_init: "mutex_alloc mutex recursive s \<Longrightarrow> mutex_inv mutex n s"
  by (simp add: mutex_alloc_def mutex_inv_def mx_places_def mx_excl_def mx_nesting_def mx_waking_def owns_def
      word_inv_def futex_inv_def sleeping_def)

text \<open>
  C3: the mutex under any interleaving of any number of threads (below \<open>2 ^ 31\<close>). At most one thread holds it,
  recursively or not, and the flag is unlocked exactly when no thread has it; no
  wake-up is lost: when a thread sleeps in \<open>mutex_lock\<close>, some thread has the mutex and its \<open>mutex_unlock\<close> will
  wake the sleepers, or a thread is already about to wake them.
\<close>

theorem mutex_exclusive:
  assumes "reachable (mutex_alloc mutex recursive) (mutex_step mutex n) s" and "n \<le> unat INT_MAX"
  shows "(0 < holds s t \<and> 0 < holds s u \<longrightarrow> t = u) \<and> (0 < holds s t \<longrightarrow> umem (mx_fx s) mutex \<noteq> 0) \<and>
    (mx_pcs s t = LockSleep \<and> t \<notin> set (run_queue (mx_fx s)) \<longrightarrow>
      (umem (mx_fx s) mutex = 2 \<and> (\<exists>h. owns s h)) \<or> (\<exists>h. mx_pcs s h \<in> {UnlockClear, UnlockWake}))"
proof -
  have i: "mutex_inv mutex n s"
    using assms(1) mutex_inv_init mutex_inv_step [OF assms(2)] by (rule reachable_invariant)
  then obtain h where h: "\<forall>t. owns s t \<longleftrightarrow> h = Some t" "umem (mx_fx s) mutex = 0 \<longleftrightarrow> h = None"
    by (auto simp: mutex_inv_def mx_excl_def)
  have "umem (mx_fx s) mutex = 2 \<Longrightarrow> \<exists>h. owns s h" using h by (cases h) auto
  moreover have "mx_pcs s t = LockSleep \<and> t \<notin> set (run_queue (mx_fx s)) \<longrightarrow> t \<in> sleeping (mx_fx s)"
    using i by (auto simp: mutex_inv_def mx_places_def)
  moreover have "mx_waking mutex s" using i by (simp add: mutex_inv_def)
  moreover have "(0 < holds s t \<and> 0 < holds s u \<longrightarrow> t = u) \<and> (0 < holds s t \<longrightarrow> umem (mx_fx s) mutex \<noteq> 0)"
    using h(1) [rule_format, of t] h(1) [rule_format, of u] h(2) by (auto simp: owns_def)
  ultimately show ?thesis unfolding mx_waking_def by blast
qed

definition mutex_start :: mutex_sys where
  "mutex_start = \<lparr> mx_fx = sem_fx sem_start, mx_owner = None, is_recursive = True, recursion_count = 0,
     mx_pcs = (\<lambda>_. MIdle), holds = (\<lambda>_. 0) \<rparr>"

theorem mutex_exclusive_witness:
  "0 < holds (mx_own 1 (mx_goto 1 LockOwn (mx_flag 64 1 mutex_start))) 1 \<and>
   umem (mx_fx (mx_own 1 (mx_goto 1 LockOwn (mx_flag 64 1 mutex_start)))) 64 \<noteq> 0"
proof -
  let ?s = "mx_goto 1 LockOwn (mx_flag 64 1 mutex_start)"
  have "reachable (mutex_alloc 64 True) (mutex_step 64 2) mutex_start"
    by (rule reachable.start) (simp add: mutex_alloc_def mutex_start_def sem_start_def)
  moreover have "mutex_step 64 2 mutex_start ?s" by (rule mutex_step.lock) (simp_all add: mutex_start_def sem_start_def)
  ultimately have "reachable (mutex_alloc 64 True) (mutex_step 64 2) ?s" by (rule reachable.move)
  moreover have "mutex_step 64 2 ?s (mx_own 1 ?s)" by (rule mutex_step.lock_own) (simp add: sched_simps)
  ultimately have "reachable (mutex_alloc 64 True) (mutex_step 64 2) (mx_own 1 ?s)" by (rule reachable.move)
  from mutex_exclusive [OF this, of 1 1] show ?thesis by (simp add: mx_own_def sched_simps)
qed

end
