(* ===== verification/Lkl_Host.thy ===== *)
theory Lkl_Host
  imports Lthread Lkl_Sync
begin

text \<open>
  The other host operations of \<^verbatim>\<open>src/src/lkl/posix-host.c\<close>: threads, thread-specific data, memory and
  timers of the Linux kernel library on top of lthreads, futexes and the memory manager. \<open>s\<close> is the scheduler the
  caller runs on. A call of \<^verbatim>\<open>sgxlkl_fail\<close> ends the enclave. Results of \<^verbatim>\<open>oe_malloc\<close> and \<^verbatim>\<open>oe_calloc\<close> are
  arguments.
\<close>

section \<open>Termination\<close>

abbreviation (input) SIGABRT :: int where "SIGABRT \<equiv> 6"
abbreviation (input) SIGKILL :: int where "SIGKILL \<equiv> 9"
abbreviation (input) SIGSEGV :: int where "SIGSEGV \<equiv> 11"
abbreviation (input) SIGTERM :: int where "SIGTERM \<equiv> 15"

text \<open>The status that \<open>terminate\<close> passes to \<^verbatim>\<open>lkl_terminate\<close>.\<close>

definition terminate :: "int \<Rightarrow> int \<Rightarrow> int" where
  "terminate exit_status received_signal =
     (if received_signal \<noteq> 0
      then if received_signal = SIGSEGV then 139 else if received_signal = SIGKILL then 137
           else if received_signal = SIGABRT then 134 else if received_signal = SIGTERM then 143
           else if exit_status = 0 then 1 else exit_status
      else exit_status)"

section \<open>Threads\<close>

datatype host_error = Failed | Lthread_error lt_error

definition lt :: "lt_error + 'a \<Rightarrow> host_error + 'a" where
  "lt m = (case m of Inl e \<Rightarrow> Inl (Lthread_error e) | Inr x \<Rightarrow> Inr x)"

definition thread_create ::
    "(string \<Rightarrow> string) \<Rightarrow> nat option \<Rightarrow> nat \<Rightarrow> u64 \<Rightarrow> u64 \<Rightarrow> lt_world \<Rightarrow> host_error + nat \<times> lt_world" where
  "thread_create strncpy_s alloc s f arg w =
     andThen (lt (lthread_create strncpy_s alloc s None f arg w)) (\<lambda>(ret, thread, w1).
       if ret \<noteq> 0 then Inl Failed else Inr (thread, w1))"

definition thread_create_host ::
    "nat option \<Rightarrow> bool \<Rightarrow> u64 \<Rightarrow> u64 \<Rightarrow> u64 \<Rightarrow> int \<Rightarrow> u64 \<Rightarrow> lt_world \<Rightarrow> host_error + nat \<times> lt_world" where
  "thread_create_host alloc slot_ok pc sp tcb task_key task_value w =
     andThen (lt (lthread_create_primitive alloc pc sp tcb w)) (\<lambda>(ret, thread, w1).
       if ret \<noteq> 0 then Inl Failed
       else andThen (lt (lthread_setspecific_remote slot_ok thread task_key task_value w1)) (\<lambda>(_, w2).
         andThen (lt (scheduler_enqueue thread w2)) (\<lambda>w3. Inr (thread, w3))))"

definition thread_destroy_host :: "bool \<Rightarrow> nat \<Rightarrow> nat \<Rightarrow> int \<Rightarrow> lt_world \<Rightarrow> host_error + lt_world" where
  "thread_destroy_host slot_ok s tid task_key w =
     andThen (lt (deref tid w)) (\<lambda>thr.
       if lt_join thr \<noteq> 0 then Inl (Lthread_error Assertion_failed)
       else andThen (lt (lthread_desched_sleep tid w)) (\<lambda>w1.
         andThen (lt (or_spin (futex_dequeue tid (fut w1)))) (\<lambda>f.
         andThen (lt (lthread_setspecific_remote slot_ok tid task_key 0 (w1 \<lparr> fut := f \<rparr>))) (\<lambda>(_, w2).
         lt (lthread_free s tid w2)))))"

definition thread_detach :: "nat \<Rightarrow> lt_world \<Rightarrow> host_error + lt_world" where
  "thread_detach s w = lt (lthread_detach s w)"

definition thread_exit :: "nat \<Rightarrow> lt_world \<Rightarrow> host_error + lt_world" where
  "thread_exit s w = lt (lthread_exit s 0 w)"

text \<open>Joining up to the yield, if there is one, and after it.\<close>

definition thread_join_begin :: "nat \<Rightarrow> nat \<Rightarrow> lt_world \<Rightarrow> host_error + join_result \<times> lt_world" where
  "thread_join_begin s tid w =
     andThen (lt (join_begin s tid (- 1) w)) (\<lambda>(r, w1). if r = Join_refused then Inl Failed else Inr (r, w1))"

definition thread_join_end :: "nat \<Rightarrow> nat \<Rightarrow> lt_world \<Rightarrow> host_error + nat \<times> lt_world" where
  "thread_join_end s tid w = lt (join_end s tid w)"

definition thread_self :: "nat \<Rightarrow> lt_world \<Rightarrow> nat" where
  "thread_self s w = current_lthread w s"

definition thread_equal :: "nat \<Rightarrow> nat \<Rightarrow> bool" where
  "thread_equal a b \<longleftrightarrow> a = b"

definition host_gettid :: "nat \<Rightarrow> lt_world \<Rightarrow> nat" where
  "host_gettid s w = current_lthread w s"

section \<open>Thread-specific data\<close>

definition warn_pthread :: "int \<times> 'a \<Rightarrow> host_error + 'a" where
  "warn_pthread = (\<lambda>(ret, x). if ret \<noteq> 0 then Inl Failed else Inr x)"

definition tls_alloc :: "bool \<Rightarrow> u64 \<Rightarrow> lt_world \<Rightarrow> host_error + int \<times> lt_world" where
  "tls_alloc alloc_ok destructor w = warn_pthread (lthread_key_create alloc_ok destructor w)"

definition tls_free :: "int \<Rightarrow> lt_world \<Rightarrow> host_error + lt_world" where
  "tls_free key w = warn_pthread (lthread_key_delete key w)"

definition tls_set :: "bool \<Rightarrow> nat \<Rightarrow> int \<Rightarrow> u64 \<Rightarrow> lt_world \<Rightarrow> host_error + lt_world" where
  "tls_set alloc_ok s key data w =
     andThen (lt (lthread_setspecific_remote alloc_ok (current_lthread w s) key data w)) warn_pthread"

definition tls_get :: "nat \<Rightarrow> int \<Rightarrow> lt_world \<Rightarrow> host_error + u64" where
  "tls_get s key w = lt (lthread_getspecific_remote (current_lthread w s) key w)"

section \<open>Memory\<close>

record host_mem =
  hm_mem :: enclave_mem
  kernel_mem :: u64
  kernel_mem_size :: u64

text \<open>
  \<^verbatim>\<open>kernel_mem < 0\<close> compares a pointer and is never true, so that the branch that returns \<^verbatim>\<open>NULL\<close> is not
  taken. The first argument is what \<^verbatim>\<open>oe_malloc\<close> would return.
\<close>

definition host_malloc :: "u64 \<Rightarrow> u64 \<Rightarrow> host_mem \<Rightarrow> lt_error + u64 \<times> host_mem" where
  "host_malloc oe_malloc_result sz h =
     (if sz > 1024 * 1024
      then if kernel_mem h \<noteq> 0 then Inl Assertion_failed
           else andThen (or_spin (enclave_mmap 0 sz False 3 False (hm_mem h))) (\<lambda>(p, m).
             let h1 = h \<lparr> hm_mem := m, kernel_mem := p \<rparr>
             in if p < 0 then Inr (0, h1) else Inr (p, h1 \<lparr> kernel_mem_size := sz \<rparr>))
      else Inr (oe_malloc_result, h))"

text \<open>\<open>Some ptr\<close> in the result is what goes to \<^verbatim>\<open>oe_free\<close>.\<close>

definition host_free :: "u64 \<Rightarrow> host_mem \<Rightarrow> lt_error + u64 option \<times> host_mem" where
  "host_free p h =
     (if p = kernel_mem h
      then andThen (or_spin (enclave_munmap (kernel_mem h) (kernel_mem_size h) (hm_mem h))) (\<lambda>(_, m).
        Inr (None, h \<lparr> hm_mem := m, kernel_mem := 0, kernel_mem_size := 0 \<rparr>))
      else Inr (Some p, h))"

section \<open>The text of \<^verbatim>\<open>/proc/cpuinfo\<close>\<close>

text \<open>
  The lengths only: \<open>text_len core cores\<close> is what \<^verbatim>\<open>snprintf\<close> returns for the entry of one core. The result is
  the sum and the number of bytes of the buffer that are still free.
\<close>

fun cpuinfo_loop :: "(nat \<Rightarrow> nat \<Rightarrow> int) \<Rightarrow> nat \<Rightarrow> nat list \<Rightarrow> u32 \<Rightarrow> u32 \<Rightarrow> u32 \<times> u32" where
  "cpuinfo_loop text_len cores [] buffer_len total_len = (total_len, buffer_len)"
| "cpuinfo_loop text_len cores (core # rest) buffer_len total_len =
     (let len = text_len core cores
      in if len < 0 then (0, buffer_len)
         else cpuinfo_loop text_len cores rest
           (if (word_of_int len :: u32) \<ge> buffer_len then 0 else buffer_len - word_of_int len) (total_len + word_of_int len))"

definition sgxlkl_cpuinfo_get :: "(nat \<Rightarrow> nat \<Rightarrow> int) \<Rightarrow> nat \<Rightarrow> u32 \<Rightarrow> u32" where
  "sgxlkl_cpuinfo_get text_len num_cores buffer_len = fst (cpuinfo_loop text_len num_cores [0..<num_cores] buffer_len 0)"

section \<open>Timers\<close>

text \<open>
  The mutex of a timer is held during each of the following definitions, which describe what happens
  between taking and releasing it. The counter \<^verbatim>\<open>wake\<close> is the word at address \<open>wake\<close> of user memory;
  \<open>tm_thread\<close> is 0 before the timer was armed the first time.
\<close>

record sgxlkl_timer =
  delay_ns :: u64
  next_delay_ns :: u64
  tm_thread :: nat
  wake :: u64
  armed :: bool

definition timer_alloc :: "u64 \<Rightarrow> sgxlkl_timer" where
  "timer_alloc a = \<lparr> delay_ns = 0, next_delay_ns = 0, tm_thread = 0, wake = a, armed = False \<rparr>"

text \<open>\<open>_lthread_timespec_to_usec\<close> of the delay, split into seconds and nanoseconds.\<close>

definition timespec_to_usec :: "u64 \<Rightarrow> u64 \<Rightarrow> u64" where
  "timespec_to_usec tv_sec tv_nsec = tv_sec * 1000000 + tv_nsec div 1000"

definition delay_usec :: "u64 \<Rightarrow> u64" where
  "delay_usec ns = timespec_to_usec (ns div 1000000000) (ns mod 1000000000)"

text \<open>
  The timer's thread: before its sleep (\<open>None\<close>: it ends because the delay is zero), with the value of the
  counter that it expects; and after the sleep with the mutex taken again, where \<open>callback\<close> is the
  callback (which may set the timer from this thread). The last result says whether the thread ends.
\<close>

definition timer_before_sleep :: "sgxlkl_timer \<Rightarrow> futex_state \<Rightarrow> (u32 \<times> u64) option" where
  "timer_before_sleep tm f = (if delay_ns tm \<le> 0 then None else Some (umem f (wake tm), delay_usec (delay_ns tm)))"

definition timer_after_sleep :: "(sgxlkl_timer \<Rightarrow> sgxlkl_timer) \<Rightarrow> int \<Rightarrow> sgxlkl_timer \<Rightarrow> sgxlkl_timer \<times> bool" where
  "timer_after_sleep callback ret tm =
     (if \<not> armed tm then (tm, True)
      else if ret = - ETIMEDOUT
      then let tm1 = callback (tm \<lparr> next_delay_ns := 0 \<rparr>);
               tm2 = (if next_delay_ns tm1 \<noteq> 0 then tm1 \<lparr> delay_ns := next_delay_ns tm1, next_delay_ns := 0 \<rparr> else tm1)
           in (tm2, \<not> armed tm2)
      else (tm, \<not> armed tm))"

text \<open>
  \<open>timer_set_oneshot\<close> from the callback, and from another thread. \<open>create\<close> starts the timer's thread; the
  results of \<^verbatim>\<open>enclave_futex_wake\<close> and \<^verbatim>\<open>lthread_create\<close> are followed where the code looks at them.
\<close>

definition timer_set_own :: "u64 \<Rightarrow> sgxlkl_timer \<Rightarrow> int \<times> sgxlkl_timer" where
  "timer_set_own ns tm =
     (if \<not> armed tm then (- 1, tm)
      else if next_delay_ns tm \<noteq> 0
      then (0, if ns < next_delay_ns tm then tm \<lparr> next_delay_ns := ns \<rparr> else tm)
      else (0, tm \<lparr> next_delay_ns := ns \<rparr>))"

definition timer_set_other ::
    "(lt_world \<Rightarrow> lt_error + int \<times> nat \<times> lt_world) \<Rightarrow> u64 \<Rightarrow> sgxlkl_timer \<Rightarrow> lt_world \<Rightarrow> host_error + sgxlkl_timer \<times> lt_world" where
  "timer_set_other create ns tm w =
     (if armed tm
      then let f = set_word (wake tm) (umem (fut w) (wake tm) + 1) (fut w)
           in andThen (lt (or_spin (enclave_futex_wake (wake tm) 1 f))) (\<lambda>(_, f1).
                Inr (tm \<lparr> delay_ns := ns \<rparr>, w \<lparr> fut := f1 \<rparr>))
      else andThen (lt (create w)) (\<lambda>(res, thread, w1).
             if res \<noteq> 0 then Inl Failed
             else Inr (tm \<lparr> armed := True, delay_ns := ns, next_delay_ns := 0, tm_thread := thread \<rparr>, w1)))"

definition timer_set_oneshot ::
    "(lt_world \<Rightarrow> lt_error + int \<times> nat \<times> lt_world) \<Rightarrow> nat \<Rightarrow> u64 \<Rightarrow> sgxlkl_timer \<Rightarrow> lt_world \<Rightarrow>
     host_error + int \<times> sgxlkl_timer \<times> lt_world" where
  "timer_set_oneshot create self ns tm w =
     (if tm_thread tm = self then (let (r, tm1) = timer_set_own ns tm in Inr (r, tm1, w))
      else andThen (timer_set_other create ns tm w) (\<lambda>(tm1, w1). Inr (0, tm1, w1)))"

text \<open>\<open>timer_free\<close> up to the join: the thread to join, if the timer was armed.\<close>

definition timer_free_begin :: "sgxlkl_timer \<Rightarrow> lt_world \<Rightarrow> host_error + nat option \<times> sgxlkl_timer \<times> lt_world" where
  "timer_free_begin tm w =
     (if armed tm
      then let f = set_word (wake tm) (umem (fut w) (wake tm) + 1) (fut w)
           in andThen (lt (or_spin (enclave_futex_wake (wake tm) 1 f))) (\<lambda>(_, f1).
                Inr (Some (tm_thread tm), tm \<lparr> armed := False \<rparr>, w \<lparr> fut := f1 \<rparr>))
      else Inr (None, tm, w))"

section \<open>Properties\<close>

text \<open>
  C40: when the memory manager has no room for the kernel's memory, \<open>host_malloc\<close> does not return \<^verbatim>\<open>NULL\<close>
  but the negated error number as a pointer, and remembers it as the kernel's memory, so that every later large
  request fails an assertion.
\<close>

theorem host_malloc_failure:
  assumes "mem_inv (hm_mem h)" and "request_ok 0 sz" and "1024 * 1024 < sz" and "kernel_mem h = 0"
    and "\<forall>t. t + req_pages sz \<le> npages_of (hm_mem h) \<longrightarrow> \<not> free_run (mmap_bitmap (hm_mem h)) t (req_pages sz)"
  shows "\<exists>h'. host_malloc r sz h = Inr (- 12, h') \<and> (- 12 :: u64) \<noteq> 0 \<and>
    (\<forall>r' sz'. 1024 * 1024 < sz' \<longrightarrow> host_malloc r' sz' h' = Inl Assertion_failed)"
  using assms(1,2)
proof (cases rule: enclave_mmap_cases [where fixed = False and prot = 3 and zero_pages = False])
  case fail
  then show ?thesis using assms(3,4) by (auto simp: host_malloc_def or_spin_def)
next
  case (ok t ret)
  then show ?thesis using assms(5) by (simp add: fits_def)
qed

text \<open>
  C24: setting an armed timer from another thread is not lost, wherever the timer's thread is. If the thread
  has read the counter and released the mutex but does not sleep yet, its wait returns at once; if it sleeps
  already, it is made runnable. In both cases it then finds the new delay.
\<close>

theorem timer_update_not_lost:
  assumes "futex_inv (fut w)" and "armed tm" and "timer_before_sleep tm (fut w) = Some (v, usec)"
    and "timer_set_other create ns tm w = Inr (tm', w')"
    and "\<forall>e \<in> set (futex_queues (fut w)). futex_key e = to_futex_key (wake tm) \<longrightarrow> futex_lt e = self"
  shows "delay_ns tm' = ns \<and> armed tm' \<and>
    enclave_futex_timedwait self (wake tm) v (Some usec) now (fut w') = Some (Inl (- 11, fut w')) \<and>
    ((\<exists>e \<in> set (futex_queues (fut w)). futex_key e = to_futex_key (wake tm)) \<longrightarrow>
      self \<in> set (run_queue (fut w')) \<and> self \<notin> sleeping (fut w'))"
proof -
  let ?f = "set_word (wake tm) (umem (fut w) (wake tm) + 1) (fut w)"
  let ?ws = "chosen (to_futex_key (wake tm)) (unat (1 :: u32)) (futex_queues ?f)"
  have inv: "futex_inv ?f" using assms(1) by (simp add: futex_inv_def set_word_def)
  note r = enclave_futex_wake_result [OF inv, of "wake tm" 1]
  have w': "fut w' = wake_all FUTEX_NONE ?ws ?f" "tm' = tm \<lparr> delay_ns := ns \<rparr>"
    using assms(2,4) r by (auto simp: timer_set_other_def lt_def or_spin_def)
  have sub: "set ?ws \<subseteq> set (futex_queues ?f)" "distinct ?ws" using chosen_sub [OF inv_distinct [OF inv]] by auto
  have inv': "futex_inv (fut w')" unfolding w'(1) by (rule wake_all_inv [OF inv sub])
  have "umem (fut w') (wake tm) \<noteq> v" using assms(3) by (auto simp: w' sched_simps timer_before_sleep_def split: if_splits)
  then have wait: "enclave_futex_timedwait self (wake tm) v (Some usec) now (fut w') = Some (Inl (- 11, fut w'))"
    using inv' unlocked_same [of "fut w'"] by (simp add: enclave_futex_timedwait_def inv_lock futex_unlock_def futex_inv_def)
  have "self \<in> set (run_queue (fut w')) \<and> self \<notin> sleeping (fut w')"
    if e: "e \<in> set (futex_queues (fut w))" "futex_key e = to_futex_key (wake tm)" for e
  proof -
    have "filter (\<lambda>e. futex_key e = to_futex_key (wake tm)) (futex_queues (fut w)) \<noteq> []" using e by (auto simp: filter_empty_conv)
    then obtain x xs where x: "filter (\<lambda>e. futex_key e = to_futex_key (wake tm)) (futex_queues (fut w)) = x # xs"
      by (cases "filter (\<lambda>e. futex_key e = to_futex_key (wake tm)) (futex_queues (fut w))") auto
    then have "x \<in> set (filter (\<lambda>e. futex_key e = to_futex_key (wake tm)) (futex_queues (fut w)))" by simp
    then have "futex_lt x = self" using assms(5) by simp
    moreover have "?ws = [x]" using x by (simp add: chosen_def set_word_def)
    ultimately have "self \<in> set (run_queue (fut w'))" by (simp add: w' sched_simps)
    then show ?thesis using inv' by (auto simp: futex_inv_def sleeping_def)
  qed
  then show ?thesis using wait w' assms(2) by auto
qed

section \<open>Witnesses\<close>

theorem host_malloc_failure_witness:
  "\<exists>h'. host_malloc 0 0x200000 \<lparr> hm_mem = sample_used 0, kernel_mem = 0, kernel_mem_size = 0 \<rparr> = Inr (- 12, h') \<and>
     host_malloc 0 0x300000 h' = Inl Assertion_failed"
proof -
  have "request_ok 0 0x200000" by (simp add: request_ok_def)
  moreover have "req_pages 0x200000 = 512" by (simp add: req_pages_def)
  ultimately show ?thesis
    using host_malloc_failure [of "\<lparr> hm_mem = sample_used 0, kernel_mem = 0, kernel_mem_size = 0 \<rparr>" "0x200000" 0] sample_used_inv [of 0]
    by (auto simp: sample_fields)
qed

definition timer_asleep :: lt_world where
  "timer_asleep = (sample_world (\<lambda>_. None) [] (\<lambda>_. 0) sample_mem) \<lparr> fut := \<lparr> futex_queues =
     [\<lparr> futex_key = 16, futex_deadline = 50, futex_lt = 1 \<rparr>], futex_sleepers = 1, futex_locked = False,
     umem = (\<lambda>_. 7), lt_err = (\<lambda>_. 0), run_queue = [] \<rparr> \<rparr>"

definition armed_timer :: sgxlkl_timer where
  "armed_timer = \<lparr> delay_ns = 50000, next_delay_ns = 0, tm_thread = 1, wake = 16, armed = True \<rparr>"

theorem timer_update_not_lost_witness:
  "\<exists>tm' w'. timer_set_other (\<lambda>w. Inl Spins) 9000 armed_timer timer_asleep = Inr (tm', w') \<and>
     delay_ns tm' = 9000 \<and> 1 \<in> set (run_queue (fut w'))"
proof -
  have inv: "futex_inv (fut timer_asleep)" by (simp add: futex_inv_def timer_asleep_def)
  have b: "timer_before_sleep armed_timer (fut timer_asleep) = Some (7, 50)"
    by (simp add: timer_before_sleep_def armed_timer_def timer_asleep_def delay_usec_def timespec_to_usec_def)
  let ?f = "set_word 16 8 (fut timer_asleep)"
  have "futex_inv ?f" using inv by (simp add: futex_inv_def set_word_def)
  from enclave_futex_wake_result [OF this, of 16 1] obtain w f where "enclave_futex_wake 16 1 ?f = Some (w, f)" by blast
  then have "timer_set_other (\<lambda>w. Inl Spins) 9000 armed_timer timer_asleep =
      Inr (armed_timer \<lparr> delay_ns := 9000 \<rparr>, timer_asleep \<lparr> fut := f \<rparr>)"
    by (simp add: timer_set_other_def armed_timer_def lt_def or_spin_def timer_asleep_def)
  moreover from timer_update_not_lost [OF inv _ b this, of 1 0]
  have "1 \<in> set (run_queue (fut (timer_asleep \<lparr> fut := f \<rparr>)))"
    by (simp add: armed_timer_def timer_asleep_def to_futex_key_def)
  ultimately show ?thesis by (intro exI conjI) (assumption, simp_all)
qed

end
