(* ===== verification/Virtio_Ring.thy ===== *)
theory Virtio_Ring
  imports Prelude
begin

text \<open>
  The host side of the virtio devices: \<^verbatim>\<open>src/src/host_interface/virtio.c\<close>, which takes requests from the available ring and
  gives them back on the used ring of a queue, and the block device of
  \<^verbatim>\<open>src/src/host_interface/virtio_blkdev.c\<close>. The rings are functions from indices to entries; the ring indices are
  16-bit words that wrap around. The memory is that of a little-endian machine, where \<^verbatim>\<open>le16toh\<close> and \<^verbatim>\<open>htole16\<close>
  are the identity.
\<close>

section \<open>Queues\<close>

record virtq_desc =
  d_addr :: u64
  d_len :: u32
  d_flags :: u16
  d_next :: u16

record virtq_used_elem =
  e_id :: u32
  e_len :: u32

record virtq =
  num :: u32
  ready :: u32
  max_merge_len :: u32
  desc :: "nat \<Rightarrow> virtq_desc"
  avail_idx :: u16
  avail_ring :: "nat \<Rightarrow> u16"
  used_idx :: u16
  used_ring :: "nat \<Rightarrow> virtq_used_elem"
  last_avail_idx :: u16
  last_used_idx_signaled :: u16

text \<open>A buffer of a request: address and length.\<close>

type_synonym iovec = "u64 \<times> u64"

abbreviation (input) VRING_DESC_F_NEXT :: u16 where "VRING_DESC_F_NEXT \<equiv> 1"
abbreviation (input) VIRTIO_REQ_MAX_BUFS :: nat where "VIRTIO_REQ_MAX_BUFS \<equiv> 19"

text \<open>The place of a running index in the ring: \<^verbatim>\<open>idx & (q->num - 1)\<close>.\<close>

definition slot :: "virtq \<Rightarrow> u16 \<Rightarrow> nat" where
  "slot q i = unat ((ucast i :: u32) AND (num q - 1))"

definition vring_desc_at_avail_idx :: "virtq \<Rightarrow> u16 \<Rightarrow> virtq_desc" where
  "vring_desc_at_avail_idx q idx = desc q (slot q (avail_ring q (slot q idx)))"

definition add_dev_buf_from_vring_desc :: "virtq_desc \<Rightarrow> iovec list \<times> u32 \<Rightarrow> iovec list \<times> u32" where
  "add_dev_buf_from_vring_desc d = (\<lambda>(bufs, total_len). (bufs @ [(d_addr d, ucast (d_len d))], total_len + d_len d))"

definition get_next_desc :: "virtq \<Rightarrow> virtq_desc \<Rightarrow> u16 \<Rightarrow> virtq_desc option \<times> u16" where
  "get_next_desc q d idx =
     (if max_merge_len q \<noteq> 0
      then if idx + 1 = avail_idx q then (None, idx + 1)
           else (Some (vring_desc_at_avail_idx q (idx + 1)), idx + 1)
      else if d_flags d AND VRING_DESC_F_NEXT = 0 then (None, idx)
      else (Some (desc q (slot q (d_next d))), idx))"

definition virtio_add_used :: "u16 \<Rightarrow> u16 \<Rightarrow> u16 \<Rightarrow> virtq \<Rightarrow> virtq" where
  "virtio_add_used u a len q =
     q \<lparr> used_ring := (used_ring q)(slot q u := \<lparr> e_id = ucast (avail_ring q (slot q a)), e_len = ucast len \<rparr>) \<rparr>"

definition virtio_sync_used_idx :: "u16 \<Rightarrow> virtq \<Rightarrow> virtq" where
  "virtio_sync_used_idx i q = q \<lparr> used_idx := i \<rparr>"

definition virtio_get_used_event :: "virtq \<Rightarrow> u16" where
  "virtio_get_used_event q = avail_ring q (unat (num q))"

definition lkl_vring_need_event :: "u16 \<Rightarrow> u16 \<Rightarrow> u16 \<Rightarrow> bool" where
  "lkl_vring_need_event event_idx new_idx old \<longleftrightarrow> new_idx - event_idx - 1 < new_idx - old"

text \<open>The loop of \<open>virtio_req_complete\<close>: the queue and both indices afterwards.\<close>

fun complete_loop :: "iovec list \<Rightarrow> u32 \<Rightarrow> u16 \<Rightarrow> u16 \<Rightarrow> virtq \<Rightarrow> virtq \<times> u16 \<times> u16" where
  "complete_loop [] len u a q = (q, u, a)"
| "complete_loop (b # bs) len u a q =
     (let used_len = (if max_merge_len q = 0 then ucast len
                      else if (ucast len :: u64) < snd b then ucast len else ucast (snd b)) :: u16;
          q1 = virtio_add_used u a used_len q;
          len1 = len - ucast used_len
      in if len1 = 0 then (q1, u + 1, a + 1) else complete_loop bs len1 (u + 1) (a + 1) q1)"

text \<open>
  The completion of a request that starts at \<open>idx\<close> of the available ring; the second result says whether
  an interrupt is delivered.
\<close>

definition virtio_req_complete :: "iovec list \<Rightarrow> u16 \<Rightarrow> u32 \<Rightarrow> virtq \<Rightarrow> virtq \<times> bool" where
  "virtio_req_complete bufs idx len q =
     (let (q1, u, a) = complete_loop bufs len (used_idx q) idx q;
          q2 = (virtio_sync_used_idx u q1) \<lparr> last_avail_idx := a \<rparr>;
          send_irq = (last_avail_idx q2 = avail_idx q2)
      in if send_irq \<or> lkl_vring_need_event (virtio_get_used_event q2) (used_idx q2) (last_used_idx_signaled q2)
         then (q2 \<lparr> last_used_idx_signaled := used_idx q2 \<rparr>, True)
         else (q2, False))"

section \<open>Taking requests\<close>

text \<open>The loop of \<open>virtio_process_one\<close> that collects the buffers of a request.\<close>

function collect :: "virtq \<Rightarrow> virtq_desc \<Rightarrow> u16 \<Rightarrow> iovec list \<times> u32 \<Rightarrow> iovec list \<times> u32" where
  "collect q d idx req =
     (let req1 = add_dev_buf_from_vring_desc d req
      in if max_merge_len q \<noteq> 0 \<and> snd req1 > max_merge_len q then req1
         else case get_next_desc q d idx of
           (None, _) \<Rightarrow> req1
         | (Some d', idx') \<Rightarrow> if length (fst req1) < VIRTIO_REQ_MAX_BUFS then collect q d' idx' req1 else req1)"
  by pat_completeness auto

termination
  by (relation "measure (\<lambda>(q, d, idx, req). VIRTIO_REQ_MAX_BUFS - length (fst req))")
    (auto simp: add_dev_buf_from_vring_desc_def split: prod.splits)

declare collect.simps [simp del]

text \<open>
  \<open>enqueue\<close> is the device's operation: its result, the length it passes to \<open>virtio_req_complete\<close> if it
  calls it, and the device's new state. The last component of the result counts interrupts.
\<close>

type_synonym 'd enqueue = "iovec list \<Rightarrow> 'd \<Rightarrow> int \<times> u32 option \<times> 'd"

definition virtio_process_one :: "'d enqueue \<Rightarrow> virtq \<Rightarrow> 'd \<Rightarrow> int \<times> virtq \<times> 'd \<times> nat" where
  "virtio_process_one enqueue q d =
     (let idx = last_avail_idx q;
          bufs = fst (collect q (vring_desc_at_avail_idx q idx) idx ([], 0));
          (r, done_len, d1) = enqueue bufs d
      in case done_len of
           None \<Rightarrow> (r, q, d1, 0)
         | Some len \<Rightarrow> (let (q1, irq) = virtio_req_complete bufs idx len q in (r, q1, d1, if irq then 1 else 0)))"

text \<open>The event index occupies the low half of the entry behind the ring.\<close>

definition virtio_set_avail_event :: "u16 \<Rightarrow> virtq \<Rightarrow> virtq" where
  "virtio_set_avail_event v q =
     (let e = used_ring q (unat (num q))
      in q \<lparr> used_ring := (used_ring q)(unat (num q) := e \<lparr> e_id := (e_id e AND 0xFFFF0000) OR ucast v \<rparr>) \<rparr>)"

partial_function (option) process_loop :: "'d enqueue \<Rightarrow> virtq \<Rightarrow> 'd \<Rightarrow> nat \<Rightarrow> (virtq \<times> 'd \<times> nat) option" where
  "process_loop enqueue q d irqs =
     (if last_avail_idx q = avail_idx q then Some (q, d, irqs)
      else case virtio_process_one enqueue q d of
        (r, q1, d1, i) \<Rightarrow>
          if r < 0 then Some (q1, d1, irqs + i)
          else process_loop enqueue
            (if last_avail_idx q1 = avail_idx q1 then virtio_set_avail_event (avail_idx q1) q1 else q1) d1 (irqs + i))"

definition virtio_process_queue :: "'d enqueue \<Rightarrow> virtq \<Rightarrow> 'd \<Rightarrow> (virtq \<times> 'd \<times> nat) option" where
  "virtio_process_queue enqueue q d = (if ready q = 0 then Some (q, d, 0) else process_loop enqueue q d 0)"

definition virtio_set_queue_max_merge_len :: "u32 \<Rightarrow> virtq \<Rightarrow> virtq" where
  "virtio_set_queue_max_merge_len len q = q \<lparr> max_merge_len := len \<rparr>"

section \<open>The block device\<close>

text \<open>
  The guest's memory, the bytes of the disk image, and whether the host's file operations fail. A read past the
  end of the file is short, a write past the end extends the file with zeros.
\<close>

record blk_dev =
  gmem :: "u64 \<Rightarrow> u8"
  disk :: "u8 list"
  io_fails :: bool

abbreviation (input) BLK_STATUS_IOERR :: u8 where "BLK_STATUS_IOERR \<equiv> 1"
abbreviation (input) BLK_STATUS_UNSUP :: int where "BLK_STATUS_UNSUP \<equiv> 2"

definition load_bytes :: "nat \<Rightarrow> u64 \<Rightarrow> (u64 \<Rightarrow> u8) \<Rightarrow> u8 list" where
  "load_bytes n a m = map (\<lambda>i. m (a + of_nat i)) [0..<n]"

definition store_bytes :: "u64 \<Rightarrow> u8 list \<Rightarrow> (u64 \<Rightarrow> u8) \<Rightarrow> u64 \<Rightarrow> u8" where
  "store_bytes a bs m = fold (\<lambda>(i, b) m. m(a + of_nat i := b)) (enumerate 0 bs) m"

definition le_value :: "u8 list \<Rightarrow> nat" where
  "le_value bs = foldr (\<lambda>b acc. unat b + 256 * acc) bs 0"

definition host_pread :: "u64 \<Rightarrow> nat \<Rightarrow> nat \<Rightarrow> blk_dev \<Rightarrow> int \<times> blk_dev" where
  "host_pread buf count offset b =
     (if io_fails b then (- 1, b)
      else let bs = take count (drop offset (disk b)) in (int (length bs), b \<lparr> gmem := store_bytes buf bs (gmem b) \<rparr>))"

definition host_pwrite :: "u64 \<Rightarrow> nat \<Rightarrow> nat \<Rightarrow> blk_dev \<Rightarrow> int \<times> blk_dev" where
  "host_pwrite buf count offset b =
     (if io_fails b then (- 1, b)
      else let old = disk b @ replicate (offset - length (disk b)) 0
           in (int count, b \<lparr> disk := take offset old @ load_bytes count buf (gmem b) @ drop (offset + count) old \<rparr>))"

definition host_fsync :: "blk_dev \<Rightarrow> int" where
  "host_fsync b = (if io_fails b then - 1 else 0)"

text \<open>
  The fields of the request header are at offsets 0 (type) and 8 (sector) of its 16 bytes; the trailer is the status
  byte. The status is the low byte of what the file operation returned.
\<close>

definition blk_transfer :: "iovec list \<Rightarrow> blk_dev \<Rightarrow> int \<times> blk_dev" where
  "blk_transfer bufs b =
     (let h = fst (bufs ! 0);
          type = le_value (load_bytes 4 h (gmem b));
          offset = unat (of_nat (le_value (load_bytes 8 (h + 8) (gmem b))) * 512 :: u64);
          (base, len) = bufs ! 1
      in if type = 0 then host_pread base (unat len) offset b
         else if type = 1 then host_pwrite base (unat len) offset b
         else if type = 4 \<or> type = 5 then (host_fsync b, b)
         else (BLK_STATUS_UNSUP, b))"

definition blk_enqueue :: "blk_dev enqueue" where
  "blk_enqueue bufs b =
     (if length bufs < 3 then (0, Some 0, b)
      else
        let t = fst (last bufs);
            b1 = b \<lparr> gmem := (gmem b)(t := BLK_STATUS_IOERR) \<rparr>
        in if snd (bufs ! 0) \<noteq> 16 \<or> snd (last bufs) \<noteq> 1 then (0, Some 0, b1)
           else let (ret, b2) = blk_transfer bufs b1
                in (0, Some 0, b2 \<lparr> gmem := (gmem b2)(t := word_of_int ret) \<rparr>))"

lemma blk_enqueue_result: "\<exists>b'. blk_enqueue bufs b = (0, Some 0, b')"
  by (simp add: blk_enqueue_def Let_def split: prod.splits)

section \<open>Places in the ring\<close>

text \<open>The number of entries is a power of two that a 16-bit index can address.\<close>

definition ring_size :: "virtq \<Rightarrow> nat \<Rightarrow> bool" where
  "ring_size q k \<longleftrightarrow> k \<le> 15 \<and> num q = push_bit k 1"

lemma slot_mod: "ring_size q k \<Longrightarrow> slot q i = unat i mod 2 ^ k"
proof -
  assume r: "ring_size q k"
  then have "num q - 1 = (mask k :: u32)" by (simp add: ring_size_def mask_eq_exp_minus_1)
  then have "slot q i = unat (take_bit k (ucast i :: u32))" by (simp add: slot_def take_bit_eq_mask)
  also have "\<dots> = take_bit k (unat (ucast i :: u32))" by (simp add: unsigned_take_bit_eq)
  also have "unat (ucast i :: u32) = unat i"
  proof -
    have "unat i < 2 ^ 32" by (rule order_less_le_trans [OF unsigned_less]) simp
    then show ?thesis by (simp add: unsigned_ucast_eq take_bit_nat_eq_self_iff)
  qed
  finally show ?thesis by (simp add: take_bit_eq_mod)
qed

lemma unat_num: "ring_size q k \<Longrightarrow> unat (num q) = 2 ^ k"
proof -
  assume "ring_size q k"
  then have "num q = 2 ^ k" and k: "k \<le> 15" by (simp_all add: ring_size_def push_bit_eq_mult)
  moreover have "(2 :: nat) ^ k < 2 ^ 32" using k by (intro power_strict_increasing) simp_all
  ultimately show ?thesis using unat_of_nat_small [of "2 ^ k", where 'a = 32] by simp
qed

lemma slot_neq:
  assumes "ring_size q k" and "i < j" and "j < 2 ^ k"
  shows "slot q (u + of_nat i) \<noteq> slot q (u + of_nat j)"
proof
  assume eq: "slot q (u + of_nat i) = slot q (u + of_nat j)"
  have k: "k \<le> 16" using assms(1) by (simp add: ring_size_def)
  have "unat (u + of_nat x) mod 2 ^ k = (unat u + x) mod 2 ^ k" for x
  proof -
    have "unat (u + of_nat x) = (unat u + x) mod 2 ^ 16" by (simp add: unat_word_ariths unat_of_nat mod_simps)
    moreover have "(2 :: nat) ^ k dvd 2 ^ 16" using k by (rule le_imp_power_dvd)
    ultimately show ?thesis by (simp only: mod_mod_cancel)
  qed
  then have "(unat u + i) mod 2 ^ k = (unat u + j) mod 2 ^ k" using eq by (simp add: slot_mod [OF assms(1)])
  then have "(2 :: nat) ^ k dvd (unat u + j) - (unat u + i)" using assms(2) by (intro mod_eq_dvd_iff_nat [THEN iffD1]) simp_all
  then show False using assms(2,3) by (auto dest: dvd_imp_le)
qed

lemma slot_less: "ring_size q k \<Longrightarrow> slot q i < 2 ^ k"
  by (simp add: slot_mod)

section \<open>Draining a queue\<close>

text \<open>A device that completes every request at once with length zero, like the block device.\<close>

definition completes :: "'d enqueue \<Rightarrow> bool" where
  "completes enqueue \<longleftrightarrow> (\<forall>bufs d. \<exists>d'. enqueue bufs d = (0, Some 0, d'))"

lemma collect_nonempty: "fst (collect q d idx req) \<noteq> []"
proof (induction q d idx req rule: collect.induct)
  case (1 q d idx req)
  let ?req1 = "add_dev_buf_from_vring_desc d req"
  have "fst ?req1 \<noteq> []" by (simp add: add_dev_buf_from_vring_desc_def split: prod.splits)
  moreover obtain n i where "get_next_desc q d idx = (n, i)" by fastforce
  ultimately show ?case using 1 [of ?req1 n i] by (subst collect.simps) (auto simp: Let_def split: option.splits)
qed

lemma complete_loop_zero: "bufs \<noteq> [] \<Longrightarrow> complete_loop bufs 0 u a q = (virtio_add_used u a 0 q, u + 1, a + 1)"
  by (cases bufs) (auto simp: Let_def word_gt_0)

text \<open>One request: its descriptor index goes to the used ring, both running indices advance.\<close>

lemma process_one_completes:
  assumes "completes enqueue"
  shows "\<exists>q1 d1 i. virtio_process_one enqueue q d = (0, q1, d1, i) \<and>
    last_avail_idx q1 = last_avail_idx q + 1 \<and> used_idx q1 = used_idx q + 1 \<and>
    used_ring q1 = (used_ring q)(slot q (used_idx q) := \<lparr> e_id = ucast (avail_ring q (slot q (last_avail_idx q))), e_len = 0 \<rparr>) \<and>
    num q1 = num q \<and> avail_idx q1 = avail_idx q \<and> avail_ring q1 = avail_ring q \<and>
    (last_avail_idx q + 1 = avail_idx q \<longrightarrow> i = 1)"
proof -
  let ?bufs = "fst (collect q (vring_desc_at_avail_idx q (last_avail_idx q)) (last_avail_idx q) ([], 0))"
  obtain d1 where "enqueue ?bufs d = (0, Some 0, d1)" using assms by (auto simp: completes_def)
  then show ?thesis
    using complete_loop_zero [OF collect_nonempty]
    by (auto simp: virtio_process_one_def virtio_req_complete_def Let_def virtio_sync_used_idx_def virtio_add_used_def)
qed

lemma slot_cong: "num q1 = num q \<Longrightarrow> slot q1 = slot q"
  by (simp add: slot_def fun_eq_iff)

text \<open>What draining \<open>n\<close> requests makes of a queue.\<close>

definition drained :: "virtq \<Rightarrow> nat \<Rightarrow> nat \<Rightarrow> virtq \<Rightarrow> bool" where
  "drained q k n q' \<longleftrightarrow> last_avail_idx q' = avail_idx q \<and> used_idx q' = used_idx q + of_nat n \<and>
     (\<forall>j < n. used_ring q' (slot q (used_idx q + of_nat j)) =
        \<lparr> e_id = ucast (avail_ring q (slot q (last_avail_idx q + of_nat j))), e_len = 0 \<rparr>) \<and>
     (\<forall>s. s \<noteq> 2 ^ k \<and> (\<forall>j < n. s \<noteq> slot q (used_idx q + of_nat j)) \<longrightarrow> used_ring q' s = used_ring q s)"

lemma drained_step:
  assumes r: "ring_size q k" and n: "Suc n \<le> 2 ^ k" and d: "drained q2 k n q'"
    and "last_avail_idx q2 = last_avail_idx q + 1" "used_idx q2 = used_idx q + 1" "num q2 = num q" "avail_idx q2 = avail_idx q"
      "avail_ring q2 = avail_ring q"
    and u: "\<forall>s. s \<noteq> 2 ^ k \<longrightarrow> used_ring q2 s = ((used_ring q)(slot q (used_idx q) :=
        \<lparr> e_id = ucast (avail_ring q (slot q (last_avail_idx q))), e_len = 0 \<rparr>)) s"
  shows "drained q k (Suc n) q'"
proof -
  note eqs = assms(4-8) and sl = slot_cong [OF assms(6)]
  have shift: "x + 1 + of_nat j = x + of_nat (Suc j)" for x :: u16 and j by simp
  have first: "used_ring q' (slot q (used_idx q)) = \<lparr> e_id = ucast (avail_ring q (slot q (last_avail_idx q))), e_len = 0 \<rparr>"
  proof -
    have "slot q (used_idx q) \<noteq> slot q (used_idx q + of_nat (Suc j))" if "j < n" for j
      using slot_neq [OF r, of 0 "Suc j" "used_idx q"] that n by simp
    moreover have "slot q (used_idx q) \<noteq> 2 ^ k" using slot_less [OF r, of "used_idx q"] by simp
    ultimately show ?thesis using d u by (simp add: drained_def eqs sl shift del: of_nat_Suc)
  qed
  have rest: "used_ring q' (slot q (used_idx q + of_nat (Suc j))) =
      \<lparr> e_id = ucast (avail_ring q (slot q (last_avail_idx q + of_nat (Suc j)))), e_len = 0 \<rparr>" if "j < n" for j
    using d that by (simp add: drained_def eqs sl shift del: of_nat_Suc)
  have "used_ring q' (slot q (used_idx q + of_nat j)) =
      \<lparr> e_id = ucast (avail_ring q (slot q (last_avail_idx q + of_nat j))), e_len = 0 \<rparr>" if "j < Suc n" for j
    using first rest [of "j - 1"] that by (cases j) simp_all
  moreover have "used_ring q' s = used_ring q s" if "s \<noteq> 2 ^ k" "\<forall>j < Suc n. s \<noteq> slot q (used_idx q + of_nat j)" for s
  proof -
    have "\<forall>j < n. s \<noteq> slot q (used_idx q + of_nat (Suc j))" using that(2) by blast
    moreover have "s \<noteq> slot q (used_idx q)" using that(2) [rule_format, of 0] by simp
    ultimately show ?thesis using d u that(1) by (simp add: drained_def eqs sl shift del: of_nat_Suc)
  qed
  moreover have "used_idx q' = used_idx q + of_nat (Suc n)" "last_avail_idx q' = avail_idx q"
    using d by (simp_all add: drained_def eqs shift del: of_nat_Suc)
  ultimately show ?thesis by (simp add: drained_def del: of_nat_Suc)
qed

lemma process_loop_drains:
  assumes c: "completes enqueue" and "ring_size q k" and "unat (avail_idx q - last_avail_idx q) = n" and "n \<le> 2 ^ k"
  shows "\<exists>q' d' i. process_loop enqueue q d irqs = Some (q', d', irqs + i) \<and> drained q k n q' \<and> (0 < n \<longrightarrow> 0 < i)"
  using assms(2-)
proof (induction n arbitrary: q d irqs)
  case 0
  then have "avail_idx q = last_avail_idx q" by (simp add: unat_eq_0)
  then show ?case by (subst process_loop.simps) (auto simp: drained_def)
next
  case (Suc n)
  then have ne: "last_avail_idx q \<noteq> avail_idx q" by auto
  obtain q1 d1 i where 1: "virtio_process_one enqueue q d = (0, q1, d1, i)" "last_avail_idx q1 = last_avail_idx q + 1"
      "used_idx q1 = used_idx q + 1" "num q1 = num q" "avail_idx q1 = avail_idx q" "avail_ring q1 = avail_ring q"
      "used_ring q1 = (used_ring q)(slot q (used_idx q) := \<lparr> e_id = ucast (avail_ring q (slot q (last_avail_idx q))), e_len = 0 \<rparr>)"
      "last_avail_idx q + 1 = avail_idx q \<longrightarrow> i = 1"
    using process_one_completes [OF c, of q d] by blast
  define q2 where "q2 = (if last_avail_idx q1 = avail_idx q1 then virtio_set_avail_event (avail_idx q1) q1 else q1)"
  have f: "last_avail_idx q2 = last_avail_idx q + 1" "used_idx q2 = used_idx q + 1" "num q2 = num q" "avail_idx q2 = avail_idx q"
      "avail_ring q2 = avail_ring q" "\<forall>s. s \<noteq> 2 ^ k \<longrightarrow> used_ring q2 s = used_ring q1 s"
    using 1 unat_num [OF Suc.prems(1)] by (auto simp: q2_def virtio_set_avail_event_def Let_def)
  have "unat (avail_idx q2 - last_avail_idx q2) = unat (avail_idx q - last_avail_idx q - 1)" by (simp add: f algebra_simps)
  also have "\<dots> = n" using Suc.prems(2) by (subst unat_sub_small) (simp_all add: word_le_nat_alt)
  finally obtain q' d' j where 2: "process_loop enqueue q2 d1 (irqs + i) = Some (q', d', irqs + i + j)" "drained q2 k n q'" "0 < n \<longrightarrow> 0 < j"
    using Suc.IH [of q2 d1 "irqs + i"] Suc.prems f(3) by (auto simp: ring_size_def)
  have "process_loop enqueue q d irqs = Some (q', d', irqs + (i + j))"
    using ne 1(1) 2(1) by (subst process_loop.simps) (simp add: q2_def add.assoc)
  moreover have "drained q k (Suc n) q'" using drained_step [OF Suc.prems(1) _ 2(2) f(1-5)] Suc.prems(3) f(6) 1(7) by simp
  moreover have "0 < i + j"
  proof (cases n)
    case 0
    then have "avail_idx q - last_avail_idx q = 1" using Suc.prems(2) by (simp add: word_eq_unat)
    then show ?thesis using 1(8) by (simp add: algebra_simps)
  qed (use 2(3) in simp)
  ultimately show ?case by blast
qed


lemma blk_completes: "completes blk_enqueue"
  by (simp add: completes_def blk_enqueue_result)

text \<open>Three requests of the block device, with the indices about to wrap around.\<close>

definition blk_queue :: virtq where
  "blk_queue = \<lparr> num = 4, ready = 1, max_merge_len = 0,
     desc = (\<lambda>i. \<lparr> d_addr = of_nat i * 4096, d_len = 512, d_flags = 1, d_next = of_nat i + 1 \<rparr>),
     avail_idx = 1, avail_ring = (\<lambda>i. of_nat (3 - i)), used_idx = 0xFFFE, used_ring = (\<lambda>_. \<lparr> e_id = 9, e_len = 9 \<rparr>),
     last_avail_idx = 0xFFFE, last_used_idx_signaled = 0 \<rparr>"


text \<open>
  The length of a used entry has 16 bits. A completion of 65536 bytes therefore leaves the remaining length as it was
  and gives back one available entry for every buffer of the request.
\<close>

lemma used_len_truncated:
  "max_merge_len q = 0 \<Longrightarrow> snd (complete_loop bufs 0x10000 u a q) = (u + of_nat (length bufs), a + of_nat (length bufs))"
  by (induction bufs arbitrary: u a q) (simp_all add: Let_def virtio_add_used_def add.assoc)

end
