(* ===== verification/Virtio_Mmio.thy ===== *)
theory Virtio_Mmio
  imports Prelude
begin

text \<open>
  The enclave side of the virtio devices, \<^verbatim>\<open>src/src/lkl/virtio.c\<close>: the registers that the Linux driver reads and
  writes, and the registration of a device. An access to an element that an array does not have is the
  error \<open>Out_of_bounds\<close>; \<open>notifications\<close> records the queue numbers passed to the host. The register
  offsets are those of the virtio standard.
\<close>

section \<open>Devices\<close>

record virtq_regs =
  q_num_max :: u32
  q_num :: u32
  q_ready :: u32
  q_desc :: u64
  q_avail :: u64
  q_used :: u64

record virtio_dev =
  device_id :: u32
  vendor_id :: u32
  device_features :: u64
  device_features_sel :: u32
  driver_features :: u64
  driver_features_sel :: u32
  queue_sel :: u32
  queue :: "virtq_regs list"
  int_status :: u32
  status :: u32
  config_gen :: u32
  irq :: int
  config_data :: "u8 list"
  config_len :: int
  base :: u64
  virtio_mmio_id :: u32
  notifications :: "(u8 \<times> u32) list"

datatype mmio_error = Out_of_bounds

abbreviation (input) VIRTIO_DEV_MAGIC :: u32 where "VIRTIO_DEV_MAGIC \<equiv> 0x74726976"
abbreviation (input) VIRTIO_DEV_VERSION :: u32 where "VIRTIO_DEV_VERSION \<equiv> 2"
abbreviation (input) S_FEATURES_OK :: u32 where "S_FEATURES_OK \<equiv> 8"
abbreviation (input) F_VERSION_1 :: nat where "F_VERSION_1 \<equiv> 32"
abbreviation (input) RING_F_EVENT_IDX :: nat where "RING_F_EVENT_IDX \<equiv> 29"

section \<open>Reading\<close>

definition virtio_read_device_features :: "virtio_dev \<Rightarrow> u32" where
  "virtio_read_device_features dev =
     (if device_features_sel dev \<noteq> 0 then ucast (drop_bit 32 (device_features dev)) else ucast (device_features dev))"

definition selected :: "virtio_dev \<Rightarrow> mmio_error + virtq_regs" where
  "selected dev =
     (if unat (queue_sel dev) < length (queue dev) then Inr (queue dev ! unat (queue_sel dev)) else Inl Out_of_bounds)"

text \<open>The four bytes of a register, lowest first.\<close>

definition le32 :: "u32 \<Rightarrow> u8 list" where
  "le32 v = map (\<lambda>i. ucast (drop_bit (8 * i) v)) [0..<4]"

definition of_le32 :: "u8 list \<Rightarrow> u32" where
  "of_le32 bs = foldr (\<lambda>b acc. ucast b OR push_bit 8 acc) bs 0"

text \<open>The value of a register, \<open>None\<close> for an offset that is not a readable register.\<close>

definition virtio_read_reg :: "virtio_dev \<Rightarrow> int \<Rightarrow> mmio_error + u32 option" where
  "virtio_read_reg dev offset =
     (if offset = 0x000 then Inr (Some VIRTIO_DEV_MAGIC)
      else if offset = 0x004 then Inr (Some VIRTIO_DEV_VERSION)
      else if offset = 0x008 then Inr (Some (device_id dev))
      else if offset = 0x00C then Inr (Some (vendor_id dev))
      else if offset = 0x010 then Inr (Some (virtio_read_device_features dev))
      else if offset = 0x034 then andThen (selected dev) (\<lambda>q. Inr (Some (q_num_max q)))
      else if offset = 0x044 then andThen (selected dev) (\<lambda>q. Inr (Some (q_ready q)))
      else if offset = 0x060 then Inr (Some (int_status dev))
      else if offset = 0x070 then Inr (Some (status dev))
      else if offset = 0x0FC then Inr (Some (config_gen dev))
      else Inr None)"

text \<open>The result code and the bytes stored in \<^verbatim>\<open>res\<close>.\<close>

definition virtio_read :: "virtio_dev \<Rightarrow> int \<Rightarrow> int \<Rightarrow> mmio_error + int \<times> u8 list" where
  "virtio_read dev offset sz =
     (if offset \<ge> 0x100
      then let off = offset - 0x100
           in if off + sz > config_len dev then Inr (- EINVAL, [])
              else if off + sz > int (length (config_data dev)) then Inl Out_of_bounds
              else Inr (0, take (nat sz) (drop (nat off) (config_data dev)))
      else if sz \<noteq> 4 then Inr (- EINVAL, [])
      else andThen (virtio_read_reg dev offset) (\<lambda>r.
        case r of None \<Rightarrow> Inr (- 1, []) | Some v \<Rightarrow> Inr (0, le32 v)))"

section \<open>Writing\<close>

definition virtio_write_driver_features :: "u32 \<Rightarrow> virtio_dev \<Rightarrow> virtio_dev" where
  "virtio_write_driver_features val dev =
     (if driver_features_sel dev \<noteq> 0
      then dev \<lparr> driver_features := (driver_features dev AND 0xFFFFFFFF) OR push_bit 32 (ucast val) \<rparr>
      else dev \<lparr> driver_features := (driver_features dev AND 0xFFFFFFFF00000000) OR ucast val \<rparr>)"

definition blk_check_features :: "virtio_dev \<Rightarrow> int" where
  "blk_check_features dev = (if driver_features dev = device_features dev then 0 else - EINVAL)"

definition set_status :: "u32 \<Rightarrow> virtio_dev \<Rightarrow> virtio_dev" where
  "set_status val dev =
     (if val AND S_FEATURES_OK \<noteq> 0 \<and>
         (\<not> bit (driver_features dev) F_VERSION_1 \<or> \<not> bit (driver_features dev) RING_F_EVENT_IDX \<or>
          blk_check_features dev \<noteq> 0)
      then dev \<lparr> status := val AND NOT S_FEATURES_OK \<rparr>
      else dev \<lparr> status := val \<rparr>)"

definition set_ptr_low :: "u32 \<Rightarrow> u64 \<Rightarrow> u64" where
  "set_ptr_low val p = (p AND 0xFFFFFFFF00000000) OR ucast val"

definition set_ptr_high :: "u32 \<Rightarrow> u64 \<Rightarrow> u64" where
  "set_ptr_high val p = (p AND 0x00000000FFFFFFFF) OR push_bit 32 (ucast val)"

definition update_selected :: "(virtq_regs \<Rightarrow> virtq_regs) \<Rightarrow> virtio_dev \<Rightarrow> mmio_error + int \<times> virtio_dev" where
  "update_selected f dev =
     andThen (selected dev) (\<lambda>q. Inr (0, dev \<lparr> queue := (queue dev)[unat (queue_sel dev) := f q] \<rparr>))"

definition virtio_notify_host_device :: "u32 \<Rightarrow> virtio_dev \<Rightarrow> virtio_dev" where
  "virtio_notify_host_device qidx dev = dev \<lparr> notifications := notifications dev @ [(ucast (vendor_id dev), qidx)] \<rparr>"

definition virtio_write_reg :: "int \<Rightarrow> u32 \<Rightarrow> virtio_dev \<Rightarrow> mmio_error + int \<times> virtio_dev" where
  "virtio_write_reg offset val dev =
     (if offset = 0x014 then if val > 1 then Inr (- EINVAL, dev) else Inr (0, dev \<lparr> device_features_sel := val \<rparr>)
      else if offset = 0x024 then if val > 1 then Inr (- EINVAL, dev) else Inr (0, dev \<lparr> driver_features_sel := val \<rparr>)
      else if offset = 0x020 then Inr (0, virtio_write_driver_features val dev)
      else if offset = 0x030 then Inr (0, dev \<lparr> queue_sel := val \<rparr>)
      else if offset = 0x038 then update_selected (\<lambda>q. q \<lparr> q_num := val \<rparr>) dev
      else if offset = 0x044 then update_selected (\<lambda>q. q \<lparr> q_ready := val \<rparr>) dev
      else if offset = 0x050 then Inr (0, virtio_notify_host_device val dev)
      else if offset = 0x064 then Inr (0, dev \<lparr> int_status := 0 \<rparr>)
      else if offset = 0x070 then Inr (0, set_status val dev)
      else if offset = 0x080 then update_selected (\<lambda>q. q \<lparr> q_desc := set_ptr_low val (q_desc q) \<rparr>) dev
      else if offset = 0x084 then update_selected (\<lambda>q. q \<lparr> q_desc := set_ptr_high val (q_desc q) \<rparr>) dev
      else if offset = 0x090 then update_selected (\<lambda>q. q \<lparr> q_avail := set_ptr_low val (q_avail q) \<rparr>) dev
      else if offset = 0x094 then update_selected (\<lambda>q. q \<lparr> q_avail := set_ptr_high val (q_avail q) \<rparr>) dev
      else if offset = 0x0A0 then update_selected (\<lambda>q. q \<lparr> q_used := set_ptr_low val (q_used q) \<rparr>) dev
      else if offset = 0x0A4 then update_selected (\<lambda>q. q \<lparr> q_used := set_ptr_high val (q_used q) \<rparr>) dev
      else Inr (- 1, dev))"

definition virtio_write :: "int \<Rightarrow> u8 list \<Rightarrow> virtio_dev \<Rightarrow> mmio_error + int \<times> virtio_dev" where
  "virtio_write offset res dev =
     (let sz = int (length res)
      in if offset \<ge> 0x100
         then let off = offset - 0x100
              in if off + sz \<ge> config_len dev then Inr (- EINVAL, dev)
                 else if off + sz > int (length (config_data dev)) then Inl Out_of_bounds
                 else Inr (0, dev \<lparr> config_data :=
                        take (nat off) (config_data dev) @ res @ drop (nat (off + sz)) (config_data dev) \<rparr>)
         else if sz \<noteq> 4 then Inr (- EINVAL, dev)
         else virtio_write_reg offset (of_le32 res) dev)"

section \<open>Registration\<close>

text \<open>The list of devices for the kernel's command line, the number of devices, and the interrupt callbacks.\<close>

record virtio_setup =
  lkl_virtio_devs :: string
  lkl_num_virtio_boot_devs :: u32
  deliver_irq :: "u64 list"

definition hex_digit :: "nat \<Rightarrow> char" where
  "hex_digit d = (if d < 10 then digit_char d else char_of (87 + d))"

fun hexadecimal :: "nat \<Rightarrow> string" where
  "hexadecimal n = (if n < 16 then [hex_digit n] else hexadecimal (n div 16) @ [hex_digit (n mod 16)])"

declare hexadecimal.simps [simp del]

definition decimal_int :: "int \<Rightarrow> string" where
  "decimal_int i = (if i < 0 then ''-'' @ decimal (nat (- i)) else decimal (nat i))"

definition device_text :: "int \<Rightarrow> u64 \<Rightarrow> int \<Rightarrow> string" where
  "device_text mmio_size b i =
     '' virtio_mmio.device='' @ decimal_int mmio_size @ ''@0x'' @ hexadecimal (unat b) @ '':'' @ decimal_int i"

text \<open>
  \<open>free_irq\<close>, \<open>iomem\<close> and \<open>added\<close> are the results of \<^verbatim>\<open>lkl_get_free_irq\<close>, \<^verbatim>\<open>register_iomem\<close> and
  \<^verbatim>\<open>lkl_sys_virtio_mmio_device_add\<close>. On the path that gives the interrupt and the region back the third result is \<open>True\<close>.
\<close>

definition lkl_virtio_dev_setup ::
    "int \<Rightarrow> u64 \<Rightarrow> bool \<Rightarrow> int \<Rightarrow> int \<Rightarrow> u64 \<Rightarrow> virtio_dev \<Rightarrow> virtio_setup \<Rightarrow> mmio_error + int \<times> virtio_dev \<times> virtio_setup \<times> bool" where
  "lkl_virtio_dev_setup free_irq iomem running added mmio_size cb dev st =
     (let dev1 = dev \<lparr> irq := free_irq, int_status := 0 \<rparr>
      in if free_irq < 0 then Inr (1, dev1, st, False)
         else if unat (vendor_id dev) \<ge> length (deliver_irq st) then Inl Out_of_bounds
         else
           let st1 = st \<lparr> deliver_irq := (deliver_irq st)[unat (vendor_id dev) := cb] \<rparr>;
               dev2 = dev1 \<lparr> base := iomem \<rparr>
           in if \<not> running
              then let txt = device_text mmio_size iomem free_irq
                   in if length (lkl_virtio_devs st) + length txt \<ge> 4096 then Inr (- ENOMEM, dev2, st1, True)
                      else Inr (0, dev2 \<lparr> virtio_mmio_id := lkl_num_virtio_boot_devs st \<rparr>,
                             st1 \<lparr> lkl_virtio_devs := lkl_virtio_devs st @ txt,
                                   lkl_num_virtio_boot_devs := lkl_num_virtio_boot_devs st + 1 \<rparr>, False)
              else if added < 0 then Inr (- 1, dev2, st1, False)
              else Inr (0, dev2 \<lparr> virtio_mmio_id := lkl_num_virtio_boot_devs st + word_of_int added \<rparr>, st1, False))"

text \<open>The callback that is called, if any.\<close>

definition lkl_virtio_deliver_irq :: "u8 \<Rightarrow> virtio_setup \<Rightarrow> mmio_error + u64 option" where
  "lkl_virtio_deliver_irq dev_id st =
     (if unat dev_id \<ge> length (deliver_irq st) then Inl Out_of_bounds
      else let cb = deliver_irq st ! unat dev_id in Inr (if cb \<noteq> 0 then Some cb else None))"

section \<open>Well-formed devices\<close>

text \<open>
  The feature selectors are 0 or 1, a queue that exists is selected, and the configuration has its length.
\<close>

definition dev_wf :: "virtio_dev \<Rightarrow> bool" where
  "dev_wf dev \<longleftrightarrow> device_features_sel dev \<le> 1 \<and> driver_features_sel dev \<le> 1 \<and>
     unat (queue_sel dev) < length (queue dev) \<and> int (length (config_data dev)) = config_len dev"

datatype access = Read int int | Write int "u8 list"

text \<open>Accesses one after the other; the results are collected.\<close>

fun mmio_run :: "access list \<Rightarrow> virtio_dev \<Rightarrow> mmio_error + (int \<times> u8 list) list \<times> virtio_dev" where
  "mmio_run [] dev = Inr ([], dev)"
| "mmio_run (Read offset sz # as) dev =
     andThen (virtio_read dev offset sz) (\<lambda>r. andThen (mmio_run as dev) (\<lambda>(rs, dev'). Inr (r # rs, dev')))"
| "mmio_run (Write offset bs # as) dev =
     andThen (virtio_write offset bs dev) (\<lambda>(r, dev1). andThen (mmio_run as dev1) (\<lambda>(rs, dev'). Inr ((r, []) # rs, dev')))"

definition selects_queue :: "nat \<Rightarrow> access \<Rightarrow> bool" where
  "selects_queue n a = (case a of Write offset bs \<Rightarrow> offset = 0x030 \<longrightarrow> unat (of_le32 bs) < n | _ \<Rightarrow> True)"

definition same_device :: "virtio_dev \<Rightarrow> virtio_dev \<Rightarrow> bool" where
  "same_device dev dev' \<longleftrightarrow> device_id dev' = device_id dev \<and> vendor_id dev' = vendor_id dev \<and>
     device_features dev' = device_features dev \<and> config_len dev' = config_len dev \<and>
     map q_num_max (queue dev') = map q_num_max (queue dev)"

lemma same_device_trans: "same_device a b \<Longrightarrow> same_device b c \<Longrightarrow> same_device a c"
  by (simp add: same_device_def)

lemma wf_selected: "dev_wf dev \<Longrightarrow> selected dev = Inr (queue dev ! unat (queue_sel dev))"
  by (simp add: dev_wf_def selected_def)

text \<open>An access that does not leave an array, on a device that stays well-formed and the same.\<close>

definition good :: "virtio_dev \<Rightarrow> mmio_error + int \<times> virtio_dev \<Rightarrow> bool" where
  "good dev x \<longleftrightarrow> (\<exists>r dev'. x = Inr (r, dev') \<and> dev_wf dev' \<and> same_device dev dev')"

lemma good_Inr [simp]: "good dev (Inr (r, dev')) \<longleftrightarrow> dev_wf dev' \<and> same_device dev dev'"
  by (simp add: good_def)

lemma good_update_selected:
  assumes "dev_wf dev" and "\<And>q. q_num_max (f q) = q_num_max q"
  shows "good dev (update_selected f dev)"
  using assms by (simp add: update_selected_def wf_selected dev_wf_def same_device_def map_update list_update_same_conv)

lemma good_fields:
  assumes "dev_wf dev"
  shows "good dev (Inr (r, virtio_write_driver_features val dev))" "good dev (Inr (r, virtio_notify_host_device val dev))"
    "good dev (Inr (r, set_status val dev))" "good dev (Inr (r, dev))" "good dev (Inr (r, dev \<lparr> int_status := 0 \<rparr>))"
    "val \<le> 1 \<Longrightarrow> good dev (Inr (r, dev \<lparr> device_features_sel := val \<rparr>))"
    "val \<le> 1 \<Longrightarrow> good dev (Inr (r, dev \<lparr> driver_features_sel := val \<rparr>))"
    "unat val < length (queue dev) \<Longrightarrow> good dev (Inr (r, dev \<lparr> queue_sel := val \<rparr>))"
  using assms
  by (simp_all add: virtio_write_driver_features_def virtio_notify_host_device_def set_status_def dev_wf_def same_device_def)

lemma write_reg_good:
  assumes "dev_wf dev" and "offset = 0x030 \<Longrightarrow> unat val < length (queue dev)"
  shows "good dev (virtio_write_reg offset val dev)"
  using assms(2) good_fields [OF assms(1)] good_update_selected [OF assms(1)]
  by (simp add: virtio_write_reg_def not_less del: good_Inr)

lemma write_good:
  assumes "dev_wf dev" and "selects_queue (length (queue dev)) (Write offset bs)"
  shows "good dev (virtio_write offset bs dev)"
  using assms write_reg_good [OF assms(1), of offset "of_le32 bs"]
  by (auto simp: virtio_write_def Let_def selects_queue_def dev_wf_def same_device_def)

lemma read_wf: "dev_wf dev \<Longrightarrow> \<exists>r. virtio_read dev offset sz = Inr r"
  by (auto simp: virtio_read_def virtio_read_reg_def wf_selected dev_wf_def Let_def)

section \<open>Properties\<close>


definition sample_dev :: virtio_dev where
  "sample_dev = \<lparr> device_id = 2, vendor_id = 1, device_features = 0x120000000, device_features_sel = 0, driver_features = 0,
     driver_features_sel = 0, queue_sel = 0, queue = [\<lparr> q_num_max = 32, q_num = 0, q_ready = 0, q_desc = 0, q_avail = 0, q_used = 0 \<rparr>],
     int_status = 0, status = 0, config_gen = 0, irq = 0, config_data = replicate 8 0, config_len = 8, base = 0,
     virtio_mmio_id = 0, notifications = [] \<rparr>"


text \<open>
  Selecting a queue that does not exist is not refused; the next access to a queue register leaves the array.
\<close>

lemma queue_sel_unchecked:
  "length (queue dev) \<le> unat (of_le32 [a, b, c, d]) \<Longrightarrow> mmio_run [Write 0x30 [a, b, c, d], Read 0x34 4] dev = Inl Out_of_bounds"
  by (simp add: virtio_write_def virtio_write_reg_def virtio_read_def virtio_read_reg_def selected_def)

text \<open>Writing the two halves of a ring address in either order gives the address.\<close>

lemma ptr_halves:
  "set_ptr_high (ucast (drop_bit 32 p)) (set_ptr_low (ucast p) x) = p"
  "set_ptr_low (ucast p) (set_ptr_high (ucast (drop_bit 32 p)) x) = (p :: u64)"
proof -
  have m: "(0xFFFFFFFF :: u64) = mask 32" "(0xFFFFFFFF00000000 :: u64) = NOT (mask 32)"
    by (simp_all add: mask_eq_exp_minus_1)
  show "set_ptr_high (ucast (drop_bit 32 p)) (set_ptr_low (ucast p) x) = p"
    by (rule bit_word_eqI) (auto simp: set_ptr_high_def set_ptr_low_def m bit_simps)
  show "set_ptr_low (ucast p) (set_ptr_high (ucast (drop_bit 32 p)) x) = (p :: u64)"
    by (rule bit_word_eqI) (auto simp: set_ptr_high_def set_ptr_low_def m bit_simps)
qed

end
