(* ===== verification/Json_Number.thy ===== *)
theory Json_Number
  imports Prelude
begin

text \<open>
  Characters and numbers of \<^verbatim>\<open>src/src/libjson/json.c\<close>: the character classes, the conversions between
  text and 64-bit integers, and the parsing of reals. A C string is the list of its characters, the end
  of the list being its terminating NUL; pointers into a string are its suffixes. Floating point
  arithmetic is not modelled: \<open>strtod\<close> returns the integers from which the C code computes the double.
\<close>

section \<open>Characters\<close>

abbreviation (input) code :: "char \<Rightarrow> nat" where "code c \<equiv> of_char c"

datatype json_result =
    JSON_OK | JSON_FAILED | JSON_EOF | JSON_BAD_SYNTAX | JSON_UNSUPPORTED | JSON_BAD_PARAMETER
  | JSON_UNEXPECTED | JSON_OUT_OF_MEMORY | JSON_TYPE_MISMATCH | JSON_NESTING_OVERFLOW
  | JSON_NESTING_UNDERFLOW | JSON_BUFFER_OVERFLOW | JSON_UNKNOWN_VALUE | JSON_OUT_OF_BOUNDS | JSON_NO_MATCH

text \<open>The result is an \<^verbatim>\<open>int\<close>, here a number: \<^verbatim>\<open>c - ' '\<close> for capital letters.\<close>

definition tolower :: "char \<Rightarrow> nat" where
  "tolower c = (if code CHR ''A'' \<le> code c \<and> code c \<le> code CHR ''Z'' then code c - 32 else code c)"

definition isdigit :: "char \<Rightarrow> bool" where
  "isdigit c \<longleftrightarrow> code CHR ''0'' \<le> code c \<and> code c \<le> code CHR ''9''"

definition isspace :: "char \<Rightarrow> bool" where
  "isspace c \<longleftrightarrow> c \<in> {CHR '' '', CHR 0x0C, CHR 0x0A, CHR 0x0D, CHR 0x09, CHR 0x0B}"

definition islower :: "char \<Rightarrow> bool" where
  "islower c \<longleftrightarrow> code CHR ''a'' \<le> code c \<and> code c \<le> code CHR ''z''"

definition isupper :: "char \<Rightarrow> bool" where
  "isupper c \<longleftrightarrow> code CHR ''A'' \<le> code c \<and> code c \<le> code CHR ''Z''"

text \<open>The quotation mark is \<^verbatim>\<open>0x22\<close> and the backslash \<^verbatim>\<open>0x5C\<close>.\<close>

definition isprint :: "char \<Rightarrow> bool" where
  "isprint c \<longleftrightarrow> isdigit c \<or> islower c \<or> isupper c \<or>
     c \<in> set '' !#$%&()*+,-./:;<=>?@[]^_{|}~'' \<or> c \<in> {CHR 0x22, CHR 0x27, CHR 0x5C, CHR 0x60}"

text \<open>The table of digit values; 255 for characters that are no digits in any base.\<close>

definition digit :: "char \<Rightarrow> nat" where
  "digit c = (if isdigit c then code c - code CHR ''0''
     else if isupper c then code c - code CHR ''A'' + 10
     else if islower c then code c - code CHR ''a'' + 10
     else 255)"

definition isdigit2 :: "char \<Rightarrow> int \<Rightarrow> bool" where
  "isdigit2 c base \<longleftrightarrow> int (digit c) < base"

section \<open>Text to integers\<close>

abbreviation (input) UINT64_MAX :: u64 where "UINT64_MAX \<equiv> - 1"
abbreviation (input) LONG_MAX :: u64 where "LONG_MAX \<equiv> 0x7FFFFFFFFFFFFFFF"
abbreviation (input) NUL :: char where "NUL \<equiv> CHR 0x00"

text \<open>The digit loop: \<open>Inl\<close> is overflow, with the position where it was found.\<close>

fun strtol_digits :: "int \<Rightarrow> u64 \<Rightarrow> string \<Rightarrow> string + u64 \<times> string" where
  "strtol_digits base x [] = Inr (x, [])"
| "strtol_digits base x (c # cs) =
     (if c \<noteq> NUL \<and> isdigit2 c base
      then if x > UINT64_MAX div word_of_int base then Inl (c # cs)
           else
             let x1 = x * word_of_int base; d = of_nat (digit c)
             in if d > UINT64_MAX - x1 then Inl (c # cs)
                else strtol_digits base (x1 + d) cs
      else Inr (x, c # cs))"

text \<open>Sign, and the prefixes that select or repeat the base.\<close>

definition strtol_sign :: "string \<Rightarrow> bool \<times> string" where
  "strtol_sign p = (case p of
     c # cs \<Rightarrow> if c = CHR ''+'' then (False, cs) else if c = CHR ''-'' then (True, cs) else (False, p)
   | [] \<Rightarrow> (False, p))"

definition hex_prefix :: "string \<Rightarrow> bool" where
  "hex_prefix p \<longleftrightarrow> (case p of a # b # _ \<Rightarrow> a = CHR ''0'' \<and> (b = CHR ''x'' \<or> b = CHR ''X'') | _ \<Rightarrow> False)"

definition zero_prefix :: "string \<Rightarrow> bool" where
  "zero_prefix p \<longleftrightarrow> (case p of a # _ \<Rightarrow> a = CHR ''0'' | [] \<Rightarrow> False)"

definition strtol_base :: "int \<Rightarrow> string \<Rightarrow> int" where
  "strtol_base base p =
     (if base \<noteq> 0 then base else if hex_prefix p then 16 else if zero_prefix p then 8 else 10)"

definition strtol_prefix :: "int \<Rightarrow> string \<Rightarrow> string" where
  "strtol_prefix base p =
     (let p1 = (if base = 16 \<and> hex_prefix p then drop 2 p else p)
      in if base = 8 \<and> zero_prefix p1 then drop 1 p1 else p1)"

definition negate :: "bool \<Rightarrow> u64 \<Rightarrow> u64" where
  "negate negative x =
     (if negative then if x > LONG_MAX then if x = LONG_MAX + 1 then x else 0 else - x else x)"

text \<open>
  \<open>strtol nptr base allow_whitespace\<close>: the value (as the 64 bits of the \<^verbatim>\<open>long\<close>), the position
  \<^verbatim>\<open>*endptr\<close>, and what is stored in \<^verbatim>\<open>json_conversion_error\<close>, if anything.
\<close>

definition strtol :: "string \<Rightarrow> int \<Rightarrow> bool \<Rightarrow> u64 \<times> string \<times> json_result option" where
  "strtol nptr base allow_whitespace =
     (if base < 0 then (0, nptr, None)
      else if \<not> allow_whitespace \<and> nptr \<noteq> [] \<and> isspace (hd nptr) then (UINT64_MAX, nptr, Some JSON_BAD_SYNTAX)
      else
        let p0 = (if allow_whitespace then dropWhile isspace nptr else nptr);
            (negative, p1) = strtol_sign p0;
            b = strtol_base base p1;
            p2 = strtol_prefix b p1
        in case strtol_digits b 0 p2 of
             Inl p \<Rightarrow> (UINT64_MAX, p, Some JSON_OUT_OF_BOUNDS)
           | Inr (x, p) \<Rightarrow> if length p = length nptr then (0, nptr, None) else (negate negative x, p, None))"

definition strtoul :: "string \<Rightarrow> int \<Rightarrow> bool \<Rightarrow> u64 \<times> string \<times> json_result option" where
  "strtoul nptr base allow_whitespace = strtol nptr base allow_whitespace"

text \<open>\<open>_strtou64\<close>: the number, and whether the whole string was one (result 0).\<close>

definition strtou64 :: "string \<Rightarrow> bool \<Rightarrow> u64 \<times> bool" where
  "strtou64 str allow_whitespace =
     (let (x, p, _) = strtoul str 10 allow_whitespace in (x, p = [] \<or> hd p = NUL))"

section \<open>Text to reals\<close>

text \<open>
  The C code computes \<open>x + y / r\<close>, multiplied or divided by ten \<open>exp\<close> times and negated, in doubles.
\<close>

record real_lit =
  rl_negative :: bool
  rl_x :: u64
  rl_y :: u64
  rl_r :: u64
  rl_exp_negative :: bool
  rl_exp :: u64

definition real_zero :: real_lit where
  "real_zero = \<lparr> rl_negative = False, rl_x = 0, rl_y = 0, rl_r = 1, rl_exp_negative = False, rl_exp = 0 \<rparr>"

text \<open>
  The fraction: \<open>None\<close> when there is a point with no digits on either side, otherwise numerator,
  divisor, position and \<^verbatim>\<open>*endptr\<close>.
\<close>

definition strtod_fraction :: "string \<Rightarrow> string \<Rightarrow> bool \<Rightarrow> bool \<Rightarrow> (u64 \<times> u64 \<times> string \<times> string) option" where
  "strtod_fraction p e have_x allow_whitespace =
     (if p \<noteq> [] \<and> hd p = CHR ''.''
      then let p1 = tl p; (y, q, _) = strtoul p1 10 allow_whitespace
           in if length q \<noteq> length p1 then Some (y, 10 ^ (length p1 - length q), q, q)
              else if have_x then Some (y, 1, p1, p1)
              else None
      else Some (0, 1, p, e))"

definition strtod_exponent :: "string \<Rightarrow> string \<Rightarrow> bool \<Rightarrow> bool \<times> u64 \<times> string" where
  "strtod_exponent p e allow_whitespace =
     (if p \<noteq> [] \<and> (hd p = CHR ''e'' \<or> hd p = CHR ''E'')
      then let p1 = tl p;
               exp_negative = (p1 \<noteq> [] \<and> hd p1 = CHR ''-'');
               p2 = (if p1 \<noteq> [] \<and> (hd p1 = CHR ''-'' \<or> hd p1 = CHR ''+'') then tl p1 else p1);
               (x, q, _) = strtoul p2 10 allow_whitespace
           in (exp_negative, x, if length q \<noteq> length p2 then q else e)
      else (False, 0, e))"

definition strtod :: "string \<Rightarrow> bool \<Rightarrow> real_lit \<times> string" where
  "strtod nptr allow_whitespace =
     (if \<not> allow_whitespace \<and> nptr \<noteq> [] \<and> isspace (hd nptr) then (real_zero, nptr)
      else
        let p0 = (if allow_whitespace then dropWhile isspace nptr else nptr);
            (negative, p1) = strtol_sign p0;
            (x, q, _) = strtoul p1 10 allow_whitespace;
            have_x = (length q \<noteq> length p1);
            e1 = (if have_x then q else nptr)
        in case strtod_fraction q e1 have_x allow_whitespace of
             None \<Rightarrow> (real_zero, q)
           | Some (y, r, p2, e2) \<Rightarrow>
               let (en, ex, e3) = strtod_exponent p2 e2 allow_whitespace
               in (\<lparr> rl_negative = negative, rl_x = x, rl_y = y, rl_r = r, rl_exp_negative = en, rl_exp = ex \<rparr>, e3))"

section \<open>Integers to text\<close>

text \<open>The digit loop of \<open>_i64tostr\<close>, which writes from the end of the buffer backwards.\<close>

fun i64_digits :: "nat \<Rightarrow> string \<Rightarrow> string" where
  "i64_digits x acc =
     (let acc1 = digit_char (x mod 10) # acc
      in if x div 10 = 0 then acc1 else i64_digits (x div 10) acc1)"

declare i64_digits.simps [simp del]

definition i64tostr :: "u64 \<Rightarrow> string" where
  "i64tostr x =
     (if sint x = - (2 ^ 63) then ''-9223372036854775808''
      else if sint x < 0 then CHR ''-'' # i64_digits (nat (- sint x)) []
      else i64_digits (nat (sint x)) [])"

section \<open>Decimal digits\<close>

definition dec_val :: "nat \<Rightarrow> string \<Rightarrow> nat" where
  "dec_val a ds = foldl (\<lambda>n c. 10 * n + digit c) a ds"

lemma dec_val_simps [simp]: "dec_val a [] = a" "dec_val a (c # cs) = dec_val (10 * a + digit c) cs"
  "dec_val a (ds @ [c]) = 10 * dec_val a ds + digit c"
  by (simp_all add: dec_val_def)

lemma dec_val_ge: "a \<le> dec_val a ds"
proof (induction ds arbitrary: a)
  case (Cons c ds)
  have "a \<le> 10 * a + digit c" by simp
  also have "\<dots> \<le> dec_val (10 * a + digit c) ds" by (rule Cons.IH)
  finally show ?case by simp
qed simp

lemma digit_decimal: "isdigit c \<Longrightarrow> digit c < 10 \<and> c \<noteq> NUL \<and> isdigit2 c 10 \<and> \<not> isspace c \<and> c \<noteq> CHR ''-'' \<and> c \<noteq> CHR ''+''"
  by (auto simp: digit_def isdigit_def isdigit2_def isspace_def)

lemma digit_char_props:
  assumes "d < 10"
  shows "isdigit (digit_char d)" and "digit (digit_char d) = d"
proof -
  have "code (digit_char d) = 48 + d" using assms by (simp add: digit_char_def)
  then show "isdigit (digit_char d)" and "digit (digit_char d) = d" using assms by (simp_all add: isdigit_def digit_def)
qed

lemma isdigit2_10: "isdigit2 c 10 \<longleftrightarrow> isdigit c"
  by (auto simp: isdigit2_def digit_def isdigit_def isupper_def islower_def)

text \<open>A text that the digit loop does not read on into.\<close>

definition no_digit :: "string \<Rightarrow> bool" where
  "no_digit p \<longleftrightarrow> p = [] \<or> \<not> isdigit (hd p)"

lemma strtol_digits_stop: "no_digit p \<Longrightarrow> strtol_digits 10 x p = Inr (x, p)"
  by (cases p) (auto simp: no_digit_def isdigit2_10)

lemma unat_UINT64_MAX: "unat (UINT64_MAX) = 18446744073709551615"
  by (simp add: unsigned_minus_1_eq_mask mask_eq_exp_minus_1)

lemma mult10_no_overflow:
  fixes x :: u64
  assumes "10 * unat x + d < 2 ^ 64"
  shows "\<not> x > UINT64_MAX div 10" and "\<not> of_nat d > UINT64_MAX - x * 10"
    and "unat (x * 10 + of_nat d) = 10 * unat x + d"
proof -
  have d: "unat (of_nat d :: u64) = d" using assms by (intro unat_of_nat_small) simp
  have m: "unat (x * 10) = unat x * 10" using assms by (subst unat_mult_small) simp_all
  show "\<not> x > UINT64_MAX div 10" using assms by (simp add: word_less_nat_alt unat_div)
  have "unat (UINT64_MAX - x * 10) = 2 ^ 64 - 1 - unat x * 10"
    by (subst unat_sub_small) (simp_all add: m unat_UINT64_MAX)
  then show "\<not> of_nat d > UINT64_MAX - x * 10" using assms d by (simp add: word_less_nat_alt)
  show "unat (x * 10 + of_nat d) = 10 * unat x + d" using assms by (subst unat_add_small) (simp_all add: m d)
qed

lemma mult10_overflow:
  fixes x :: u64
  assumes "10 * unat x + d \<ge> 2 ^ 64" and "d < 10"
  shows "x > UINT64_MAX div 10 \<or> of_nat d > UINT64_MAX - x * 10"
proof (cases "10 * unat x < 2 ^ 64")
  case True
  have d: "unat (of_nat d :: u64) = d" using assms by (intro unat_of_nat_small) simp
  have m: "unat (x * 10) = unat x * 10" using True by (subst unat_mult_small) simp_all
  have "unat (UINT64_MAX - x * 10) = 2 ^ 64 - 1 - unat x * 10"
    by (subst unat_sub_small) (simp_all add: m unat_UINT64_MAX)
  then show ?thesis using assms d True by (auto simp: word_less_nat_alt)
next
  case False
  then show ?thesis by (simp add: word_less_nat_alt unat_div)
qed

lemma strtol_digits_value:
  assumes "list_all isdigit ds" and "dec_val (unat x) ds < 2 ^ 64" and "no_digit rest"
  shows "strtol_digits 10 x (ds @ rest) = Inr (of_nat (dec_val (unat x) ds), rest)"
  using assms
proof (induction ds arbitrary: x)
  case Nil
  then show ?case by (simp add: strtol_digits_stop of_nat_unat)
next
  case (Cons c ds)
  then have c: "c \<noteq> NUL" "isdigit2 c 10" using digit_decimal by simp_all
  have b: "10 * unat x + digit c < 2 ^ 64" using Cons.prems(2) dec_val_ge [of "10 * unat x + digit c" ds] by simp
  note M = mult10_no_overflow [OF b]
  have "strtol_digits 10 (x * 10 + of_nat (digit c)) (ds @ rest) =
      Inr (of_nat (dec_val (unat (x * 10 + of_nat (digit c))) ds), rest)"
    using Cons.prems by (intro Cons.IH) (simp_all add: M)
  then show ?case using c M by (simp add: Let_def)
qed

lemma strtol_digits_overflow:
  assumes "list_all isdigit ds" and "dec_val (unat x) ds \<ge> 2 ^ 64"
  shows "\<exists>p. strtol_digits 10 x (ds @ rest) = Inl p"
  using assms
proof (induction ds arbitrary: x)
  case Nil
  then show ?case using unat_lt64 [of x] by simp
next
  case (Cons c ds)
  then have c: "c \<noteq> NUL" "isdigit2 c 10" "digit c < 10" using digit_decimal by simp_all
  show ?case
  proof (cases "10 * unat x + digit c < 2 ^ 64")
    case True
    note M = mult10_no_overflow [OF True]
    have "\<exists>p. strtol_digits 10 (x * 10 + of_nat (digit c)) (ds @ rest) = Inl p"
      using Cons.prems by (intro Cons.IH) (simp_all add: M)
    then show ?thesis using c M by (simp add: Let_def)
  next
    case False
    then have "x > UINT64_MAX div 10 \<or> of_nat (digit c) > UINT64_MAX - x * 10"
      using c(3) by (intro mult10_overflow) simp_all
    then show ?thesis using c by (auto simp: Let_def)
  qed
qed

lemma decimal_digits: "list_all isdigit (decimal n) \<and> decimal n \<noteq> [] \<and> dec_val 0 (decimal n) = n"
proof (induction n rule: decimal.induct)
  case (1 n)
  show ?case
  proof (cases "n < 10")
    case True
    then show ?thesis by (subst (1 2 3) decimal.simps) (simp add: digit_char_props)
  next
    case False
    then show ?thesis using 1 by (subst (1 2 3) decimal.simps) (simp add: digit_char_props)
  qed
qed

lemma i64_digits_decimal: "i64_digits n acc = decimal n @ acc"
proof (induction n acc rule: i64_digits.induct)
  case (1 x acc)
  then show ?case
    by (subst i64_digits.simps, subst decimal.simps) (auto simp: Let_def decimal.simps [of "x div 10"])
qed

section \<open>Properties\<close>

lemma strtol_decimal_text:
  assumes "list_all isdigit ds" and "ds \<noteq> []" and "negative \<longrightarrow> sg = ''-''" and "\<not> negative \<longrightarrow> sg = []"
  shows "no_digit rest \<Longrightarrow> dec_val 0 ds < 2 ^ 64 \<Longrightarrow>
      strtol (sg @ ds @ rest) 10 allow = (negate negative (of_nat (dec_val 0 ds)), rest, None)"
    and "dec_val 0 ds \<ge> 2 ^ 64 \<Longrightarrow> \<exists>p. strtol (sg @ ds @ rest) 10 allow = (UINT64_MAX, p, Some JSON_OUT_OF_BOUNDS)"
proof -
  obtain d ds' where ds: "ds = d # ds'" using assms(2) by (cases ds) auto
  then have d: "\<not> isspace d" "d \<noteq> CHR ''-''" "d \<noteq> CHR ''+''" using assms(1) digit_decimal by auto
  have dw: "dropWhile isspace (sg @ ds @ rest) = sg @ ds @ rest" "\<not> isspace (hd (sg @ ds @ rest))"
    using assms(3,4) d by (cases negative; simp add: ds isspace_def)+
  have sign: "strtol_sign (sg @ ds @ rest) = (negative, ds @ rest)"
    using assms(3,4) d by (cases negative) (simp_all add: strtol_sign_def ds)
  have run: "strtol (sg @ ds @ rest) 10 allow = (case strtol_digits 10 0 (ds @ rest) of
             Inl p \<Rightarrow> (UINT64_MAX, p, Some JSON_OUT_OF_BOUNDS)
           | Inr (x, p) \<Rightarrow> if length p = length (sg @ ds @ rest) then (0, sg @ ds @ rest, None)
               else (negate negative x, p, None))"
    unfolding strtol_def strtol_base_def strtol_prefix_def Let_def using dw sign by simp
  show "strtol (sg @ ds @ rest) 10 allow = (negate negative (of_nat (dec_val 0 ds)), rest, None)"
    if "no_digit rest" "dec_val 0 ds < 2 ^ 64"
    unfolding run using strtol_digits_value [of ds 0 rest] assms(1,2) that by simp
  show "\<exists>p. strtol (sg @ ds @ rest) 10 allow = (UINT64_MAX, p, Some JSON_OUT_OF_BOUNDS)" if "dec_val 0 ds \<ge> 2 ^ 64"
    unfolding run using strtol_digits_overflow [of ds 0 rest] assms(1) that by auto
qed

lemma i64tostr_chars: "list_all (\<lambda>c. isdigit c \<or> c = CHR ''-'') (i64tostr x) \<and> i64tostr x \<noteq> []"
proof -
  have "list_all isdigit (decimal n) \<and> decimal n \<noteq> []" for n using decimal_digits by blast
  moreover have "list_all isdigit ''9223372036854775808''" by code_simp
  ultimately show ?thesis by (auto simp: i64tostr_def i64_digits_decimal list_all_iff)
qed

lemma strtol_i64tostr:
  assumes "no_digit rest"
  shows "strtol (i64tostr x @ rest) 10 allow = (x, rest, None)"
proof -
  have x: "word_of_int (sint x) = x" by simp
  have lo: "- (2 ^ 63) \<le> sint x" and hi: "sint x < 2 ^ 63" using sint_ge [of x] sint_lt [of x] by simp_all
  then consider "sint x = - (2 ^ 63)" | "- (2 ^ 63) < sint x" "sint x < 0" | "0 \<le> sint x" by linarith
  then show ?thesis
  proof cases
    case 1
    let ?ds = "''9223372036854775808''"
    have "list_all isdigit ?ds" "dec_val 0 ?ds = 2 ^ 63" by code_simp+
    then have "strtol (''-'' @ ?ds @ rest) 10 allow = (negate True (of_nat (2 ^ 63)), rest, None)"
      using strtol_decimal_text(1) [of ?ds True "''-''" rest allow] assms by simp
    moreover have "negate True (of_nat (2 ^ 63)) = x" using x by (simp add: negate_def 1)
    moreover have "i64tostr x @ rest = ''-'' @ ?ds @ rest" by (simp add: i64tostr_def 1)
    ultimately show ?thesis by (simp only:)
  next
    case 2
    let ?m = "nat (- sint x)"
    have m: "?m < 2 ^ 63" using 2 by simp
    then have "unat (of_nat ?m :: u64) = ?m" by (intro unat_of_nat_small) simp
    then have "\<not> of_nat ?m > LONG_MAX" using m by (simp add: word_less_nat_alt)
    moreover have "- (of_nat ?m :: u64) = word_of_int (sint x)" using 2 by (simp add: word_of_int_nat)
    ultimately have "negate True (of_nat ?m) = x" by (simp add: negate_def)
    moreover have "i64tostr x = ''-'' @ decimal ?m" using 2 by (simp add: i64tostr_def i64_digits_decimal)
    ultimately show ?thesis
      using strtol_decimal_text(1) [of "decimal ?m" True "''-''" rest allow] decimal_digits [of ?m] m assms by simp
  next
    case 3
    let ?m = "nat (sint x)"
    have m: "?m < 2 ^ 63" using 3 hi by simp
    have "(of_nat ?m :: u64) = word_of_int (sint x)" using 3 by (simp add: word_of_int_nat)
    then have "negate False (of_nat ?m) = x" by (simp add: negate_def)
    moreover have "i64tostr x = decimal ?m" using 3 by (simp add: i64tostr_def i64_digits_decimal)
    ultimately show ?thesis
      using strtol_decimal_text(1) [of "decimal ?m" False "[]" rest allow] decimal_digits [of ?m] m assms by simp
  qed
qed

text \<open>
  C30: printing any 64-bit integer and reading it back gives the integer, whatever follows it in the
  text, as long as it is not another digit.
\<close>

theorem i64_roundtrip:
  assumes "no_digit rest"
  shows "strtol (i64tostr x @ rest) 10 allow = (x, rest, None)"
  using assms by (rule strtol_i64tostr)

text \<open>
  Reading a decimal number of any length: below \<open>2 ^ 64\<close> the result is the number's 64 bits (so that
  values from \<open>2 ^ 63\<close> on come out negative, without an error); from \<open>2 ^ 64\<close> on the conversion reports
  \<open>JSON_OUT_OF_BOUNDS\<close>.
\<close>

lemma strtol_decimal_bounds:
  assumes "no_digit rest"
  shows "if n < 2 ^ 64 then strtol (decimal n @ rest) 10 allow = (of_nat n, rest, None)
    else \<exists>p. strtol (decimal n @ rest) 10 allow = (UINT64_MAX, p, Some JSON_OUT_OF_BOUNDS)"
  using strtol_decimal_text [of "decimal n" False "[]" rest allow] decimal_digits [of n] assms
  by (simp add: negate_def)

theorem i64_roundtrip_witness: "strtol (i64tostr (- 42) @ '',1'') 10 False = (- 42, '',1'', None)"
  by (rule i64_roundtrip) (simp add: no_digit_def isdigit_def)

lemma strtol_decimal_bounds_at_the_limit:
  "strtol (decimal (2 ^ 64 - 1) @ ''}'') 10 False = (of_nat (2 ^ 64 - 1), ''}'', None) \<and>
   (\<exists>p. strtol (decimal (2 ^ 64) @ ''}'') 10 False = (UINT64_MAX, p, Some JSON_OUT_OF_BOUNDS))"
proof -
  have r: "no_digit ''}''" by (simp add: no_digit_def isdigit_def)
  show ?thesis
    using strtol_decimal_bounds [OF r, of "2 ^ 64 - 1" False] strtol_decimal_bounds [OF r, of "2 ^ 64" False] by simp
qed

end
