(* ===== verification/Json_Libc.thy ===== *)
theory Json_Libc
  imports Json_Number
begin

text \<open>
  The memory and string functions that \<^verbatim>\<open>src/src/libjson/json.c\<close> brings along because it is linked
  without a C library. Memory is a function from addresses to characters. Loops that run to the end
  of a string may not end (\<open>None\<close>) when there is no NUL.
\<close>

section \<open>Memory\<close>

type_synonym memory = "nat \<Rightarrow> char"

primrec memset :: "memory \<Rightarrow> nat \<Rightarrow> char \<Rightarrow> nat \<Rightarrow> memory" where
  "memset mem s c 0 = mem"
| "memset mem s c (Suc n) = memset (mem(s := c)) (s + 1) c n"

primrec memcpy :: "memory \<Rightarrow> nat \<Rightarrow> nat \<Rightarrow> nat \<Rightarrow> memory" where
  "memcpy mem dest src 0 = mem"
| "memcpy mem dest src (Suc n) = memcpy (mem(dest := mem src)) (dest + 1) (src + 1) n"

primrec memcmp :: "memory \<Rightarrow> nat \<Rightarrow> nat \<Rightarrow> nat \<Rightarrow> int" where
  "memcmp mem p q 0 = 0"
| "memcmp mem p q (Suc n) =
     (if code (mem p) < code (mem q) then - 1 else if code (mem p) > code (mem q) then 1
      else memcmp mem (p + 1) (q + 1) n)"

text \<open>The loop of \<open>_memmove\<close> that copies from the end backwards.\<close>

primrec memmove_down :: "memory \<Rightarrow> nat \<Rightarrow> nat \<Rightarrow> nat \<Rightarrow> memory" where
  "memmove_down mem dest src 0 = mem"
| "memmove_down mem dest src (Suc n) = memmove_down (mem(dest + n := mem (src + n))) dest src n"

definition memmove :: "memory \<Rightarrow> nat \<Rightarrow> nat \<Rightarrow> nat \<Rightarrow> memory" where
  "memmove mem dest src n =
     (if dest \<noteq> src \<and> n > 0
      then if dest \<le> src then memcpy mem dest src n else memmove_down mem dest src n
      else mem)"

section \<open>Strings\<close>

partial_function (option) strlen :: "memory \<Rightarrow> nat \<Rightarrow> nat option" where
  "strlen mem s = (if mem s = NUL then Some 0 else Option.bind (strlen mem (s + 1)) (\<lambda>n. Some (Suc n)))"

text \<open>\<^verbatim>\<open>char\<close> is signed.\<close>

definition schar :: "char \<Rightarrow> int" where
  "schar c = (if code c < 128 then int (code c) else int (code c) - 256)"

partial_function (option) strcmp :: "memory \<Rightarrow> nat \<Rightarrow> nat \<Rightarrow> int option" where
  "strcmp mem s1 s2 =
     (if mem s1 \<noteq> NUL \<and> mem s2 \<noteq> NUL \<and> mem s1 = mem s2 then strcmp mem (s1 + 1) (s2 + 1)
      else Some (schar (mem s1) - schar (mem s2)))"

text \<open>The copying loop: at most \<open>n\<close> characters; the memory and both pointers at its end.\<close>

fun str_copy :: "nat \<Rightarrow> memory \<Rightarrow> nat \<Rightarrow> nat \<Rightarrow> memory \<times> nat \<times> nat" where
  "str_copy n mem dest src =
     (if mem src \<noteq> NUL \<and> n \<noteq> 0 then str_copy (n - 1) (mem(dest := mem src)) (dest + 1) (src + 1) else (mem, dest, src))"

definition strlcpy :: "memory \<Rightarrow> nat \<Rightarrow> nat \<Rightarrow> nat \<Rightarrow> (nat \<times> memory) option" where
  "strlcpy mem dest src sz =
     (let (mem1, src1) =
        (if sz \<noteq> 0 then let (m, d, s) = str_copy (sz - 1) mem dest src in (m(d := NUL), s) else (mem, src))
      in map_option (\<lambda>k. (src1 + k - src, mem1)) (strlen mem1 src1))"

text \<open>The loop of \<open>_strlcat\<close> over what is in the buffer already: the position it ends at.\<close>

fun str_end :: "nat \<Rightarrow> memory \<Rightarrow> nat \<Rightarrow> nat" where
  "str_end n mem dest = (if mem dest \<noteq> NUL \<and> n \<noteq> 0 then str_end (n - 1) mem (dest + 1) else dest)"

definition strlcat :: "memory \<Rightarrow> nat \<Rightarrow> nat \<Rightarrow> nat \<Rightarrow> (nat \<times> memory) option" where
  "strlcat mem dest src sz =
     (let (mem1, src1, n) =
        (if sz \<noteq> 0
         then let d = str_end (sz - 1) mem dest; (m, d', s) = str_copy (sz - 1 - (d - dest)) mem d src
              in (m(d' := NUL), s, d' - dest)
         else (mem, src, 0))
      in map_option (\<lambda>k. (n + k, mem1)) (strlen mem1 src1))"

declare str_copy.simps [simp del] str_end.simps [simp del]

section \<open>Copying\<close>

text \<open>The copy that reads everything before it writes anything.\<close>

definition copied :: "memory \<Rightarrow> nat \<Rightarrow> nat \<Rightarrow> nat \<Rightarrow> memory" where
  "copied mem dest src n = (\<lambda>a. if dest \<le> a \<and> a < dest + n then mem (src + (a - dest)) else mem a)"

lemma memcpy_copied: "dest \<le> src \<or> src + n \<le> dest \<Longrightarrow> memcpy mem dest src n = copied mem dest src n"
proof (induction n arbitrary: mem dest src)
  case (Suc n)
  have "memcpy mem dest src (Suc n) = memcpy (mem(dest := mem src)) (dest + 1) (src + 1) n" by simp
  also have "\<dots> = copied (mem(dest := mem src)) (dest + 1) (src + 1) n" by (rule Suc.IH) (use Suc.prems in auto)
  also have "\<dots> = copied mem dest src (Suc n)" using Suc.prems
    by (auto simp: copied_def fun_eq_iff intro!: arg_cong [of _ _ mem])
  finally show ?case .
qed (auto simp: copied_def fun_eq_iff)

lemma memmove_down_copied: "src \<le> dest \<Longrightarrow> memmove_down mem dest src n = copied mem dest src n"
proof (induction n arbitrary: mem)
  case (Suc n)
  then have "memmove_down mem dest src (Suc n) = copied (mem(dest + n := mem (src + n))) dest src n" by simp
  also have "\<dots> = copied mem dest src (Suc n)" using Suc.prems by (auto simp: copied_def fun_eq_iff)
  finally show ?case .
qed (auto simp: copied_def fun_eq_iff)

text \<open>
  C29: \<open>_memmove\<close> is the copy that reads all bytes before it writes any, for all addresses and lengths,
  also when the two areas overlap in either direction; \<open>_memcpy\<close> is the same unless the destination starts
  inside the source.
\<close>

theorem memmove_copies:
  "memmove mem dest src n = copied mem dest src n \<and>
   (dest \<le> src \<or> src + n \<le> dest \<longrightarrow> memcpy mem dest src n = copied mem dest src n)"
proof -
  have "copied mem dest src n = mem" if "dest = src \<or> n = 0" using that by (auto simp: copied_def fun_eq_iff)
  then show ?thesis by (auto simp: memmove_def memcpy_copied memmove_down_copied)
qed

definition ramp :: memory where "ramp a = char_of a"

theorem memmove_copies_witness:
  "map (memmove ramp 2 1 3) [1, 2, 3, 4, 5] = map ramp [1, 1, 2, 3, 5] \<and> memcpy ramp 1 2 3 = copied ramp 1 2 3"
  using memmove_copies [of ramp 2 1 3] memmove_copies [of ramp 1 2 3] by (simp add: copied_def numeral_eq_Suc)

section \<open>String buffers\<close>

text \<open>A NUL-terminated string in memory.\<close>

definition string_at :: "memory \<Rightarrow> nat \<Rightarrow> string \<Rightarrow> bool" where
  "string_at mem p s \<longleftrightarrow> NUL \<notin> set s \<and> (\<forall>i < length s. mem (p + i) = s ! i) \<and> mem (p + length s) = NUL"

lemma string_at_Nil [simp]: "string_at mem p [] \<longleftrightarrow> mem p = NUL"
  by (simp add: string_at_def)

lemma string_at_Cons [simp]: "string_at mem p (c # s) \<longleftrightarrow> c \<noteq> NUL \<and> mem p = c \<and> string_at mem (p + 1) s"
proof
  assume *: "string_at mem p (c # s)"
  then have "mem (p + Suc i) = s ! i" if "i < length s" for i using that by (auto simp: string_at_def dest: spec [of _ "Suc i"])
  with * show "c \<noteq> NUL \<and> mem p = c \<and> string_at mem (p + 1) s" by (auto simp: string_at_def)
qed (auto simp: string_at_def nth_Cons split: nat.splits)

lemma strlen_string: "string_at mem p s \<Longrightarrow> strlen mem p = Some (length s)"
  by (induction s arbitrary: p) (simp_all add: strlen.simps)

lemma string_at_cong:
  "(\<forall>a. p \<le> a \<and> a \<le> p + length s \<longrightarrow> mem' a = mem a) \<Longrightarrow> string_at mem' p s = string_at mem p s"
  by (auto simp: string_at_def)

lemma string_at_frame: "string_at mem p s \<Longrightarrow> a < p \<or> p + length s < a \<Longrightarrow> string_at (mem(a := x)) p s"
  by (auto simp: string_at_def)

text \<open>The copying loop writes at most \<open>n\<close> characters and leaves the source at what it did not copy.\<close>

lemma str_copy_spec:
  assumes "string_at mem src s" and "dest + n < src \<or> src + length s < dest"
  shows "\<exists>mem'. str_copy n mem dest src = (mem', dest + min n (length s), src + min n (length s)) \<and>
    (\<forall>i < min n (length s). mem' (dest + i) = s ! i) \<and> string_at mem' (src + min n (length s)) (drop n s) \<and>
    (\<forall>a. a < dest \<or> dest + min n (length s) \<le> a \<longrightarrow> mem' a = mem a)"
  using assms
proof (induction s arbitrary: n mem dest src)
  case Nil
  then show ?case by (subst str_copy.simps) simp
next
  case (Cons c s)
  show ?case
  proof (cases n)
    case 0
    then show ?thesis using Cons.prems by (subst str_copy.simps) simp
  next
    case (Suc k)
    let ?m = "mem(dest := c)"
    have 1: "string_at ?m (src + 1) s" "dest + 1 + k < src + 1 \<or> src + 1 + length s < dest + 1"
      using Cons.prems Suc by (auto intro!: string_at_frame)
    obtain mem' where m: "str_copy k ?m (dest + 1) (src + 1) = (mem', dest + 1 + min k (length s), src + 1 + min k (length s))"
      "\<forall>i < min k (length s). mem' (dest + 1 + i) = s ! i" "string_at mem' (src + 1 + min k (length s)) (drop k s)"
      "\<forall>a. a < dest + 1 \<or> dest + 1 + min k (length s) \<le> a \<longrightarrow> mem' a = ?m a"
      using Cons.IH [OF 1] by blast
    have "\<forall>i < min n (length (c # s)). mem' (dest + i) = (c # s) ! i"
      using m(2,4) by (auto simp: Suc nth_Cons split: nat.splits)
    then show ?thesis using m Cons.prems Suc by (subst str_copy.simps) simp
  qed
qed

lemma str_end_spec: "string_at mem p s \<Longrightarrow> str_end n mem p = p + min n (length s)"
proof (induction s arbitrary: n p)
  case Nil
  then show ?case by (subst str_end.simps) simp
next
  case (Cons c s)
  then show ?case by (subst str_end.simps) (cases n; simp)
qed

text \<open>
  C39: \<open>_strlcat\<close> on a buffer of \<open>sz\<close> bytes that holds the string \<open>d\<close>, with a source string outside it:
  the buffer then holds the longest prefix of the concatenation that fits with its terminating NUL, no
  byte outside the buffer changes, and the result is the length of the whole concatenation, from which the
  caller sees a truncation.
\<close>

theorem strlcat_bounded:
  assumes "string_at mem src s" and "string_at mem dest d" and "length d < sz"
    and "dest + sz \<le> src \<or> src + length s < dest"
  shows "\<exists>mem'. strlcat mem dest src sz = Some (length d + length s, mem') \<and>
    string_at mem' dest (take (sz - 1) (d @ s)) \<and> (\<forall>a. a < dest \<or> dest + sz \<le> a \<longrightarrow> mem' a = mem a)"
proof -
  let ?n = "sz - 1 - length d" let ?k = "min ?n (length s)"
  have e: "str_end (sz - 1) mem dest = dest + length d" using str_end_spec [OF assms(2), of "sz - 1"] assms(3) by simp
  have "dest + length d + ?n < src \<or> src + length s < dest + length d" using assms(3,4) by auto
  from str_copy_spec [OF assms(1) this] obtain m where
    m: "str_copy ?n mem (dest + length d) src = (m, dest + length d + ?k, src + ?k)"
      "\<forall>i < ?k. m (dest + length d + i) = s ! i" "string_at m (src + ?k) (drop ?n s)"
      "\<forall>a. a < dest + length d \<or> dest + length d + ?k \<le> a \<longrightarrow> m a = mem a" by blast
  define m' where "m' = m(dest + length d + ?k := NUL)"
  have "string_at m' (src + ?k) (drop ?n s)"
    unfolding m'_def using m(3) assms(3,4) by (intro string_at_frame) auto
  then have l: "strlen m' (src + ?k) = Some (length s - ?n)" using strlen_string by fastforce
  have n: "sz - 1 - (dest + length d - dest) = ?n" by simp
  have "strlcat mem dest src sz = map_option (\<lambda>j. (length d + ?k + j, m')) (strlen m' (src + ?k))"
    using assms(3) unfolding strlcat_def Let_def e n m(1) m'_def by simp
  then have "strlcat mem dest src sz = Some (length d + length s, m')" unfolding l by (simp add: min_def)
  moreover have "string_at m' dest (take (sz - 1) (d @ s))"
  proof -
    have t: "take (sz - 1) (d @ s) = d @ take ?k s" using assms(3) by (simp add: min_def)
    have "m' (dest + i) = (d @ take ?k s) ! i" if "i < length d + ?k" for i
    proof (cases "i < length d")
      case True
      then show ?thesis using m(4) assms(2) by (auto simp: m'_def nth_append string_at_def)
    next
      case False
      then have "i - length d < ?k" using that by linarith
      then have "m (dest + i) = s ! (i - length d)" "take ?k s ! (i - length d) = s ! (i - length d)"
        using m(2) [rule_format, of "i - length d"] False by simp_all
      then show ?thesis using that False by (auto simp: m'_def nth_append)
    qed
    then show ?thesis using assms(1,2) unfolding t by (auto simp: string_at_def m'_def dest: in_set_takeD)
  qed
  moreover have "\<forall>a. a < dest \<or> dest + sz \<le> a \<longrightarrow> m' a = mem a" using m(4) assms(3) by (auto simp: m'_def)
  ultimately show ?thesis by blast
qed

text \<open>The buffer at 2 to 5 holds a string of one character, the source is at 10.\<close>

definition buffers :: memory where
  "buffers a = (if a = 2 then CHR ''x'' else if 10 \<le> a \<and> a < 15 then CHR ''y'' else if a = 3 \<or> a = 15 then NUL else CHR ''z'')"

theorem strlcat_bounded_witness:
  "\<exists>mem'. strlcat buffers 2 10 4 = Some (length ''x'' + length ''yyyyy'', mem') \<and> string_at mem' 2 (take 3 ''xyyyyy'') \<and>
     (\<forall>a. a < 2 \<or> 6 \<le> a \<longrightarrow> mem' a = buffers a)"
proof -
  have "string_at buffers 10 ''yyyyy''" "string_at buffers 2 ''x''" by (simp_all add: buffers_def)
  from strlcat_bounded [OF this, of 4] show ?thesis by simp
qed

end
