(* ===== verification/Json.thy ===== *)
theory Json
  imports Json_Number
begin

text \<open>
  The event-driven parser of \<^verbatim>\<open>src/src/libjson/json.c\<close>. The parser's position is the rest of its text.
  It overwrites only text it has consumed (decoding strings in place), so that the decoded string is a
  result here and the text itself is not part of the state. The callback is a parameter that sees
  the parser and returns a result code and new callback data; \<open>malloc_ok n\<close> says whether the \<open>n\<close>-th
  call of the allocator succeeds. The mutually recursive functions take a bound on the depth of calls,
  \<open>None\<close> being its exhaustion.
\<close>

section \<open>Data\<close>

datatype json_type = JSON_TYPE_NULL | JSON_TYPE_BOOLEAN | JSON_TYPE_INTEGER | JSON_TYPE_REAL | JSON_TYPE_STRING

datatype json_union = U_null | U_boolean bool | U_integer u64 | U_real real_lit | U_string string

datatype json_reason =
    JSON_REASON_NONE | JSON_REASON_NAME | JSON_REASON_BEGIN_OBJECT | JSON_REASON_END_OBJECT
  | JSON_REASON_BEGIN_ARRAY | JSON_REASON_END_ARRAY | JSON_REASON_VALUE

record json_node =
  node_name :: string
  node_number :: u64
  node_size :: nat
  node_index :: nat

record 'u json_parser =
  ptr :: string
  scan :: bool
  path :: "json_node list"
  depth :: nat
  allow_whitespace :: bool
  mallocs :: nat
  callback_data :: 'u

type_synonym 'u json_callback = "'u json_parser \<Rightarrow> json_reason \<Rightarrow> json_type \<Rightarrow> json_union \<Rightarrow> json_result \<times> 'u"

abbreviation (input) JSON_MAX_NESTING :: nat where "JSON_MAX_NESTING \<equiv> 64"
abbreviation (input) QUOTE :: char where "QUOTE \<equiv> CHR 0x22"
abbreviation (input) BACKSLASH :: char where "BACKSLASH \<equiv> CHR 0x5C"

section \<open>Helpers\<close>

text \<open>
  \<open>_split\<close> cuts a string at every separator; \<open>None\<close> is the result -1 when there are more tokens
  than the array can hold.
\<close>

fun split_tokens :: "char \<Rightarrow> string \<Rightarrow> string \<Rightarrow> string list" where
  "split_tokens sep tok [] = [tok]"
| "split_tokens sep tok (c # cs) =
     (if c = NUL then [tok] else if c = sep then tok # split_tokens sep [] cs else split_tokens sep (tok @ [c]) cs)"

definition json_split :: "string \<Rightarrow> char \<Rightarrow> nat \<Rightarrow> string list option" where
  "json_split s sep num_tokens =
     (let ts = split_tokens sep [] s in if length ts > num_tokens then None else Some ts)"

definition char_to_nibble :: "char \<Rightarrow> nat" where
  "char_to_nibble c =
     (let d = tolower c
      in if code CHR ''0'' \<le> d \<and> d \<le> code CHR ''9'' then d - code CHR ''0''
         else if code CHR ''a'' \<le> d \<and> d \<le> code CHR ''f'' then 10 + (d - code CHR ''a'')
         else 255)"

definition is_number_char :: "char \<Rightarrow> bool" where
  "is_number_char c \<longleftrightarrow> isdigit c \<or> c \<in> {CHR ''-'', CHR ''+'', CHR ''e'', CHR ''E'', CHR ''.''}"

definition is_decimal_or_exponent :: "char \<Rightarrow> bool" where
  "is_decimal_or_exponent c \<longleftrightarrow> c \<in> {CHR ''.'', CHR ''e'', CHR ''E''}"

text \<open>Four hexadecimal digits; \<open>None\<close> is the result -1.\<close>

definition hex_str4_to_u32 :: "char \<Rightarrow> char \<Rightarrow> char \<Rightarrow> char \<Rightarrow> nat option" where
  "hex_str4_to_u32 c0 c1 c2 c3 =
     (let n0 = char_to_nibble c0; n1 = char_to_nibble c1; n2 = char_to_nibble c2; n3 = char_to_nibble c3
      in if n0 \<ge> 16 \<or> n1 \<ge> 16 \<or> n2 \<ge> 16 \<or> n3 \<ge> 16 then None
         else Some (n0 * 4096 + n1 * 256 + n2 * 16 + n3))"

definition invoke_callback ::
    "'u json_callback \<Rightarrow> json_reason \<Rightarrow> json_type \<Rightarrow> json_union \<Rightarrow> 'u json_parser \<Rightarrow> json_result \<times> 'u json_parser" where
  "invoke_callback cb reason type un p =
     (if scan p then (JSON_OK, p)
      else let (r, u) = cb p reason type un in (r, p \<lparr> callback_data := u \<rparr>))"

fun skip_space :: "bool \<Rightarrow> string \<Rightarrow> json_result \<times> string" where
  "skip_space allow [] = (JSON_OK, [])"
| "skip_space allow (c # cs) =
     (if isspace c then if allow then skip_space allow cs else (JSON_BAD_SYNTAX, c # cs) else (JSON_OK, c # cs))"

definition skip_whitespace :: "'u json_parser \<Rightarrow> json_result \<times> 'u json_parser" where
  "skip_whitespace p = (let (r, t) = skip_space (allow_whitespace p) (ptr p) in (r, p \<lparr> ptr := t \<rparr>))"

section \<open>Strings\<close>

text \<open>
  The search for the closing quote: the text before it, whether it has a backslash, and the rest
  after it. A backslash skips one character, or four when the next one is \<^verbatim>\<open>u\<close>.
\<close>

fun find_quote :: "string \<Rightarrow> (string \<times> bool \<times> string) option" where
  "find_quote [] = None"
| "find_quote (c # cs) =
     (if c = QUOTE then Some ([], False, cs)
      else if c = BACKSLASH then
        (case cs of
           [] \<Rightarrow> None
         | d # ds \<Rightarrow>
             if d = CHR ''u''
             then if length cs < 4 then None
                  else map_option (\<lambda>(t, _, r). (c # take 4 cs @ t, True, r)) (find_quote (drop 4 cs))
             else map_option (\<lambda>(t, _, r). (c # d # t, True, r)) (find_quote ds))
      else map_option (\<lambda>(t, e, r). (c # t, e, r)) (find_quote cs))"

text \<open>The in-place decoding, which stops at a NUL in the text.\<close>

definition simple_escape :: "char \<Rightarrow> char option" where
  "simple_escape d =
     (if d = QUOTE then Some QUOTE else if d = BACKSLASH then Some BACKSLASH else if d = CHR ''/'' then Some CHR ''/''
      else if d = CHR ''b'' then Some CHR 0x08 else if d = CHR ''f'' then Some CHR 0x0C
      else if d = CHR ''n'' then Some CHR 0x0A else if d = CHR ''r'' then Some CHR 0x0D
      else if d = CHR ''t'' then Some CHR 0x09 else None)"

fun unescape :: "string \<Rightarrow> json_result \<times> string" where
  "unescape [] = (JSON_OK, [])"
| "unescape (c # cs) =
     (if c = NUL then (JSON_OK, [])
      else if c = BACKSLASH then
        (case cs of
           [] \<Rightarrow> (JSON_EOF, [])
         | d # ds \<Rightarrow>
             if d = NUL then (JSON_EOF, [])
             else if d = CHR ''u'' then
               (case ds of
                  c0 # c1 # c2 # c3 # es \<Rightarrow>
                    (case hex_str4_to_u32 c0 c1 c2 c3 of
                       None \<Rightarrow> (JSON_BAD_SYNTAX, [])
                     | Some x \<Rightarrow>
                         if x \<ge> 256 then (JSON_UNSUPPORTED, [])
                         else apsnd ((#) (char_of x)) (unescape es))
                | _ \<Rightarrow> (JSON_EOF, []))
             else (case simple_escape d of
                 None \<Rightarrow> (JSON_FAILED, [])
               | Some e \<Rightarrow> apsnd ((#) e) (unescape ds)))
      else apsnd ((#) c) (unescape cs))"

definition c_string :: "string \<Rightarrow> string" where
  "c_string s = takeWhile (\<lambda>c. c \<noteq> NUL) s"

definition get_string :: "'u json_parser \<Rightarrow> json_result \<times> string \<times> 'u json_parser" where
  "get_string p =
     (case find_quote (ptr p) of
        None \<Rightarrow> (JSON_EOF, ptr p, p)
      | Some (t, escaped, rest) \<Rightarrow>
          let p1 = p \<lparr> ptr := rest \<rparr>
          in if scan p then (JSON_OK, ptr p, p1)
             else if escaped then let (r, s) = unescape t in (r, c_string s, p1)
             else (JSON_OK, c_string t, p1))"

text \<open>\<open>_expect\<close>: \<open>None\<close> is the result -1.\<close>

definition expect :: "string \<Rightarrow> 'u json_parser \<Rightarrow> 'u json_parser option" where
  "expect str p =
     (if length str \<le> length (ptr p) \<and> take (length str) (ptr p) = str
      then Some (p \<lparr> ptr := drop (length str) (ptr p) \<rparr>) else None)"

section \<open>Numbers\<close>

definition get_number :: "'u json_parser \<Rightarrow> json_result \<times> json_type \<times> json_union \<times> 'u json_parser" where
  "get_number p =
     (let start = ptr p;
          rest = dropWhile is_number_char start;
          p1 = p \<lparr> ptr := rest \<rparr>;
          (type, un, e) =
            (if \<not> list_ex is_decimal_or_exponent (takeWhile is_number_char start)
             then let (x, e, _) = strtol start 10 (allow_whitespace p) in (JSON_TYPE_INTEGER, U_integer x, e)
             else let (z, e) = strtod start (allow_whitespace p) in (JSON_TYPE_REAL, U_real z, e))
      in (if length e \<noteq> length rest \<or> length start = length e then JSON_BAD_SYNTAX else JSON_OK, type, un, p1))"

section \<open>Values, arrays and objects\<close>

definition set_index :: "nat \<Rightarrow> 'u json_parser \<Rightarrow> 'u json_parser" where
  "set_index i p = p \<lparr> path := (path p)[depth p - 1 := (path p ! (depth p - 1)) \<lparr> node_index := i \<rparr>] \<rparr>"

definition set_size :: "nat \<Rightarrow> 'u json_parser \<Rightarrow> 'u json_parser" where
  "set_size n p = p \<lparr> path := (path p)[depth p - 1 := (path p ! (depth p - 1)) \<lparr> node_size := n \<rparr>] \<rparr>"

text \<open>The path node for a member name.\<close>

definition enter_name :: "string \<Rightarrow> 'u json_parser \<Rightarrow> 'u json_parser" where
  "enter_name name p =
     (let (n, ok) = strtou64 name (allow_whitespace p)
      in p \<lparr> path := (path p)[depth p - 1 :=
           \<lparr> node_name = name, node_number = (if ok then n else UINT64_MAX), node_size = 0, node_index = 0 \<rparr>] \<rparr>)"

text \<open>The first and last actions of \<open>_get_object\<close>, around its loop over the members.\<close>

definition object_begin :: "'u json_callback \<Rightarrow> 'u json_parser \<Rightarrow> json_result \<times> 'u json_parser" where
  "object_begin cb p =
     (let (r, p1) = invoke_callback cb JSON_REASON_BEGIN_OBJECT JSON_TYPE_NULL U_null p
      in if r \<noteq> JSON_OK then (r, p1)
         else let p2 = p1 \<lparr> depth := depth p1 + 1 \<rparr>
              in if depth p1 = JSON_MAX_NESTING then (JSON_NESTING_OVERFLOW, p2) else (JSON_OK, p2))"

definition object_end :: "'u json_callback \<Rightarrow> 'u json_parser \<Rightarrow> json_result \<times> 'u json_parser" where
  "object_end cb p =
     (if depth p = 0 then (JSON_NESTING_UNDERFLOW, p)
      else let (r, p1) = invoke_callback cb JSON_REASON_END_OBJECT JSON_TYPE_NULL U_null p
           in if r \<noteq> JSON_OK then (r, p1) else (JSON_OK, p1 \<lparr> depth := depth p1 - 1 \<rparr>))"

text \<open>The name of a member up to the colon.\<close>

definition member_name :: "'u json_callback \<Rightarrow> 'u json_parser \<Rightarrow> json_result \<times> 'u json_parser" where
  "member_name cb p =
     (let (r1, name, p1) = get_string p
      in if r1 \<noteq> JSON_OK then (r1, p1)
         else let (r2, p2) = invoke_callback cb JSON_REASON_NAME JSON_TYPE_STRING (U_string name) (enter_name name p1)
              in if r2 \<noteq> JSON_OK then (r2, p2)
                 else let (r3, p3) = skip_whitespace p2
                      in if r3 \<noteq> JSON_OK then (r3, p3)
                         else case ptr p3 of
                             [] \<Rightarrow> (JSON_EOF, p3)
                           | c # cs \<Rightarrow> (if c = CHR '':'' then JSON_OK else JSON_BAD_SYNTAX, p3 \<lparr> ptr := cs \<rparr>))"

text \<open>A literal, and the scalar values.\<close>

definition get_literal ::
    "'u json_callback \<Rightarrow> string \<Rightarrow> json_type \<Rightarrow> json_union \<Rightarrow> 'u json_parser \<Rightarrow> json_result \<times> 'u json_parser" where
  "get_literal cb str type un p =
     (case expect str p of
        None \<Rightarrow> (JSON_BAD_SYNTAX, p)
      | Some p1 \<Rightarrow> invoke_callback cb JSON_REASON_VALUE type un p1)"

definition get_string_value :: "'u json_callback \<Rightarrow> 'u json_parser \<Rightarrow> json_result \<times> 'u json_parser" where
  "get_string_value cb p =
     (let (r, str, p1) = get_string p
      in if r \<noteq> JSON_OK then (JSON_BAD_SYNTAX, p1)
         else invoke_callback cb JSON_REASON_VALUE JSON_TYPE_STRING (U_string str) p1)"

definition get_number_value :: "'u json_callback \<Rightarrow> 'u json_parser \<Rightarrow> json_result \<times> 'u json_parser" where
  "get_number_value cb p =
     (let (r, type, un, p1) = get_number p
      in if r \<noteq> JSON_OK then (JSON_BAD_SYNTAX, p1) else invoke_callback cb JSON_REASON_VALUE type un p1)"

fun get_value :: "'u json_callback \<Rightarrow> (nat \<Rightarrow> bool) \<Rightarrow> nat \<Rightarrow> 'u json_parser \<Rightarrow> (json_result \<times> 'u json_parser) option"
and get_array :: "'u json_callback \<Rightarrow> (nat \<Rightarrow> bool) \<Rightarrow> nat \<Rightarrow> nat \<Rightarrow> 'u json_parser \<Rightarrow> (json_result \<times> nat \<times> 'u json_parser) option"
and get_members :: "'u json_callback \<Rightarrow> (nat \<Rightarrow> bool) \<Rightarrow> nat \<Rightarrow> 'u json_parser \<Rightarrow> (json_result \<times> 'u json_parser) option"
where
  "get_value cb malloc_ok 0 p = None"
| "get_value cb malloc_ok (Suc fuel) p =
     (let (r0, p0) = skip_whitespace p
      in if r0 \<noteq> JSON_OK then Some (r0, p0)
         else case ptr p0 of
           [] \<Rightarrow> Some (JSON_EOF, p0)
         | ch # cs \<Rightarrow>
             let c = tolower ch; p1 = p0 \<lparr> ptr := cs \<rparr>
             in if c = code CHR ''f'' then Some (get_literal cb ''alse'' JSON_TYPE_BOOLEAN (U_boolean False) p1)
             else if c = code CHR ''n'' then Some (get_literal cb ''ull'' JSON_TYPE_NULL U_null p1)
             else if c = code CHR ''t'' then Some (get_literal cb ''rue'' JSON_TYPE_BOOLEAN (U_boolean True) p1)
             else if c = code CHR ''{'' then
               (let (r, p2) = object_begin cb p1
                in if r \<noteq> JSON_OK then Some (r, p2)
                   else case get_members cb malloc_ok fuel p2 of
                     None \<Rightarrow> None
                   | Some (r3, p3) \<Rightarrow> if r3 \<noteq> JSON_OK then Some (r3, p3) else Some (object_end cb p3))
             else if c = code CHR ''['' then
               (let p2 = p1 \<lparr> mallocs := mallocs p1 + 1 \<rparr>
                in if \<not> malloc_ok (mallocs p1) then Some (JSON_OUT_OF_MEMORY, p2)
                   else case get_array cb malloc_ok fuel 0 (p2 \<lparr> scan := True \<rparr>) of
                     None \<Rightarrow> None
                   | Some (rs, n, scanner) \<Rightarrow>
                       let p3 = p2 \<lparr> mallocs := mallocs scanner \<rparr>
                       in if rs \<noteq> JSON_OK then Some (JSON_BAD_SYNTAX, p3)
                          else let (rb, p4) = invoke_callback cb JSON_REASON_BEGIN_ARRAY JSON_TYPE_INTEGER
                                                (U_integer (of_nat n)) (set_size n p3)
                               in if rb \<noteq> JSON_OK then Some (rb, p4)
                                  else case get_array cb malloc_ok fuel 0 p4 of
                                    None \<Rightarrow> None
                                  | Some (ra, _, p5) \<Rightarrow>
                                      if ra \<noteq> JSON_OK then Some (JSON_BAD_SYNTAX, p5)
                                      else Some (invoke_callback cb JSON_REASON_END_ARRAY JSON_TYPE_INTEGER
                                                   (U_integer (of_nat n)) p5))
             else if c = code QUOTE then Some (get_string_value cb p1)
             else Some (get_number_value cb p0))"
| "get_array cb malloc_ok 0 index p = None"
| "get_array cb malloc_ok (Suc fuel) index p =
     (let (r0, p0) = skip_whitespace p
      in if r0 \<noteq> JSON_OK then Some (r0, index, p0)
         else case ptr p0 of
           [] \<Rightarrow> Some (JSON_EOF, index, p0)
         | c # cs \<Rightarrow>
             if c = CHR '','' then get_array cb malloc_ok fuel index (p0 \<lparr> ptr := cs \<rparr>)
             else if c = CHR '']'' then Some (JSON_OK, index, p0 \<lparr> ptr := cs \<rparr>)
             else case get_value cb malloc_ok fuel (set_index index p0) of
               None \<Rightarrow> None
             | Some (r, p1) \<Rightarrow>
                 if r \<noteq> JSON_OK then Some (r, index, p1)
                 else get_array cb malloc_ok fuel (index + 1) p1)"
| "get_members cb malloc_ok 0 p = None"
| "get_members cb malloc_ok (Suc fuel) p =
     (let (r0, p0) = skip_whitespace p
      in if r0 \<noteq> JSON_OK then Some (r0, p0)
         else case ptr p0 of
           [] \<Rightarrow> Some (JSON_EOF, p0)
         | c # cs \<Rightarrow>
             if c = QUOTE then
               (let (r, p1) = member_name cb (p0 \<lparr> ptr := cs \<rparr>)
                in if r \<noteq> JSON_OK then Some (r, p1)
                   else case get_value cb malloc_ok fuel p1 of
                     None \<Rightarrow> None
                   | Some (r2, p2) \<Rightarrow> if r2 \<noteq> JSON_OK then Some (r2, p2) else get_members cb malloc_ok fuel p2)
             else if c = CHR ''}'' then Some (JSON_OK, p0 \<lparr> ptr := cs \<rparr>)
             else get_members cb malloc_ok fuel (p0 \<lparr> ptr := cs \<rparr>))"

definition get_object ::
    "'u json_callback \<Rightarrow> (nat \<Rightarrow> bool) \<Rightarrow> nat \<Rightarrow> 'u json_parser \<Rightarrow> (json_result \<times> 'u json_parser) option" where
  "get_object cb malloc_ok fuel p =
     (let (r, p2) = object_begin cb p
      in if r \<noteq> JSON_OK then Some (r, p2)
         else case get_members cb malloc_ok fuel p2 of
           None \<Rightarrow> None
         | Some (r3, p3) \<Rightarrow> if r3 \<noteq> JSON_OK then Some (r3, p3) else Some (object_end cb p3))"

section \<open>Entry points\<close>

text \<open>
  The pointer arguments of \<open>json_parser_init\<close> that may be \<^verbatim>\<open>NULL\<close> are options; the allocator is
  represented by the flag that all its functions are there.
\<close>

definition json_parser_init :: "string option \<Rightarrow> bool \<Rightarrow> bool \<Rightarrow> bool option \<Rightarrow> 'u \<Rightarrow> json_result + 'u json_parser" where
  "json_parser_init data has_callback has_allocator options u =
     (if data = None \<or> data = Some [] \<or> \<not> has_callback then Inl JSON_BAD_PARAMETER
      else if \<not> has_allocator then Inl JSON_BAD_PARAMETER
      else Inr \<lparr> ptr = the data, scan = False,
        path = replicate JSON_MAX_NESTING \<lparr> node_name = [], node_number = 0, node_size = 0, node_index = 0 \<rparr>,
        depth = 0, allow_whitespace = (case options of None \<Rightarrow> False | Some a \<Rightarrow> a), mallocs = 0, callback_data = u \<rparr>)"

definition json_parser_parse ::
    "'u json_callback \<Rightarrow> (nat \<Rightarrow> bool) \<Rightarrow> nat \<Rightarrow> 'u json_parser \<Rightarrow> (json_result \<times> 'u json_parser) option" where
  "json_parser_parse cb malloc_ok fuel p =
     (let (r0, p0) = skip_whitespace p
      in if r0 \<noteq> JSON_OK then Some (r0, p0)
         else case ptr p0 of
           [] \<Rightarrow> Some (JSON_EOF, p0)
         | c # cs \<Rightarrow>
             if c \<noteq> CHR ''{'' then Some (JSON_BAD_SYNTAX, p0 \<lparr> ptr := cs \<rparr>)
             else get_object cb malloc_ok fuel (p0 \<lparr> ptr := cs \<rparr>))"

text \<open>
  The comparison of the path with a pattern, element by element. The copy of a long pattern may fail to
  be allocated.
\<close>

fun match_elements :: "bool \<Rightarrow> string list \<Rightarrow> json_node list \<Rightarrow> json_result" where
  "match_elements allow (t # ts) (n # ns) =
     (if t = ''#''
      then if \<not> snd (strtou64 (node_name n) allow) then JSON_TYPE_MISMATCH else match_elements allow ts ns
      else if t \<noteq> node_name n then JSON_NO_MATCH else match_elements allow ts ns)"
| "match_elements allow _ _ = JSON_OK"

definition json_match :: "(nat \<Rightarrow> bool) \<Rightarrow> string \<Rightarrow> 'u json_parser \<Rightarrow> json_result" where
  "json_match malloc_ok pattern p =
     (if length pattern \<ge> 256 \<and> \<not> malloc_ok (mallocs p) then JSON_OUT_OF_MEMORY
      else case json_split pattern CHR ''.'' JSON_MAX_NESTING of
        None \<Rightarrow> JSON_NESTING_OVERFLOW
      | Some ts \<Rightarrow>
          if depth p \<noteq> length ts then JSON_NO_MATCH
          else match_elements (allow_whitespace p) ts (path p))"

definition json_get_array_index :: "'u json_parser \<Rightarrow> nat option" where
  "json_get_array_index p = (if depth p < 2 then None else Some (node_index (path p ! (depth p - 2))))"

section \<open>Consumption of the text\<close>

abbreviation len :: "'u json_parser \<Rightarrow> nat" where "len p \<equiv> length (ptr p)"

lemma skip_space_len: "length (snd (skip_space a t)) \<le> length t"
  by (induction a t rule: skip_space.induct) auto

lemma find_quote_len: "find_quote t = Some (x, e, r) \<Longrightarrow> length r < length t"
proof (induction t arbitrary: x e r rule: find_quote.induct)
  case (2 c cs)
  show ?case
  proof (cases "c \<noteq> QUOTE \<and> c = BACKSLASH")
    case True
    then obtain d ds where cs: "cs = d # ds" using "2.prems" by (cases cs) auto
    show ?thesis
    proof (cases "d = CHR ''u''")
      case u: True
      then obtain y f where "find_quote (drop 4 cs) = Some (y, f, r)" "\<not> length cs < 4"
        using "2.prems" True cs by (auto split: if_splits)
      then show ?thesis using "2.IH"(1) [OF _ _ cs u, of y f r] True by simp
    next
      case False
      then obtain y f where "find_quote ds = Some (y, f, r)" using "2.prems" True cs by auto
      then show ?thesis using "2.IH"(2) [OF _ _ cs False, of y f r] True cs by simp
    qed
  next
    case False
    then show ?thesis using "2.prems" "2.IH"(3) by (auto split: if_splits)
  qed
qed simp

lemma skip_whitespace_len: "len (snd (skip_whitespace p)) \<le> len p"
  using skip_space_len [of "allow_whitespace p" "ptr p"] by (auto simp: skip_whitespace_def split: prod.splits)

lemma invoke_callback_len [simp]: "len (snd (invoke_callback cb r t u p)) = len p"
  by (simp add: invoke_callback_def split: prod.splits)

lemma invoke_callback_ptr: "invoke_callback cb r t u p = (r', p') \<Longrightarrow> ptr p' = ptr p"
  by (auto simp: invoke_callback_def split: prod.splits if_splits)

lemma set_len [simp]: "len (set_index i p) = len p" "len (set_size n p) = len p" "len (enter_name s p) = len p"
  by (simp_all add: set_index_def set_size_def enter_name_def split: prod.splits)

lemma get_string_len: "len (snd (snd (get_string p))) \<le> len p"
  by (auto simp: get_string_def Let_def split: option.splits prod.splits dest: find_quote_len)

lemma object_len [simp]: "len (snd (object_begin cb p)) = len p" "len (snd (object_end cb p)) = len p"
  by (auto simp: object_begin_def object_end_def Let_def split: prod.splits dest: invoke_callback_ptr)

lemma member_name_len: "len (snd (member_name cb p)) \<le> len p"
proof -
  obtain r1 name p1 where 1: "get_string p = (r1, name, p1)" by (cases "get_string p") auto
  obtain r2 p2 where 2: "invoke_callback cb JSON_REASON_NAME JSON_TYPE_STRING (U_string name) (enter_name name p1) = (r2, p2)"
    by fastforce
  obtain r3 p3 where 3: "skip_whitespace p2 = (r3, p3)" by fastforce
  have "len p1 \<le> len p" "len p2 = len p1" "len p3 \<le> len p2"
    using get_string_len [of p] invoke_callback_len [of cb JSON_REASON_NAME JSON_TYPE_STRING "U_string name" "enter_name name p1"]
      skip_whitespace_len [of p2] by (simp_all add: 1 2 3)
  then show ?thesis by (auto simp: member_name_def 1 2 3 split: list.splits)
qed

lemma get_literal_len: "len (snd (get_literal cb s t u p)) \<le> len p"
  by (auto simp: get_literal_def expect_def split: option.splits if_splits)

lemma get_string_value_len: "len (snd (get_string_value cb p)) \<le> len p"
  using get_string_len [of p] by (auto simp: get_string_value_def split: prod.splits)

lemma get_number_value_len:
  "len (snd (get_number_value cb p)) \<le> len p" "fst (get_number_value cb p) = JSON_OK \<Longrightarrow> len (snd (get_number_value cb p)) < len p"
proof -
  obtain r ty un p1 where g: "get_number p = (r, ty, un, p1)" by (metis prod.collapse)
  have p1: "ptr p1 = dropWhile is_number_char (ptr p)" using g by (auto simp: get_number_def Let_def split: prod.splits)
  have le: "len p1 \<le> len p" by (simp add: p1 length_dropWhile_le)
  have "r = JSON_OK \<Longrightarrow> len p1 \<noteq> len p"
    using g p1 by (auto simp: get_number_def Let_def split: prod.splits if_splits)
  with le show "len (snd (get_number_value cb p)) \<le> len p"
    "fst (get_number_value cb p) = JSON_OK \<Longrightarrow> len (snd (get_number_value cb p)) < len p"
    by (auto simp: get_number_value_def g split: if_splits)
qed

section \<open>Termination\<close>

text \<open>A call is fine if it returns, does not add text, and on success has consumed some.\<close>

definition value_fine :: "'u json_callback \<Rightarrow> (nat \<Rightarrow> bool) \<Rightarrow> nat \<Rightarrow> 'u json_parser \<Rightarrow> bool" where
  "value_fine cb m fuel p \<longleftrightarrow>
     (\<exists>r p'. get_value cb m fuel p = Some (r, p') \<and> len p' \<le> len p \<and> (r = JSON_OK \<longrightarrow> len p' < len p))"

definition array_fine :: "'u json_callback \<Rightarrow> (nat \<Rightarrow> bool) \<Rightarrow> nat \<Rightarrow> nat \<Rightarrow> 'u json_parser \<Rightarrow> bool" where
  "array_fine cb m fuel i p \<longleftrightarrow> (\<exists>r n p'. get_array cb m fuel i p = Some (r, n, p') \<and> len p' \<le> len p)"

definition members_fine :: "'u json_callback \<Rightarrow> (nat \<Rightarrow> bool) \<Rightarrow> nat \<Rightarrow> 'u json_parser \<Rightarrow> bool" where
  "members_fine cb m fuel p \<longleftrightarrow> (\<exists>r p'. get_members cb m fuel p = Some (r, p') \<and> len p' \<le> len p)"

lemma array_fine_step:
  assumes v: "\<And>p. 2 * len p + 1 \<le> fuel \<Longrightarrow> value_fine cb m fuel p"
    and a: "\<And>i p. 2 * len p + 2 \<le> fuel \<Longrightarrow> array_fine cb m fuel i p"
    and n: "2 * len p + 2 \<le> Suc fuel"
  shows "array_fine cb m (Suc fuel) i p"
proof -
  obtain r0 p0 where s: "skip_whitespace p = (r0, p0)" by fastforce
  have l0: "len p0 \<le> len p" using skip_whitespace_len [of p] by (simp add: s)
  show ?thesis
  proof (cases "r0 = JSON_OK \<and> ptr p0 \<noteq> [] \<and> hd (ptr p0) \<notin> {CHR '']'', CHR '',''}")
    case True
    then obtain c cs where c: "ptr p0 = c # cs" "c \<noteq> CHR '']''" "c \<noteq> CHR '',''" by (cases "ptr p0") auto
    have "value_fine cb m fuel (set_index i p0)" using n l0 by (intro v) simp
    then obtain r1 p1 where 1: "get_value cb m fuel (set_index i p0) = Some (r1, p1)" "len p1 \<le> len p0"
      "r1 = JSON_OK \<longrightarrow> len p1 < len p0" by (auto simp: value_fine_def)
    show ?thesis
    proof (cases "r1 = JSON_OK")
      case ok: True
      then have "array_fine cb m fuel (i + 1) p1" using 1 n l0 by (intro a) simp
      with ok 1 l0 True c show ?thesis by (auto simp: array_fine_def s)
    next
      case False
      with 1 l0 True c show ?thesis by (simp add: array_fine_def s)
    qed
  next
    case False
    show ?thesis
    proof (cases "r0 = JSON_OK \<and> ptr p0 \<noteq> [] \<and> hd (ptr p0) = CHR '',''")
      case True
      then obtain cs where c: "ptr p0 = CHR '','' # cs" by (cases "ptr p0") auto
      have "array_fine cb m fuel i (p0 \<lparr> ptr := cs \<rparr>)" using n l0 c by (intro a) simp
      with True l0 c show ?thesis by (auto simp: array_fine_def s)
    next
      case F: False
      with False l0 show ?thesis by (cases "ptr p0") (auto simp: array_fine_def s)
    qed
  qed
qed

lemma members_fine_step:
  assumes v: "\<And>p. 2 * len p + 1 \<le> fuel \<Longrightarrow> value_fine cb m fuel p"
    and a: "\<And>p. 2 * len p + 2 \<le> fuel \<Longrightarrow> members_fine cb m fuel p"
    and n: "2 * len p + 2 \<le> Suc fuel"
  shows "members_fine cb m (Suc fuel) p"
proof -
  obtain r0 p0 where s: "skip_whitespace p = (r0, p0)" by fastforce
  have l0: "len p0 \<le> len p" using skip_whitespace_len [of p] by (simp add: s)
  show ?thesis
  proof (cases "r0 = JSON_OK \<and> ptr p0 \<noteq> []")
    case True
    then obtain c cs where c: "ptr p0 = c # cs" by (cases "ptr p0") auto
    obtain r p1 where 1: "member_name cb (p0 \<lparr> ptr := cs \<rparr>) = (r, p1)" by fastforce
    have l1: "len p1 \<le> length cs" using member_name_len [of cb "p0 \<lparr> ptr := cs \<rparr>"] by (simp add: 1)
    have "value_fine cb m fuel p1" using n l0 l1 c by (intro v) simp
    then obtain r2 p2 where 2: "get_value cb m fuel p1 = Some (r2, p2)" "len p2 \<le> len p1" by (auto simp: value_fine_def)
    have "members_fine cb m fuel p2" using n l0 l1 2(2) c by (intro a) simp
    moreover have "members_fine cb m fuel (p0 \<lparr> ptr := cs \<rparr>)" using n l0 c by (intro a) simp
    ultimately show ?thesis
      using True c 1 2 l0 l1 by (auto simp: members_fine_def s)
  next
    case False
    with l0 show ?thesis by (cases "ptr p0") (auto simp: members_fine_def s)
  qed
qed

text \<open>\<open>get_value\<close> by the first character of the value.\<close>

definition array_value ::
    "'u json_callback \<Rightarrow> (nat \<Rightarrow> bool) \<Rightarrow> nat \<Rightarrow> 'u json_parser \<Rightarrow> (json_result \<times> 'u json_parser) option" where
  "array_value cb malloc_ok fuel p1 =
     (let p2 = p1 \<lparr> mallocs := mallocs p1 + 1 \<rparr>
      in if \<not> malloc_ok (mallocs p1) then Some (JSON_OUT_OF_MEMORY, p2)
         else case get_array cb malloc_ok fuel 0 (p2 \<lparr> scan := True \<rparr>) of
           None \<Rightarrow> None
         | Some (rs, n, scanner) \<Rightarrow>
             let p3 = p2 \<lparr> mallocs := mallocs scanner \<rparr>
             in if rs \<noteq> JSON_OK then Some (JSON_BAD_SYNTAX, p3)
                else let (rb, p4) = invoke_callback cb JSON_REASON_BEGIN_ARRAY JSON_TYPE_INTEGER
                                      (U_integer (of_nat n)) (set_size n p3)
                     in if rb \<noteq> JSON_OK then Some (rb, p4)
                        else case get_array cb malloc_ok fuel 0 p4 of
                          None \<Rightarrow> None
                        | Some (ra, _, p5) \<Rightarrow>
                            if ra \<noteq> JSON_OK then Some (JSON_BAD_SYNTAX, p5)
                            else Some (invoke_callback cb JSON_REASON_END_ARRAY JSON_TYPE_INTEGER
                                         (U_integer (of_nat n)) p5))"

lemma get_value_first:
  assumes "skip_whitespace p = (JSON_OK, p0)" and "ptr p0 = ch # cs"
  defines "p1 \<equiv> p0 \<lparr> ptr := cs \<rparr>" and "c \<equiv> tolower ch"
  shows "get_value cb m (Suc fuel) p =
    (if c = code CHR ''f'' then Some (get_literal cb ''alse'' JSON_TYPE_BOOLEAN (U_boolean False) p1)
     else if c = code CHR ''n'' then Some (get_literal cb ''ull'' JSON_TYPE_NULL U_null p1)
     else if c = code CHR ''t'' then Some (get_literal cb ''rue'' JSON_TYPE_BOOLEAN (U_boolean True) p1)
     else if c = code CHR ''{'' then get_object cb m fuel p1
     else if c = code CHR ''['' then array_value cb m fuel p1
     else if c = code QUOTE then Some (get_string_value cb p1)
     else Some (get_number_value cb p0))"
  unfolding p1_def c_def array_value_def get_object_def by (simp add: assms(1,2) Let_def)

declare get_value.simps [simp del]

lemma get_object_fine:
  assumes "\<And>p. 2 * len p + 2 \<le> fuel \<Longrightarrow> members_fine cb m fuel p" and "2 * len p + 2 \<le> fuel"
  shows "\<exists>r p'. get_object cb m fuel p = Some (r, p') \<and> len p' \<le> len p"
proof -
  obtain r p2 where b: "object_begin cb p = (r, p2)" by fastforce
  have l: "len p2 = len p" using object_len(1) [of cb p] by (simp add: b)
  then obtain r3 p3 where 3: "get_members cb m fuel p2 = Some (r3, p3)" "len p3 \<le> len p2"
    using assms(1) [of p2] assms(2) by (auto simp: members_fine_def)
  have "len (snd (object_end cb p3)) = len p3" by simp
  then show ?thesis using b l 3 by (cases "object_end cb p3") (auto simp: get_object_def)
qed

lemma array_value_fine:
  assumes a: "\<And>i p. 2 * len p + 2 \<le> fuel \<Longrightarrow> array_fine cb m fuel i p" and n: "2 * len p + 2 \<le> fuel"
  shows "\<exists>r p'. array_value cb m fuel p = Some (r, p') \<and> len p' \<le> len p"
proof -
  let ?p2 = "p \<lparr> mallocs := mallocs p + 1 \<rparr>"
  have "array_fine cb m fuel 0 (?p2 \<lparr> scan := True \<rparr>)" using n by (intro a) simp
  then obtain rs k sc where 1: "get_array cb m fuel 0 (?p2 \<lparr> scan := True \<rparr>) = Some (rs, k, sc)"
    by (auto simp: array_fine_def)
  let ?p3 = "?p2 \<lparr> mallocs := mallocs sc \<rparr>"
  obtain rb p4 where 2: "invoke_callback cb JSON_REASON_BEGIN_ARRAY JSON_TYPE_INTEGER (U_integer (of_nat k)) (set_size k ?p3) = (rb, p4)"
    by fastforce
  have l4: "len p4 = len p" using invoke_callback_ptr [OF 2] by (simp add: set_size_def)
  then obtain ra k' p5 where 3: "get_array cb m fuel 0 p4 = Some (ra, k', p5)" "len p5 \<le> len p4"
    using a [of p4 0] n by (auto simp: array_fine_def)
  obtain re p6 where 4: "invoke_callback cb JSON_REASON_END_ARRAY JSON_TYPE_INTEGER (U_integer (of_nat k)) p5 = (re, p6)"
    by fastforce
  have "len p6 = len p5" using invoke_callback_ptr [OF 4] by simp
  then show ?thesis using 1 2 3 4 l4 by (simp add: array_value_def Let_def)
qed

text \<open>What makes a call fine, for a result that consumed the first character.\<close>

definition eats :: "'u json_parser \<Rightarrow> (json_result \<times> 'u json_parser) option \<Rightarrow> bool" where
  "eats p x \<longleftrightarrow> (\<exists>r p'. x = Some (r, p') \<and> len p' \<le> len p \<and> (r = JSON_OK \<longrightarrow> len p' < len p))"

lemma eatsI: "len (snd x) \<le> n \<Longrightarrow> n < len p \<Longrightarrow> eats p (Some x)"
  by (cases x) (auto simp: eats_def)

lemma value_fine_step:
  assumes a: "\<And>i p. 2 * len p + 2 \<le> fuel \<Longrightarrow> array_fine cb m fuel i p"
    and o: "\<And>p. 2 * len p + 2 \<le> fuel \<Longrightarrow> members_fine cb m fuel p"
    and n: "2 * len p + 1 \<le> Suc fuel"
  shows "value_fine cb m (Suc fuel) p"
proof -
  obtain r0 p0 where s: "skip_whitespace p = (r0, p0)" by fastforce
  have l0: "len p0 \<le> len p" using skip_whitespace_len [of p] by (simp add: s)
  show ?thesis
  proof (cases "r0 = JSON_OK \<and> ptr p0 \<noteq> []")
    case True
    then obtain ch cs where c: "ptr p0 = ch # cs" by (cases "ptr p0") auto
    have s': "skip_whitespace p = (JSON_OK, p0)" using s True by simp
    let ?p1 = "p0 \<lparr> ptr := cs \<rparr>"
    have n1: "2 * len ?p1 + 2 \<le> fuel" and less: "len ?p1 < len p" using n l0 c by simp_all
    obtain ro po where ob: "get_object cb m fuel ?p1 = Some (ro, po)" "len po \<le> len ?p1"
      using get_object_fine [OF o n1] by blast
    obtain rv pv where av: "array_value cb m fuel ?p1 = Some (rv, pv)" "len pv \<le> len ?p1"
      using array_value_fine [OF a n1] by blast
    have "eats p (Some (get_literal cb x t u ?p1))" for x t u using get_literal_len less by (rule eatsI)
    moreover have "eats p (Some (get_string_value cb ?p1))" using get_string_value_len less by (rule eatsI)
    moreover have "eats p (Some (get_number_value cb p0))"
      using get_number_value_len [of cb p0] l0 by (cases "get_number_value cb p0") (auto simp: eats_def)
    moreover have "eats p (get_object cb m fuel ?p1)" "eats p (array_value cb m fuel ?p1)"
      using ob av less by (auto simp: eats_def)
    ultimately have "eats p (get_value cb m (Suc fuel) p)" unfolding get_value_first [OF s' c] by simp
    then show ?thesis by (simp add: value_fine_def eats_def)
  next
    case False
    with l0 show ?thesis by (cases "ptr p0") (auto simp: value_fine_def get_value.simps s)
  qed
qed

lemma all_fine:
  "(\<forall>p. 2 * len p + 1 \<le> fuel \<longrightarrow> value_fine cb m fuel p) \<and>
   (\<forall>i p. 2 * len p + 2 \<le> fuel \<longrightarrow> array_fine cb m fuel i p) \<and>
   (\<forall>p. 2 * len p + 2 \<le> fuel \<longrightarrow> members_fine cb m fuel p)"
proof (induction fuel)
  case (Suc fuel)
  then have v: "\<And>p. 2 * len p + 1 \<le> fuel \<Longrightarrow> value_fine cb m fuel p"
    and a: "\<And>i p. 2 * len p + 2 \<le> fuel \<Longrightarrow> array_fine cb m fuel i p"
    and o: "\<And>p. 2 * len p + 2 \<le> fuel \<Longrightarrow> members_fine cb m fuel p" by blast+
  show ?case
    using value_fine_step [OF a o] array_fine_step [OF v a] members_fine_step [OF v o] by simp
qed simp

section \<open>Properties of the parser\<close>

text \<open>
  C13: the parser always returns. Calls nested twice as deep as the text is long are enough for any text,
  any callback and any behaviour of the allocator; the result is one of the result codes and never is
  text added.
\<close>

theorem json_parse_terminates:
  assumes "2 * length (ptr p) \<le> fuel"
  shows "\<exists>r p'. json_parser_parse cb malloc_ok fuel p = Some (r, p') \<and> length (ptr p') \<le> length (ptr p)"
proof -
  obtain r0 p0 where s: "skip_whitespace p = (r0, p0)" by fastforce
  have l0: "len p0 \<le> len p" using skip_whitespace_len [of p] by (simp add: s)
  show ?thesis
  proof (cases "ptr p0")
    case (Cons c cs)
    have "2 * len (p0 \<lparr> ptr := cs \<rparr>) + 2 \<le> fuel" using assms l0 Cons by simp
    then have "\<exists>r p'. get_object cb malloc_ok fuel (p0 \<lparr> ptr := cs \<rparr>) = Some (r, p') \<and> len p' \<le> length cs"
      using get_object_fine [of fuel cb malloc_ok "p0 \<lparr> ptr := cs \<rparr>"] all_fine [of fuel cb malloc_ok] by simp
    then show ?thesis using s l0 Cons by (auto simp: json_parser_parse_def)
  qed (use s l0 in \<open>simp add: json_parser_parse_def\<close>)
qed

theorem json_parse_terminates_witness:
  "\<exists>r p'. json_parser_parse (\<lambda>p r t u. (JSON_OK, ())) (\<lambda>_. False) 20 \<lparr> ptr = ''{,,[[[B'', scan = False, path = [], depth = 0,
      allow_whitespace = False, mallocs = 0, callback_data = () \<rparr> = Some (r, p') \<and> length (ptr p') \<le> length ''{,,[[[B''"
  using json_parse_terminates [of "\<lparr> ptr = ''{,,[[[B'', scan = False, path = [], depth = 0,
      allow_whitespace = False, mallocs = 0, callback_data = () \<rparr>" 20 "\<lambda>p r t u. (JSON_OK, ())" "\<lambda>_. False"] by simp

end
