(* ===== verification/Json_Print.thy ===== *)
theory Json_Print
  imports Json
begin

text \<open>
  The printing half of \<^verbatim>\<open>src/src/libjson/json.c\<close>, and the correctness of the parser on printed text. What
  is written to the stream is collected in a string. The text of a real number (\<^verbatim>\<open>_dtostr\<close>, floating
  point) is a parameter.
\<close>

section \<open>Printing\<close>

fun json_result_string :: "json_result \<Rightarrow> string" where
  "json_result_string JSON_OK = ''JSON_OK''"
| "json_result_string JSON_FAILED = ''JSON_FAILED''"
| "json_result_string JSON_UNEXPECTED = ''JSON_UNEXPECTED''"
| "json_result_string JSON_BAD_PARAMETER = ''JSON_BAD_PARAMETER''"
| "json_result_string JSON_OUT_OF_MEMORY = ''JSON_OUT_OF_MEMORY''"
| "json_result_string JSON_EOF = ''JSON_EOF''"
| "json_result_string JSON_UNSUPPORTED = ''JSON_UNSUPPORTED''"
| "json_result_string JSON_BAD_SYNTAX = ''JSON_BAD_SYNTAX''"
| "json_result_string JSON_TYPE_MISMATCH = ''JSON_TYPE_MISMATCH''"
| "json_result_string JSON_NESTING_OVERFLOW = ''JSON_NESTING_OVERFLOW''"
| "json_result_string JSON_NESTING_UNDERFLOW = ''JSON_NESTING_UNDERFLOW''"
| "json_result_string JSON_BUFFER_OVERFLOW = ''JSON_BUFFER_OVERFLOW''"
| "json_result_string JSON_UNKNOWN_VALUE = ''JSON_UNKNOWN_VALUE''"
| "json_result_string JSON_OUT_OF_BOUNDS = ''JSON_OUT_OF_BOUNDS''"
| "json_result_string JSON_NO_MATCH = ''JSON_NO_MATCH''"

definition hex_char :: "nat \<Rightarrow> char" where
  "hex_char n = (if n \<ge> 10 then char_of (n - 10 + code CHR ''A'') else char_of (n + code CHR ''0''))"

definition byte_to_hex_string :: "char \<Rightarrow> string" where
  "byte_to_hex_string c = [hex_char (code c div 16), hex_char (code c mod 16)]"

definition print_char :: "char \<Rightarrow> string" where
  "print_char c =
     (if c = QUOTE then [BACKSLASH, QUOTE] else if c = BACKSLASH then [BACKSLASH, BACKSLASH]
      else if c = CHR ''/'' then [BACKSLASH, CHR ''/''] else if c = CHR 0x08 then [BACKSLASH, CHR ''b'']
      else if c = CHR 0x0C then [BACKSLASH, CHR ''f''] else if c = CHR 0x0A then [BACKSLASH, CHR ''n'']
      else if c = CHR 0x0D then [BACKSLASH, CHR ''r''] else if c = CHR 0x09 then [BACKSLASH, CHR ''t'']
      else if isprint c then [c]
      else BACKSLASH # ''u00'' @ byte_to_hex_string c)"

definition print_string :: "string \<Rightarrow> string" where
  "print_string str = QUOTE # concat (map print_char (c_string str)) @ [QUOTE]"

definition json_print_value :: "(real_lit \<Rightarrow> string) \<Rightarrow> json_type \<Rightarrow> json_union \<Rightarrow> string" where
  "json_print_value dtostr type un =
     (case type of
        JSON_TYPE_NULL \<Rightarrow> ''null''
      | JSON_TYPE_BOOLEAN \<Rightarrow> (case un of U_boolean b \<Rightarrow> if b then ''true'' else ''false'' | _ \<Rightarrow> [])
      | JSON_TYPE_INTEGER \<Rightarrow> (case un of U_integer x \<Rightarrow> i64tostr x | _ \<Rightarrow> [])
      | JSON_TYPE_REAL \<Rightarrow> (case un of U_real z \<Rightarrow> dtostr z | _ \<Rightarrow> [])
      | JSON_TYPE_STRING \<Rightarrow> (case un of U_string s \<Rightarrow> print_string s | _ \<Rightarrow> []))"

record print_data =
  pr_depth :: int
  pr_newline :: bool
  pr_comma :: bool
  pr_out :: string

definition write_str :: "string \<Rightarrow> print_data \<Rightarrow> print_data" where
  "write_str s d = d \<lparr> pr_out := pr_out d @ s \<rparr>"

definition indent :: "int \<Rightarrow> string" where
  "indent n = concat (replicate (nat n) ''  '')"

text \<open>Comma, depth and newline before an element, then the element itself.\<close>

definition print_before :: "json_reason \<Rightarrow> print_data \<Rightarrow> print_data" where
  "print_before reason d =
     (let ending = (reason = JSON_REASON_END_ARRAY \<or> reason = JSON_REASON_END_OBJECT);
          d1 = (if \<not> ending \<and> pr_comma d then write_str '','' (d \<lparr> pr_comma := False \<rparr>) else d);
          d2 = (if ending then d1 \<lparr> pr_depth := pr_depth d1 - 1 \<rparr> else d1)
      in if pr_newline d2
         then write_str (indent (pr_depth d2)) (write_str [CHR 0x0A] (d2 \<lparr> pr_newline := False \<rparr>)) else d2)"

definition print_element :: "(real_lit \<Rightarrow> string) \<Rightarrow> json_reason \<Rightarrow> json_type \<Rightarrow> json_union \<Rightarrow> print_data \<Rightarrow> print_data" where
  "print_element dtostr reason type un d =
     (case reason of
        JSON_REASON_NONE \<Rightarrow> d
      | JSON_REASON_NAME \<Rightarrow>
          (write_str '': '' (write_str (case un of U_string s \<Rightarrow> print_string s | _ \<Rightarrow> []) d)) \<lparr> pr_comma := False \<rparr>
      | JSON_REASON_BEGIN_OBJECT \<Rightarrow> write_str ''{'' (d \<lparr> pr_depth := pr_depth d + 1, pr_newline := True, pr_comma := False \<rparr>)
      | JSON_REASON_END_OBJECT \<Rightarrow> write_str ''}'' (d \<lparr> pr_newline := True, pr_comma := True \<rparr>)
      | JSON_REASON_BEGIN_ARRAY \<Rightarrow> write_str ''['' (d \<lparr> pr_depth := pr_depth d + 1, pr_newline := True, pr_comma := False \<rparr>)
      | JSON_REASON_END_ARRAY \<Rightarrow> write_str '']'' (d \<lparr> pr_newline := True, pr_comma := True \<rparr>)
      | JSON_REASON_VALUE \<Rightarrow> write_str (json_print_value dtostr type un) (d \<lparr> pr_newline := True, pr_comma := True \<rparr>))"

definition json_print_callback :: "(real_lit \<Rightarrow> string) \<Rightarrow> print_data json_callback" where
  "json_print_callback dtostr p reason type un =
     (let d = print_element dtostr reason type un (print_before reason (callback_data p));
          d' = (if (reason = JSON_REASON_END_OBJECT \<or> reason = JSON_REASON_END_ARRAY) \<and> pr_depth d = 0
                then write_str [CHR 0x0A] d else d)
      in (JSON_OK, d'))"

text \<open>
  The result code and what was written. The first flag says whether the copy of the text could be
  allocated, \<open>malloc_ok\<close> the later allocations; the options argument is \<^verbatim>\<open>NULL\<close>.
\<close>

definition json_print ::
    "(real_lit \<Rightarrow> string) \<Rightarrow> bool \<Rightarrow> (nat \<Rightarrow> bool) \<Rightarrow> nat \<Rightarrow> bool \<Rightarrow> bool \<Rightarrow> string option \<Rightarrow> (json_result \<times> string) option" where
  "json_print dtostr copy_ok malloc_ok fuel has_write has_allocator json_data =
     (if \<not> has_write \<or> json_data = None \<or> json_data = Some [] then Some (JSON_BAD_PARAMETER, [])
      else if \<not> has_allocator then Some (JSON_BAD_PARAMETER, [])
      else if \<not> copy_ok then Some (JSON_OUT_OF_MEMORY, [])
      else case json_parser_init json_data True has_allocator None
                  \<lparr> pr_depth = 0, pr_newline = False, pr_comma = False, pr_out = [] \<rparr> of
        Inl _ \<Rightarrow> Some (JSON_FAILED, [])
      | Inr p \<Rightarrow>
          (case json_parser_parse (json_print_callback dtostr) malloc_ok fuel p of
             None \<Rightarrow> None
           | Some (r, p') \<Rightarrow>
               Some (if r \<noteq> JSON_OK \<or> pr_depth (callback_data p') \<noteq> 0 then JSON_BAD_SYNTAX else JSON_OK,
                     pr_out (callback_data p'))))"

fun dump_nodes :: "json_node list \<Rightarrow> string" where
  "dump_nodes [] = []"
| "dump_nodes (n # ns) =
     c_string (node_name n) @
     (if node_size n \<noteq> 0 then ''['' @ i64tostr (of_nat (node_size n)) @ '']'' else []) @
     (if ns \<noteq> [] then ''.'' else []) @ dump_nodes ns"

definition json_dump_path :: "'u json_parser \<Rightarrow> string" where
  "json_dump_path p = dump_nodes (take (depth p) (path p)) @ [CHR 0x0A]"

section \<open>Documents\<close>

datatype json =
    JNull | JBool bool | JInt u64 | JString string | JArray "json list" | JObject "(string \<times> json) list"

text \<open>The text of a document, without white space, and the calls of the callback that it stands for.\<close>

fun commas :: "string list \<Rightarrow> string" where
  "commas [] = []"
| "commas (x # xs) = x @ concat (map ((#) CHR '','') xs)"

fun render :: "json \<Rightarrow> string" where
  "render JNull = ''null''"
| "render (JBool b) = (if b then ''true'' else ''false'')"
| "render (JInt x) = i64tostr x"
| "render (JString s) = print_string s"
| "render (JArray vs) = ''['' @ commas (map render vs) @ '']''"
| "render (JObject ms) = ''{'' @ commas (map (\<lambda>(n, v). print_string n @ '':'' @ render v) ms) @ ''}''"

type_synonym json_event = "json_reason \<times> json_type \<times> json_union"

fun events :: "json \<Rightarrow> json_event list" where
  "events JNull = [(JSON_REASON_VALUE, JSON_TYPE_NULL, U_null)]"
| "events (JBool b) = [(JSON_REASON_VALUE, JSON_TYPE_BOOLEAN, U_boolean b)]"
| "events (JInt x) = [(JSON_REASON_VALUE, JSON_TYPE_INTEGER, U_integer x)]"
| "events (JString s) = [(JSON_REASON_VALUE, JSON_TYPE_STRING, U_string s)]"
| "events (JArray vs) =
     (let size = U_integer (of_nat (length vs))
      in (JSON_REASON_BEGIN_ARRAY, JSON_TYPE_INTEGER, size) # concat (map events vs) @
         [(JSON_REASON_END_ARRAY, JSON_TYPE_INTEGER, size)])"
| "events (JObject ms) =
     (JSON_REASON_BEGIN_OBJECT, JSON_TYPE_NULL, U_null) #
     concat (map (\<lambda>(n, v). (JSON_REASON_NAME, JSON_TYPE_STRING, U_string n) # events v) ms) @
     [(JSON_REASON_END_OBJECT, JSON_TYPE_NULL, U_null)]"

fun nesting :: "json \<Rightarrow> nat" where
  "nesting (JArray vs) = foldr max (map nesting vs) 0"
| "nesting (JObject ms) = Suc (foldr max (map (\<lambda>(n, v). nesting v) ms) 0)"
| "nesting _ = 0"

text \<open>
  The characters whose printed form the parser reads back: those that are printed as themselves or
  with a short escape, and those whose hexadecimal code has decimal digits only.
\<close>

definition safe_char :: "char \<Rightarrow> bool" where
  "safe_char c \<longleftrightarrow> c \<noteq> NUL \<and> (length (print_char c) \<le> 2 \<or> (code c div 16 < 10 \<and> code c mod 16 < 10))"

fun safe :: "json \<Rightarrow> bool" where
  "safe (JString s) = list_all safe_char s"
| "safe (JArray vs) = list_all safe vs"
| "safe (JObject ms) = list_all (\<lambda>(n, v). list_all safe_char n \<and> safe v) ms"
| "safe _ = True"

definition recorder :: "json_event list json_callback" where
  "recorder p reason type un = (JSON_OK, callback_data p @ [(reason, type, un)])"

section \<open>Strings\<close>

definition short_escaped :: "char \<Rightarrow> bool" where
  "short_escaped c \<longleftrightarrow> c \<in> {QUOTE, BACKSLASH, CHR ''/'', CHR 0x08, CHR 0x0C, CHR 0x0A, CHR 0x0D, CHR 0x09}"

lemma print_char_short:
  "short_escaped c \<Longrightarrow> \<exists>d. print_char c = [BACKSLASH, d] \<and> d \<noteq> NUL \<and> d \<noteq> CHR ''u'' \<and> simple_escape d = Some c"
  by (auto simp: short_escaped_def print_char_def simple_escape_def)

lemma print_char_long:
  "\<not> short_escaped c \<Longrightarrow> print_char c = (if isprint c then [c] else BACKSLASH # ''u00'' @ byte_to_hex_string c)"
  by (simp add: short_escaped_def print_char_def)

lemma NUL_not_print: "\<not> isprint NUL"
  by (simp add: isprint_def isdigit_def islower_def isupper_def)

lemma print_char_cases:
  obtains (plain) "print_char c = [c]" "c \<noteq> QUOTE" "c \<noteq> BACKSLASH" "c \<noteq> NUL"
  | (short) d where "print_char c = [BACKSLASH, d]" "d \<noteq> NUL" "d \<noteq> CHR ''u''" "simple_escape d = Some c"
  | (hex) "print_char c = BACKSLASH # ''u00'' @ byte_to_hex_string c"
proof (cases "short_escaped c")
  case True
  then show thesis using print_char_short short by blast
next
  case False
  then have q: "c \<noteq> QUOTE" "c \<noteq> BACKSLASH" by (auto simp: short_escaped_def)
  show thesis
  proof (cases "isprint c")
    case True
    then have "c \<noteq> NUL" using NUL_not_print by blast
    with q True False show thesis by (intro plain) (simp_all add: print_char_long)
  qed (use False in \<open>simp add: print_char_long hex\<close>)
qed

lemma hex_char_props: "n < 16 \<Longrightarrow> hex_char n \<noteq> QUOTE \<and> hex_char n \<noteq> BACKSLASH \<and> hex_char n \<noteq> NUL"
proof -
  have "list_all (\<lambda>n. hex_char n \<noteq> QUOTE \<and> hex_char n \<noteq> BACKSLASH \<and> hex_char n \<noteq> NUL) [0..<16]" by code_simp
  then show "n < 16 \<Longrightarrow> ?thesis" by (simp add: list_all_iff)
qed

lemma hex_char_nibble: "n < 10 \<Longrightarrow> char_to_nibble (hex_char n) = n"
proof -
  have "list_all (\<lambda>n. char_to_nibble (hex_char n) = n) [0..<10]" by code_simp
  then show "n < 10 \<Longrightarrow> ?thesis" by (simp add: list_all_iff)
qed

lemma hex_char_letter: "10 \<le> n \<Longrightarrow> n < 16 \<Longrightarrow> char_to_nibble (hex_char n) = 255"
proof -
  have "list_all (\<lambda>n. n < 10 \<or> char_to_nibble (hex_char n) = 255) [0..<16]" by code_simp
  then have "n \<in> set [0..<16] \<Longrightarrow> n < 10 \<or> char_to_nibble (hex_char n) = 255" unfolding list_all_iff by blast
  then show "10 \<le> n \<Longrightarrow> n < 16 \<Longrightarrow> ?thesis" by (simp del: upt_rec_numeral)
qed

lemma code_less: "code c < 256"
  by (rule nat_of_char_less_256)

lemma code_nibbles: "code c div 16 < 16" "code c mod 16 < 16" "char_of (code c div 16 * 16 + code c mod 16) = c"
  using code_less [of c] by (simp_all add: less_mult_imp_div_less)

lemma find_quote_print_char:
  "find_quote (print_char c @ t) =
     map_option (\<lambda>(x, e, r). (print_char c @ x, e \<or> print_char c \<noteq> [c], r)) (find_quote t)"
proof (cases c rule: print_char_cases)
  case plain
  then show ?thesis by simp
next
  case (short d)
  then have "find_quote (print_char c @ t) = map_option (\<lambda>(x, _, r). (print_char c @ x, True, r)) (find_quote t)" by simp
  then show ?thesis using short by (simp add: case_prod_unfold)
next
  case hex
  then show ?thesis using hex_char_props [OF code_nibbles(2), of c]
    by (simp add: byte_to_hex_string_def option.map_comp o_def case_prod_unfold)
qed

lemma unescape_print_char:
  assumes "safe_char c"
  shows "unescape (print_char c @ t) = apsnd ((#) c) (unescape t)"
proof (cases c rule: print_char_cases)
  case hex
  then have "code c div 16 < 10" "code c mod 16 < 10" using assms by (auto simp: safe_char_def byte_to_hex_string_def)
  moreover have "char_to_nibble CHR ''0'' = 0" by code_simp
  ultimately have "hex_str4_to_u32 CHR ''0'' CHR ''0'' (hex_char (code c div 16)) (hex_char (code c mod 16)) = Some (code c)"
    by (simp add: hex_str4_to_u32_def hex_char_nibble)
  then show ?thesis using hex code_less [of c, unfolded not_le [symmetric]] by (simp add: byte_to_hex_string_def)
qed simp_all

lemma c_string_no_NUL: "NUL \<notin> set s \<Longrightarrow> c_string s = s"
  by (auto simp: c_string_def takeWhile_eq_all_conv)

lemma safe_no_NUL: "list_all safe_char s \<Longrightarrow> NUL \<notin> set s"
  by (auto simp: safe_char_def list_all_iff)

abbreviation printed :: "string \<Rightarrow> string" where "printed s \<equiv> concat (map print_char s)"

lemma find_quote_printed:
  "find_quote (printed s @ QUOTE # rest) = Some (printed s, list_ex (\<lambda>c. print_char c \<noteq> [c]) s, rest)"
  by (induction s) (auto simp: find_quote_print_char)

lemma unescape_printed: "list_all safe_char s \<Longrightarrow> unescape (printed s) = (JSON_OK, s)"
  by (induction s) (simp_all add: unescape_print_char)

lemma printed_plain: "\<not> list_ex (\<lambda>c. print_char c \<noteq> [c]) s \<Longrightarrow> printed s = s"
  by (induction s) auto

lemma print_string_safe: "list_all safe_char s \<Longrightarrow> print_string s = QUOTE # printed s @ [QUOTE]"
  by (simp add: print_string_def c_string_no_NUL safe_no_NUL)

lemma get_string_printed:
  assumes "list_all safe_char s" and "ptr p = printed s @ QUOTE # rest"
  shows "\<exists>x. get_string p = (JSON_OK, x, p \<lparr> ptr := rest \<rparr>) \<and> (scan p \<or> x = s)"
  using assms unescape_printed [of s] printed_plain [of s] find_quote_printed [of s rest]
  by (cases "list_ex (\<lambda>c. print_char c \<noteq> [c]) s")
    (simp_all add: get_string_def c_string_no_NUL safe_no_NUL Let_def)

section \<open>Values\<close>

definition delimited :: "string \<Rightarrow> bool" where
  "delimited t \<longleftrightarrow> t = [] \<or> \<not> is_number_char (hd t)"

text \<open>
  What parsing a document does to the parser: the text is consumed, the events are reported unless it
  is only scanned, and the nesting depth and the modes are back to what they were.
\<close>

definition parsed :: "json_event list json_parser \<Rightarrow> string \<Rightarrow> json_event list \<Rightarrow> json_event list json_parser \<Rightarrow> bool" where
  "parsed p rest es p' \<longleftrightarrow> ptr p' = rest \<and> depth p' = depth p \<and> scan p' = scan p \<and>
     allow_whitespace p' = allow_whitespace p \<and>
     callback_data p' = callback_data p @ (if scan p then [] else es)"

lemma invoke_recorder:
  "invoke_callback recorder reason type un p =
     (JSON_OK, p \<lparr> callback_data := callback_data p @ (if scan p then [] else [(reason, type, un)]) \<rparr>)"
  by (simp add: invoke_callback_def recorder_def)

lemma skip_whitespace_first:
  "ptr p = c # cs \<Longrightarrow> \<not> isspace c \<Longrightarrow> skip_whitespace p = (JSON_OK, p)"
  by (simp add: skip_whitespace_def)

lemma number_chars:
  assumes "delimited rest"
  shows "takeWhile is_number_char (i64tostr x @ rest) = i64tostr x" "dropWhile is_number_char (i64tostr x @ rest) = rest"
    "\<not> list_ex is_decimal_or_exponent (i64tostr x)"
proof -
  have all: "list_all is_number_char (i64tostr x)" "\<not> list_ex is_decimal_or_exponent (i64tostr x)"
    using i64tostr_chars [of x]
    by (auto simp: list_all_iff list_ex_iff is_number_char_def is_decimal_or_exponent_def isdigit_def)
  have "takeWhile is_number_char rest = []" "dropWhile is_number_char rest = rest"
    using assms by (cases rest; simp add: delimited_def)+
  with all show "takeWhile is_number_char (i64tostr x @ rest) = i64tostr x"
    "dropWhile is_number_char (i64tostr x @ rest) = rest" "\<not> list_ex is_decimal_or_exponent (i64tostr x)"
    by (simp_all add: takeWhile_append2 dropWhile_append2 list_all_iff)
qed

lemma number_value:
  assumes "ptr p = i64tostr x @ rest" and "delimited rest"
  shows "\<exists>p'. get_number_value recorder p = (JSON_OK, p') \<and> parsed p rest (events (JInt x)) p'"
proof -
  have "no_digit rest" using assms(2) by (cases rest) (auto simp: delimited_def no_digit_def is_number_char_def)
  then have "get_number p = (JSON_OK, JSON_TYPE_INTEGER, U_integer x, p \<lparr> ptr := rest \<rparr>)"
    using assms strtol_i64tostr [of rest x "allow_whitespace p"] i64tostr_chars [of x] number_chars [OF assms(2), of x]
    by (simp add: get_number_def Let_def)
  then show ?thesis by (simp add: get_number_value_def invoke_recorder parsed_def)
qed

lemma string_value:
  assumes "list_all safe_char s" and "ptr p = printed s @ QUOTE # rest"
  shows "\<exists>p'. get_string_value recorder p = (JSON_OK, p') \<and> parsed p rest (events (JString s)) p'"
proof -
  obtain y where "get_string p = (JSON_OK, y, p \<lparr> ptr := rest \<rparr>)" "scan p \<or> y = s"
    using get_string_printed [OF assms] by blast
  then show ?thesis by (auto simp: get_string_value_def invoke_recorder parsed_def)
qed

lemma literal_value:
  assumes "ptr p = str @ rest"
  shows "\<exists>p'. get_literal recorder str type un p = (JSON_OK, p') \<and> parsed p rest [(JSON_REASON_VALUE, type, un)] p'"
  using assms by (simp add: get_literal_def expect_def invoke_recorder parsed_def)

text \<open>The first character of a document decides how it is parsed.\<close>

lemma render_first:
  assumes "safe v"
  shows "\<exists>c cs. render v = c # cs \<and> \<not> isspace c \<and> c \<noteq> CHR '','' \<and> c \<noteq> CHR '']''"
proof (cases v)
  case (JInt x)
  obtain c cs where c: "i64tostr x = c # cs" using i64tostr_chars [of x] by (cases "i64tostr x") auto
  then have "isdigit c \<or> c = CHR ''-''" using i64tostr_chars [of x] by auto
  then show ?thesis using c JInt by (auto simp: isdigit_def isspace_def)
qed (auto simp: isspace_def print_string_def)

lemma parsed_trans:
  "parsed p r1 es1 p1 \<Longrightarrow> parsed p1 r2 es2 p2 \<Longrightarrow> parsed p r2 (es1 @ es2) p2"
  by (simp add: parsed_def)

text \<open>The claim for one document, at every position, in both modes.\<close>

definition parses :: "(nat \<Rightarrow> bool) \<Rightarrow> json \<Rightarrow> bool" where
  "parses m v \<longleftrightarrow> (\<forall>fuel p rest. ptr p = render v @ rest \<and> delimited rest \<and> depth p + nesting v \<le> 64 \<and>
     2 * len p + 1 \<le> fuel \<longrightarrow>
     (\<exists>p'. get_value recorder m fuel p = Some (JSON_OK, p') \<and> parsed p rest (events v) p'))"

lemma parsesE:
  assumes "parses m v" and "ptr p = render v @ rest" and "delimited rest" and "depth p + nesting v \<le> 64"
    and "2 * len p + 1 \<le> fuel"
  obtains p' where "get_value recorder m fuel p = Some (JSON_OK, p')" "parsed p rest (events v) p'"
  using assms unfolding parses_def by blast

lemma parsesI:
  assumes "\<And>fuel p rest. ptr p = render v @ rest \<Longrightarrow> delimited rest \<Longrightarrow> depth p + nesting v \<le> 64 \<Longrightarrow>
     2 * len p \<le> fuel \<Longrightarrow>
     \<exists>p'. get_value recorder m (Suc fuel) p = Some (JSON_OK, p') \<and> parsed p rest (events v) p'"
  shows "parses m v"
  unfolding parses_def
proof (intro allI impI)
  fix fuel rest and p :: "json_event list json_parser"
  assume *: "ptr p = render v @ rest \<and> delimited rest \<and> depth p + nesting v \<le> 64 \<and> 2 * len p + 1 \<le> fuel"
  then have "2 * len p + 1 \<le> fuel" by blast
  then obtain f where f: "fuel = Suc f" "2 * len p \<le> f" by (cases fuel) simp_all
  have "\<exists>p'. get_value recorder m (Suc f) p = Some (JSON_OK, p') \<and> parsed p rest (events v) p'"
    using * f(2) by (intro assms) blast+
  then show "\<exists>p'. get_value recorder m fuel p = Some (JSON_OK, p') \<and> parsed p rest (events v) p'"
    by (simp add: f(1))
qed

lemma parses_scalar:
  assumes "safe v" and "case v of JArray _ \<Rightarrow> False | JObject _ \<Rightarrow> False | _ \<Rightarrow> True"
  shows "parses m v"
proof (rule parsesI)
  fix fuel rest and p :: "json_event list json_parser"
  assume p: "ptr p = render v @ rest" and r: "delimited rest"
  obtain c cs where c: "render v = c # cs" "\<not> isspace c" using render_first [OF assms(1)] by blast
  have f: "skip_whitespace p = (JSON_OK, p)" "ptr p = c # cs @ rest"
    using p c skip_whitespace_first [of p c] by simp_all
  let ?p1 = "p \<lparr> ptr := cs @ rest \<rparr>"
  have up: "parsed ?p1 rest es p' \<Longrightarrow> parsed p rest es p'" for es p' by (simp add: parsed_def)
  note first = get_value_first [OF f, of recorder m fuel]
  show "\<exists>p'. get_value recorder m (Suc fuel) p = Some (JSON_OK, p') \<and> parsed p rest (events v) p'"
  proof (cases v)
    case JNull
    then show ?thesis using literal_value [of ?p1 cs rest JSON_TYPE_NULL U_null] c up
      by (auto simp: first tolower_def)
  next
    case (JBool b)
    then show ?thesis using literal_value [of ?p1 cs rest JSON_TYPE_BOOLEAN "U_boolean b"] c up
      by (cases b) (auto simp: first tolower_def)
  next
    case (JInt x)
    then have "isdigit c \<or> c = CHR ''-''" using c i64tostr_chars [of x] by auto
    then have "get_value recorder m (Suc fuel) p = Some (get_number_value recorder p)"
      unfolding first by (auto simp: isdigit_def tolower_def)
    then show ?thesis using number_value [of p x rest] p r JInt by auto
  next
    case (JString s)
    then have "c = QUOTE" "cs = printed s @ [QUOTE]" "list_all safe_char s"
      using c assms(1) by (auto simp: print_string_safe)
    then show ?thesis using string_value [of s ?p1 rest] up JString by (auto simp: first tolower_def)
  qed (use assms(2) in simp_all)
qed

section \<open>Arrays and objects\<close>

declare get_array.simps(2) [simp del] get_members.simps(2) [simp del]

lemma parsed_set [simp]:
  "parsed (set_index i p) = parsed p" "parsed (set_size n p) = parsed p" "parsed (enter_name x p) = parsed p"
  "parsed (p \<lparr> ptr := t \<rparr>) = parsed p" "parsed (p \<lparr> mallocs := k \<rparr>) = parsed p"
  by (simp_all add: fun_eq_iff parsed_def set_index_def set_size_def enter_name_def split: prod.splits)

lemma set_fields [simp]:
  "ptr (set_index i p) = ptr p" "depth (set_index i p) = depth p" "ptr (set_size n p) = ptr p" "depth (set_size n p) = depth p"
  "ptr (enter_name x p) = ptr p" "depth (enter_name x p) = depth p"
  by (simp_all add: set_index_def set_size_def enter_name_def split: prod.splits)

lemma array_element:
  assumes "parses m v" and "safe v" and "ptr p = render v @ tail" and "delimited tail" and "depth p + nesting v \<le> 64"
    and "2 * len p + 1 \<le> fuel"
  shows "\<exists>p'. get_array recorder m (Suc fuel) i p = get_array recorder m fuel (i + 1) p' \<and> parsed p tail (events v) p'"
proof -
  obtain c cs where c: "render v = c # cs" "\<not> isspace c" "c \<noteq> CHR '',''" "c \<noteq> CHR '']''"
    using render_first [OF assms(2)] by blast
  then have "ptr p = c # cs @ tail" using assms(3) by simp
  moreover obtain p' where "get_value recorder m fuel (set_index i p) = Some (JSON_OK, p')" "parsed (set_index i p) tail (events v) p'"
    using assms by (elim parsesE [of m v "set_index i p" tail]) simp_all
  ultimately show ?thesis using c skip_whitespace_first [of p c] by (intro exI [of _ p']) (simp add: get_array.simps)
qed

lemma array_tail:
  assumes "\<forall>v \<in> set vs. parses m v \<and> safe v \<and> depth p + nesting v \<le> 64"
    and "ptr p = concat (map (\<lambda>v. CHR '','' # render v) vs) @ CHR '']'' # rest" and "2 * len p + 2 \<le> fuel"
  shows "\<exists>p'. get_array recorder m fuel i p = Some (JSON_OK, i + length vs, p') \<and> parsed p rest (concat (map events vs)) p'"
  using assms
proof (induction vs arbitrary: i p fuel)
  case Nil
  then obtain f where "fuel = Suc f" by (cases fuel) auto
  then show ?case using Nil skip_whitespace_first [of p "CHR '']''"] by (simp add: get_array.simps isspace_def parsed_def)
next
  case (Cons v vs)
  let ?tail = "concat (map (\<lambda>v. CHR '','' # render v) vs) @ CHR '']'' # rest"
  let ?q = "p \<lparr> ptr := render v @ ?tail \<rparr>"
  have p: "ptr p = CHR '','' # render v @ ?tail" using Cons.prems(2) by simp
  obtain f where f: "fuel = Suc (Suc f)" using Cons.prems(3) p by (cases fuel; cases "fuel - 1") auto
  have 1: "get_array recorder m fuel i p = get_array recorder m (Suc f) i ?q"
    using p skip_whitespace_first [of p "CHR '',''"] by (simp add: f get_array.simps(2) [of _ _ "Suc f"] isspace_def)
  have d: "delimited ?tail" by (cases vs) (auto simp: delimited_def is_number_char_def isdigit_def)
  obtain q where q: "get_array recorder m (Suc f) i ?q = get_array recorder m f (i + 1) q" "parsed ?q ?tail (events v) q"
    using array_element [of m v ?q ?tail f i] Cons.prems p d by (auto simp: f)
  then have "depth q = depth p" "ptr q = ?tail" by (simp_all add: parsed_def)
  then obtain p' where "get_array recorder m f (i + 1) q = Some (JSON_OK, i + 1 + length vs, p')" "parsed q rest (concat (map events vs)) p'"
    using Cons.IH [of q f "i + 1"] Cons.prems p by (auto simp: f)
  then show ?case using 1 q parsed_trans [of p ?tail "events v" q] by simp
qed

lemma array_elements:
  assumes "\<forall>v \<in> set vs. parses m v \<and> safe v \<and> depth p + nesting v \<le> 64"
    and "ptr p = commas (map render vs) @ CHR '']'' # rest" and "2 * len p + 2 \<le> fuel"
  shows "\<exists>p'. get_array recorder m fuel 0 p = Some (JSON_OK, length vs, p') \<and> parsed p rest (concat (map events vs)) p'"
proof (cases vs)
  case Nil
  then show ?thesis using array_tail [of vs m p rest fuel 0] assms by simp
next
  case (Cons v ws)
  let ?tail = "concat (map (\<lambda>v. CHR '','' # render v) ws) @ CHR '']'' # rest"
  have p: "ptr p = render v @ ?tail" using assms(2) by (simp add: Cons o_def)
  obtain f where f: "fuel = Suc f" using assms(3) by (cases fuel) auto
  have d: "delimited ?tail" by (cases ws) (auto simp: delimited_def is_number_char_def isdigit_def)
  obtain q where q: "get_array recorder m (Suc f) 0 p = get_array recorder m f 1 q" "parsed p ?tail (events v) q"
    using array_element [of m v p ?tail f 0] assms p d by (auto simp: f Cons)
  obtain c cs where "render v = c # cs" using render_first [of v] assms(1) Cons by auto
  then have l: "2 * length ?tail + 2 \<le> f" using assms(3) p by (simp add: f)
  have "depth q = depth p" "ptr q = ?tail" using q by (simp_all add: parsed_def)
  then have "\<exists>p'. get_array recorder m f 1 q = Some (JSON_OK, 1 + length ws, p') \<and> parsed q rest (concat (map events ws)) p'"
    using array_tail [of ws m q rest f 1] assms(1) l by (simp add: Cons)
  then show ?thesis using q parsed_trans [of p ?tail "events v" q] by (auto simp: f Cons)
qed

lemma array_value_parses:
  assumes m: "\<forall>n. m n" and vs: "\<forall>v \<in> set vs. parses m v \<and> safe v \<and> depth p + nesting v \<le> 64"
    and p: "ptr p = commas (map render vs) @ CHR '']'' # rest" and fuel: "2 * len p + 2 \<le> fuel"
  shows "\<exists>p'. array_value recorder m fuel p = Some (JSON_OK, p') \<and> parsed p rest (events (JArray vs)) p'"
proof -
  let ?p2 = "p \<lparr> mallocs := mallocs p + 1 \<rparr>" and ?n = "U_integer (of_nat (length vs))"
  obtain sc where 1: "get_array recorder m fuel 0 (?p2 \<lparr> scan := True \<rparr>) = Some (JSON_OK, length vs, sc)"
    using array_elements [of vs m "?p2 \<lparr> scan := True \<rparr>" rest fuel] vs p fuel by auto
  define p3 where "p3 = set_size (length vs) (?p2 \<lparr> mallocs := mallocs sc \<rparr>)"
  define p4 where "p4 = p3 \<lparr> callback_data := callback_data p3 @ (if scan p3 then [] else [(JSON_REASON_BEGIN_ARRAY, JSON_TYPE_INTEGER, ?n)]) \<rparr>"
  have p4: "parsed p (ptr p) [(JSON_REASON_BEGIN_ARRAY, JSON_TYPE_INTEGER, ?n)] p4"
    by (simp add: parsed_def p4_def p3_def set_size_def)
  then have "ptr p4 = ptr p" "depth p4 = depth p" by (simp_all add: parsed_def)
  then obtain p5 where 2: "get_array recorder m fuel 0 p4 = Some (JSON_OK, length vs, p5)" "parsed p4 rest (concat (map events vs)) p5"
    using array_elements [of vs m p4 rest fuel] vs p fuel by auto
  define p6 where "p6 = p5 \<lparr> callback_data := callback_data p5 @ (if scan p5 then [] else [(JSON_REASON_END_ARRAY, JSON_TYPE_INTEGER, ?n)]) \<rparr>"
  have p6: "parsed p5 rest [(JSON_REASON_END_ARRAY, JSON_TYPE_INTEGER, ?n)] p6" using 2(2) by (simp add: parsed_def p6_def)
  have "array_value recorder m fuel p = Some (JSON_OK, p6)"
    using m 1 2(1) by (simp add: array_value_def Let_def invoke_recorder p6_def p4_def p3_def)
  moreover have "parsed p rest (events (JArray vs)) p6"
    using parsed_trans [OF p4 parsed_trans [OF 2(2) p6]] by (simp add: Let_def)
  ultimately show ?thesis by blast
qed

lemma member_name_printed:
  assumes "list_all safe_char n" and "ptr p = printed n @ QUOTE # CHR '':'' # t"
  shows "\<exists>p'. member_name recorder p = (JSON_OK, p') \<and> parsed p t [(JSON_REASON_NAME, JSON_TYPE_STRING, U_string n)] p'"
proof -
  obtain y where y: "get_string p = (JSON_OK, y, p \<lparr> ptr := CHR '':'' # t \<rparr>)" "scan p \<or> y = n"
    using get_string_printed [OF assms] by blast
  define p1 where "p1 = enter_name y (p \<lparr> ptr := CHR '':'' # t \<rparr>)"
  define p2 where "p2 = p1 \<lparr> callback_data := callback_data p1 @ (if scan p1 then [] else [(JSON_REASON_NAME, JSON_TYPE_STRING, U_string y)]) \<rparr>"
  have p2: "ptr p2 = CHR '':'' # t" by (simp add: p2_def p1_def)
  then have "member_name recorder p = (JSON_OK, p2 \<lparr> ptr := t \<rparr>)"
    using skip_whitespace_first [OF p2] by (simp add: member_name_def y(1) invoke_recorder isspace_def flip: p1_def p2_def)
  moreover have "parsed p t [(JSON_REASON_NAME, JSON_TYPE_STRING, U_string n)] (p2 \<lparr> ptr := t \<rparr>)"
    using y(2) by (auto simp: parsed_def p2_def p1_def enter_name_def split: prod.splits)
  ultimately show ?thesis by blast
qed

abbreviation member_events :: "string \<times> json \<Rightarrow> json_event list" where
  "member_events \<equiv> \<lambda>(n, v). (JSON_REASON_NAME, JSON_TYPE_STRING, U_string n) # events v"

abbreviation member_text :: "string \<times> json \<Rightarrow> string" where
  "member_text \<equiv> \<lambda>(n, v). print_string n @ '':'' @ render v"

lemma member_element:
  assumes "parses m v" and "list_all safe_char n" and "ptr p = member_text (n, v) @ tail" and "delimited tail"
    and "depth p + nesting v \<le> 64" and "2 * len p + 1 \<le> fuel"
  shows "\<exists>p'. get_members recorder m (Suc fuel) p = get_members recorder m fuel p' \<and> parsed p tail (member_events (n, v)) p'"
proof -
  let ?t = "printed n @ QUOTE # CHR '':'' # render v @ tail"
  have p: "ptr p = QUOTE # ?t" using assms(2,3) by (simp add: print_string_safe)
  obtain p1 where 1: "member_name recorder (p \<lparr> ptr := ?t \<rparr>) = (JSON_OK, p1)"
      "parsed p (render v @ tail) [(JSON_REASON_NAME, JSON_TYPE_STRING, U_string n)] p1"
    using member_name_printed [OF assms(2), of "p \<lparr> ptr := ?t \<rparr>" "render v @ tail"] by auto
  have "ptr p1 = render v @ tail" "depth p1 + nesting v \<le> 64" "2 * len p1 + 1 \<le> fuel"
    using 1(2) assms(5,6) p by (simp_all add: parsed_def)
  then obtain p2 where 2: "get_value recorder m fuel p1 = Some (JSON_OK, p2)" "parsed p1 tail (events v) p2"
    by (rule parsesE [OF assms(1) _ assms(4)])
  have "get_members recorder m (Suc fuel) p = get_members recorder m fuel p2"
    using skip_whitespace_first [OF p] by (simp add: get_members.simps isspace_def p 1(1) 2(1))
  then show ?thesis using parsed_trans [OF 1(2) 2(2)] by auto
qed

lemma delimited_tail: "delimited (concat (map ((#) CHR '','') xs) @ CHR '']'' # rest)" "delimited (concat (map ((#) CHR '','') xs) @ CHR ''}'' # rest)"
  by (cases xs; auto simp: delimited_def is_number_char_def isdigit_def)+

lemma members_tail:
  assumes "\<forall>(n, v) \<in> set ms. parses m v \<and> list_all safe_char n \<and> depth p + nesting v \<le> 64"
    and "ptr p = concat (map ((#) CHR '','') (map member_text ms)) @ CHR ''}'' # rest" and "2 * len p + 2 \<le> fuel"
  shows "\<exists>p'. get_members recorder m fuel p = Some (JSON_OK, p') \<and> parsed p rest (concat (map member_events ms)) p'"
  using assms
proof (induction ms arbitrary: p fuel)
  case Nil
  then obtain f where "fuel = Suc f" by (cases fuel) auto
  then show ?case using Nil skip_whitespace_first [of p "CHR ''}''"] by (simp add: get_members.simps isspace_def parsed_def)
next
  case (Cons nv ms)
  obtain n v where nv: "nv = (n, v)" by fastforce
  let ?tail = "concat (map ((#) CHR '','') (map member_text ms)) @ CHR ''}'' # rest"
  let ?q = "p \<lparr> ptr := member_text (n, v) @ ?tail \<rparr>"
  have p: "ptr p = CHR '','' # member_text (n, v) @ ?tail" using Cons.prems(2) by (simp add: nv)
  obtain f where f: "fuel = Suc (Suc f)" using Cons.prems(3) p by (cases fuel; cases "fuel - 1") auto
  have 1: "get_members recorder m fuel p = get_members recorder m (Suc f) ?q"
    using p skip_whitespace_first [of p "CHR '',''"] by (simp add: f get_members.simps(2) [of _ _ "Suc f"] isspace_def)
  obtain q where q: "get_members recorder m (Suc f) ?q = get_members recorder m f q" "parsed p ?tail (member_events (n, v)) q"
    using member_element [of m v n ?q ?tail f] Cons.prems(1,3) p delimited_tail(2) by (auto simp: f nv simp del: map_map)
  then have "depth q = depth p" "ptr q = ?tail" by (simp_all add: parsed_def)
  then obtain p' where "get_members recorder m f q = Some (JSON_OK, p')" "parsed q rest (concat (map member_events ms)) p'"
    using Cons.IH [of q f] Cons.prems(1,3) p by (auto simp: f)
  then show ?case using 1 q parsed_trans [of p ?tail "member_events (n, v)" q] by (auto simp: nv)
qed

lemma members_elements:
  assumes "\<forall>(n, v) \<in> set ms. parses m v \<and> list_all safe_char n \<and> depth p + nesting v \<le> 64"
    and "ptr p = commas (map member_text ms) @ CHR ''}'' # rest" and "2 * len p + 2 \<le> fuel"
  shows "\<exists>p'. get_members recorder m fuel p = Some (JSON_OK, p') \<and> parsed p rest (concat (map member_events ms)) p'"
proof (cases ms)
  case Nil
  then show ?thesis using members_tail [of ms m p rest fuel] assms by simp
next
  case (Cons nv ns)
  obtain n v where nv: "nv = (n, v)" by fastforce
  let ?tail = "concat (map ((#) CHR '','') (map member_text ns)) @ CHR ''}'' # rest"
  have p: "ptr p = member_text (n, v) @ ?tail" using assms(2) by (simp add: Cons nv)
  obtain f where f: "fuel = Suc f" using assms(3) by (cases fuel) auto
  obtain q where q: "get_members recorder m (Suc f) p = get_members recorder m f q" "parsed p ?tail (member_events (n, v)) q"
    using member_element [of m v n p ?tail f] assms(1,3) p delimited_tail(2) by (auto simp: f Cons nv simp del: map_map)
  have "2 * length ?tail + 2 \<le> f" "depth q = depth p" "ptr q = ?tail"
    using assms(3) p q by (simp_all add: f parsed_def)
  then obtain p' where "get_members recorder m f q = Some (JSON_OK, p')" "parsed q rest (concat (map member_events ns)) p'"
    using members_tail [of ns m q rest f] assms(1) by (auto simp: Cons)
  then show ?thesis using q parsed_trans [of p ?tail "member_events (n, v)" q] by (auto simp: f Cons nv)
qed

lemma object_parses:
  assumes ms: "\<forall>(n, v) \<in> set ms. parses m v \<and> list_all safe_char n \<and> depth p + 1 + nesting v \<le> 64" and d: "depth p < 64"
    and p: "ptr p = commas (map member_text ms) @ CHR ''}'' # rest" and fuel: "2 * len p + 2 \<le> fuel"
  shows "\<exists>p'. get_object recorder m fuel p = Some (JSON_OK, p') \<and> parsed p rest (events (JObject ms)) p'"
proof -
  define p1 where "p1 = p \<lparr> callback_data := callback_data p @ (if scan p then [] else [(JSON_REASON_BEGIN_OBJECT, JSON_TYPE_NULL, U_null)]), depth := depth p + 1 \<rparr>"
  have b: "object_begin recorder p = (JSON_OK, p1)" using d by (simp add: object_begin_def invoke_recorder p1_def)
  have "ptr p1 = ptr p" "depth p1 = depth p + 1" by (simp_all add: p1_def)
  then obtain p2 where 2: "get_members recorder m fuel p1 = Some (JSON_OK, p2)" "parsed p1 rest (concat (map member_events ms)) p2"
    using members_elements [of ms m p1 rest fuel] ms p fuel by auto
  define p3 where "p3 = p2 \<lparr> callback_data := callback_data p2 @ (if scan p2 then [] else [(JSON_REASON_END_OBJECT, JSON_TYPE_NULL, U_null)]), depth := depth p2 - 1 \<rparr>"
  have e: "object_end recorder p2 = (JSON_OK, p3)"
    using 2(2) by (simp add: object_end_def invoke_recorder p3_def parsed_def p1_def)
  have "parsed p rest (events (JObject ms)) p3" using 2(2) by (auto simp: parsed_def p1_def p3_def)
  then show ?thesis using b 2(1) e by (simp add: get_object_def)
qed

lemma foldr_max_ge: "x \<in> set xs \<Longrightarrow> x \<le> foldr max xs (0::nat)"
  by (induction xs) (auto simp: le_max_iff_disj)

lemma safe_parses:
  assumes "\<forall>n. m n"
  shows "safe v \<Longrightarrow> parses m v"
proof (induction v)
  case (JArray vs)
  show ?case
  proof (rule parsesI)
    fix fuel rest and p :: "json_event list json_parser"
    assume p: "ptr p = render (JArray vs) @ rest" and d: "depth p + nesting (JArray vs) \<le> 64" and fuel: "2 * len p \<le> fuel"
    let ?p1 = "p \<lparr> ptr := commas (map render vs) @ CHR '']'' # rest \<rparr>"
    have p': "ptr p = CHR ''['' # commas (map render vs) @ CHR '']'' # rest" using p by simp
    have "depth p + nesting v \<le> 64" if "v \<in> set vs" for v using that foldr_max_ge [of "nesting v" "map nesting vs"] d by simp
    then have "\<forall>v \<in> set vs. parses m v \<and> safe v \<and> depth ?p1 + nesting v \<le> 64" using JArray by (auto simp: list_all_iff)
    then obtain p2 where "array_value recorder m fuel ?p1 = Some (JSON_OK, p2)" "parsed ?p1 rest (events (JArray vs)) p2"
      using array_value_parses [of m vs ?p1 rest fuel] assms fuel p' by auto
    then show "\<exists>p'. get_value recorder m (Suc fuel) p = Some (JSON_OK, p') \<and> parsed p rest (events (JArray vs)) p'"
      using get_value_first [OF skip_whitespace_first [OF p'] p', of recorder m fuel] by (simp add: isspace_def tolower_def)
  qed
next
  case (JObject ms)
  show ?case
  proof (rule parsesI)
    fix fuel rest and p :: "json_event list json_parser"
    assume p: "ptr p = render (JObject ms) @ rest" and d: "depth p + nesting (JObject ms) \<le> 64" and fuel: "2 * len p \<le> fuel"
    let ?p1 = "p \<lparr> ptr := commas (map member_text ms) @ CHR ''}'' # rest \<rparr>"
    have p': "ptr p = CHR ''{'' # commas (map member_text ms) @ CHR ''}'' # rest" using p by simp
    have "depth p + 1 + nesting v \<le> 64" if "(n, v) \<in> set ms" for n v
      using that foldr_max_ge [of "nesting v" "map (\<lambda>(n, v). nesting v) ms"] d by force
    then have "\<forall>(n, v) \<in> set ms. parses m v \<and> list_all safe_char n \<and> depth ?p1 + 1 + nesting v \<le> 64"
      using JObject by (fastforce simp: list_all_iff)
    then obtain p2 where "get_object recorder m fuel ?p1 = Some (JSON_OK, p2)" "parsed ?p1 rest (events (JObject ms)) p2"
      using object_parses [of ms m ?p1 rest fuel] d fuel p' by auto
    then show "\<exists>p'. get_value recorder m (Suc fuel) p = Some (JSON_OK, p') \<and> parsed p rest (events (JObject ms)) p'"
      using get_value_first [OF skip_whitespace_first [OF p'] p', of recorder m fuel] by (simp add: isspace_def tolower_def)
  qed
qed (simp_all add: parses_scalar)

section \<open>Properties of parsing and printing\<close>


definition example_document :: "(string \<times> json) list" where
  "example_document = [(''a'', JArray [JInt 1, JBool True, JObject [(''/'', JNull)]]), (''b'', JString ''x'')]"


lemma unescape_print_char_unsafe:
  assumes "\<not> safe_char c" and "c \<noteq> NUL"
  shows "unescape (print_char c @ t) = (JSON_BAD_SYNTAX, [])"
proof (cases c rule: print_char_cases)
  case hex
  then have "10 \<le> code c div 16 \<or> 10 \<le> code c mod 16" using assms by (auto simp: safe_char_def)
  then have "hex_str4_to_u32 CHR ''0'' CHR ''0'' (hex_char (code c div 16)) (hex_char (code c mod 16)) = None"
    using hex_char_letter code_nibbles(1,2) [of c] by (auto simp: hex_str4_to_u32_def)
  then show ?thesis using hex by (simp add: byte_to_hex_string_def)
qed (use assms in \<open>simp_all add: safe_char_def\<close>)

lemma unescape_printed_unsafe:
  "NUL \<notin> set s \<Longrightarrow> \<not> list_all safe_char s \<Longrightarrow> fst (unescape (printed s)) = JSON_BAD_SYNTAX"
proof (induction s)
  case (Cons c s)
  then show ?case by (cases "safe_char c") (auto simp: unescape_print_char unescape_print_char_unsafe)
qed simp

lemma unsafe_escaped: "NUL \<notin> set s \<Longrightarrow> \<not> list_all safe_char s \<Longrightarrow> list_ex (\<lambda>c. print_char c \<noteq> [c]) s"
proof -
  assume "NUL \<notin> set s" "\<not> list_all safe_char s"
  then obtain c where "c \<in> set s" "\<not> length (print_char c) \<le> 2" by (auto simp: list_all_iff safe_char_def)
  moreover from this have "print_char c \<noteq> [c]" by auto
  ultimately show ?thesis by (auto simp: list_ex_iff)
qed

text \<open>
  C25: which printed strings are read back. A string whose characters are printable, have a short escape or
  have only decimal digits in their hexadecimal code is read back unchanged; a string with any other
  character is printed as text that the parser refuses with \<open>JSON_BAD_SYNTAX\<close>, since the printer writes
  capital hexadecimal digits and \<open>_char_to_nibble\<close> does not know them.
\<close>

theorem print_string_roundtrip:
  assumes "NUL \<notin> set s" and "ptr p = tl (print_string s) @ rest" and "\<not> scan p"
  shows "if list_all safe_char s then get_string p = (JSON_OK, s, p \<lparr> ptr := rest \<rparr>)
    else fst (get_string p) = JSON_BAD_SYNTAX"
proof -
  have p: "ptr p = printed s @ QUOTE # rest" using assms(1,2) by (simp add: print_string_def c_string_no_NUL)
  show ?thesis
  proof (cases "list_all safe_char s")
    case True
    then show ?thesis using get_string_printed [OF True p] assms(3) by auto
  next
    case False
    then have "list_ex (\<lambda>c. print_char c \<noteq> [c]) s" "fst (unescape (printed s)) = JSON_BAD_SYNTAX"
      using assms(1) unsafe_escaped unescape_printed_unsafe by blast+
    then show ?thesis using False assms(3) by (auto simp: get_string_def p find_quote_printed Let_def split: prod.splits)
  qed
qed

theorem print_string_roundtrip_witness:
  "fst (get_string \<lparr> ptr = tl (print_string [CHR ''a'', CHR 0x1F]), scan = False, path = [], depth = 0,
      allow_whitespace = False, mallocs = 0, callback_data = () \<rparr>) = JSON_BAD_SYNTAX"
  using print_string_roundtrip [of "[CHR ''a'', CHR 0x1F]" "\<lparr> ptr = tl (print_string [CHR ''a'', CHR 0x1F]), scan = False, path = [], depth = 0,
      allow_whitespace = False, mallocs = 0, callback_data = () \<rparr>" "[]"]
  by (simp add: safe_char_def print_char_def isprint_def isdigit_def islower_def isupper_def byte_to_hex_string_def)

text \<open>A consequence of \<open>_tolower\<close> subtracting: the capital B opens a string like a quotation mark.\<close>

lemma capital_B_is_quote:
  "get_value cb m (Suc fuel) (p \<lparr> ptr := CHR ''B'' # t \<rparr>) = get_value cb m (Suc fuel) (p \<lparr> ptr := QUOTE # t \<rparr>)"
  using get_value_first [OF skip_whitespace_first, of "p \<lparr> ptr := CHR ''B'' # t \<rparr>" "CHR ''B''" t "CHR ''B''" t cb m fuel]
    get_value_first [OF skip_whitespace_first, of "p \<lparr> ptr := QUOTE # t \<rparr>" QUOTE t QUOTE t cb m fuel]
  by (simp add: tolower_def isspace_def)

end
