(* ===== verification/Vic_Base.thy ===== *)
theory Vic_Base
  imports Prelude
begin

text \<open>
  What the sources of \<^verbatim>\<open>src/src/vicsetup/libvicsetup\<close> share: the result codes of \<^verbatim>\<open>vic.h\<close>, the
  conventions for returning them (\<^verbatim>\<open>raise.h\<close>, \<^verbatim>\<open>goto.h\<close>), the byte order of \<^verbatim>\<open>byteorder.h\<close>, the
  rounding of \<^verbatim>\<open>round.h\<close> and C strings as arrays of bytes.

  A routine is a function from a state to an outcome and a state. The outcome is \<open>Done\<close> with the
  values the routine stores through its out parameters, \<open>Failed\<close> with the result code (or \<open>()\<close> where
  the source returns -1), \<open>Fault\<close> where the source accesses memory outside an object, \<open>Abort\<close> where
  it calls \<^verbatim>\<open>abort\<close>, and \<open>Diverge\<close> where its loop does not end. The state is returned in all cases,
  because a routine that fails may have written to the device.
\<close>

unbundle bit_operations_syntax

section \<open>Outcomes\<close>

datatype ('e, 'a) outcome = Done 'a | Failed 'e | Fault | Abort | Diverge

type_synonym ('s, 'e, 'a) action = "'s \<Rightarrow> ('e, 'a) outcome \<times> 's"

definition give :: "'a \<Rightarrow> ('s, 'e, 'a) action" where
  "give x s = (Done x, s)"

definition raise :: "'e \<Rightarrow> ('s, 'e, 'a) action" where
  "raise e s = (Failed e, s)"

definition fault :: "('s, 'e, 'a) action" where
  "fault s = (Fault, s)"

text \<open>One call after the other: \<^verbatim>\<open>CHECK(m)\<close> leaves the routine unless \<open>m\<close> is done.\<close>

definition bnd :: "('s, 'e, 'a) action \<Rightarrow> ('a \<Rightarrow> ('s, 'e, 'b) action) \<Rightarrow> ('s, 'e, 'b) action" where
  "bnd m f s =
     (case m s of (Done x, t) \<Rightarrow> f x t | (Failed e, t) \<Rightarrow> (Failed e, t) | (Fault, t) \<Rightarrow> (Fault, t)
        | (Abort, t) \<Rightarrow> (Abort, t) | (Diverge, t) \<Rightarrow> (Diverge, t))"

text \<open>\<^verbatim>\<open>if (m != 0) RAISE(e)\<close>, whatever code \<open>m\<close> returned.\<close>

definition or_raise :: "'e \<Rightarrow> ('s, 'd, 'a) action \<Rightarrow> ('s, 'e, 'a) action" where
  "or_raise e m s =
     (case m s of (Done x, t) \<Rightarrow> (Done x, t) | (Failed _, t) \<Rightarrow> (Failed e, t) | (Fault, t) \<Rightarrow> (Fault, t)
        | (Abort, t) \<Rightarrow> (Abort, t) | (Diverge, t) \<Rightarrow> (Diverge, t))"

text \<open>\<^verbatim>\<open>if (b) RAISE(e)\<close>.\<close>

definition raise_if :: "bool \<Rightarrow> 'e \<Rightarrow> ('s, 'e, unit) action" where
  "raise_if b e = (if b then raise e else give ())"

lemma action_simps [simp]:
  "give x s = (Done x, s)" "raise e s = (Failed e, s)" "fault s = (Fault, s)"
  "m s = (Done x, t) \<Longrightarrow> bnd m f s = f x t"
  "m s = (Failed e, t) \<Longrightarrow> bnd m f s = (Failed e, t)"
  "m s = (Fault, t) \<Longrightarrow> bnd m f s = (Fault, t)"
  "m s = (Abort, t) \<Longrightarrow> bnd m f s = (Abort, t)"
  "m' s = (Done x, t) \<Longrightarrow> or_raise c m' s = (Done x, t)"
  "m' s = (Failed d, t) \<Longrightarrow> or_raise c m' s = (Failed c, t)"
  "m' s = (Fault, t) \<Longrightarrow> or_raise c m' s = (Fault, t)"
  "raise_if False e = give ()" "raise_if True e = raise e"
  by (simp_all add: give_def raise_def fault_def bnd_def or_raise_def raise_if_def)

lemma bnd_give [simp]: "bnd (give x) f = f x"
  by (rule ext) simp

lemma bnd_raise [simp]: "bnd (raise e) f = raise e"
  by (rule ext) simp

lemma bnd_Done: "bnd m f s = (Done y, t) \<longleftrightarrow> (\<exists>x u. m s = (Done x, u) \<and> f x u = (Done y, t))"
  by (auto simp: bnd_def split: prod.splits outcome.splits)

lemma or_raise_Done: "or_raise e m s = (Done y, t) \<longleftrightarrow> m s = (Done y, t)"
  by (auto simp: or_raise_def split: prod.splits outcome.splits)

lemma raise_if_Done: "raise_if b e s = (Done y, t) \<longleftrightarrow> \<not> b \<and> t = s"
  by (auto simp: raise_if_def)

lemmas action_Done = bnd_Done or_raise_Done raise_if_Done

text \<open>A predicate on states that every call keeps is kept by their sequence.\<close>

definition keeps :: "('s \<Rightarrow> bool) \<Rightarrow> ('s, 'e, 'a) action \<Rightarrow> bool" where
  "keeps P m = (\<forall>s. P s \<longrightarrow> P (snd (m s)))"

lemma keeps_give [intro]: "keeps P (give x)" and keeps_raise [intro]: "keeps P (raise e)"
  and keeps_fault [intro]: "keeps P fault" and keeps_raise_if [intro]: "keeps P (raise_if b e)"
  by (simp_all add: keeps_def raise_if_def)

lemma keeps_bnd [intro]: "keeps P m \<Longrightarrow> (\<And>x. keeps P (f x)) \<Longrightarrow> keeps P (bnd m f)"
  by (fastforce simp: keeps_def bnd_def split: prod.splits outcome.splits)

lemma keeps_or_raise [intro]: "keeps P m \<Longrightarrow> keeps P (or_raise e m)"
  by (fastforce simp: keeps_def or_raise_def split: prod.splits outcome.splits)

section \<open>Result codes\<close>

datatype vic_result =
    VIC_OK | VIC_FAILED | VIC_BAD_VERSION | VIC_UNEXPECTED | VIC_BAD_PARAMETER | VIC_BAD_DEVICE
  | VIC_OUT_OF_MEMORY | VIC_NOT_FOUND | VIC_OUT_OF_BOUNDS | VIC_KEY_TOO_BIG
  | VIC_DEVICE_COUNT_FAILED | VIC_DEVICE_GET_FAILED | VIC_DEVICE_PUT_FAILED | VIC_DEVICE_TOO_SMALL
  | VIC_HEADER_READ_FAILED | VIC_KEY_MATERIAL_READ_FAILED | VIC_HEADER_WRITE_FAILED
  | VIC_KEY_MATERIAL_WRITE_FAILED | VIC_KEY_LOOKUP_FAILED | VIC_PBKDF2_FAILED | VIC_ENCRYPT_FAILED
  | VIC_DECRYPT_FAILED | VIC_AFMERGE_FAILED | VIC_AFSPLIT_FAILED | VIC_EOF | VIC_UNSUPPORTED
  | VIC_BUFFER_TOO_SMALL | VIC_UNKNOWN_KEYSLOT_TYPE | VIC_UNKNOWN_KDF_TYPE | VIC_DIGEST_NOT_FOUND
  | VIC_ARGON2I_FAILED | VIC_ARGON2ID_FAILED | VIC_UNSUPPORTED_DIGEST_TYPE | VIC_NUM_CPUS_FAILED
  | VIC_OUT_OF_KEYSLOTS | VIC_BAD_UUID | VIC_LAST_KEYSLOT | VIC_UNSUPPORTED_INTEGRITY_JOURNALING
  | VIC_DEVICE_OPEN_FAILED | VIC_PATH_TOO_LONG | VIC_FAILED_TO_GET_LOOP_DEVICE
  | VIC_UNSUPPORTED_CIPHER | VIC_READ_FAILED | VIC_WRITE_FAILED | VIC_STAT_FAILED
  | VIC_NOT_BLOCK_MULTIPLE | VIC_FILE_TOO_SMALL | VIC_OPEN_FAILED | VIC_CLOSE_FAILED
  | VIC_SEEK_FAILED | VIC_IOCTL_FAILED | VIC_BAD_SIGNATURE | VIC_BAD_CIPHER | VIC_BAD_BLOCK_DEVICE
  | VIC_BAD_BLOCK_SIZE | VIC_BAD_FLAGS | VIC_BAD_PBKDF_TYPE | VIC_BAD_INTEGRITY_TYPE

section \<open>Byte order\<close>

text \<open>The bytes of an integer in memory on the only architecture the source accepts, x86-64.\<close>

definition le_bytes :: "nat \<Rightarrow> 'a::len word \<Rightarrow> u8 list" where
  "le_bytes n w = map (\<lambda>i. ucast (drop_bit (8 * i) w)) [0..<n]"

definition of_le_bytes :: "u8 list \<Rightarrow> 'a::len word" where
  "of_le_bytes bs = foldr (\<lambda>b acc. ucast b OR push_bit 8 acc) bs 0"

definition vic_swap_u32 :: "u32 \<Rightarrow> u32" where
  "vic_swap_u32 x =
     push_bit 24 (x AND 0x000000FF) OR push_bit 8 (x AND 0x0000FF00) OR
     drop_bit 8 (x AND 0x00FF0000) OR drop_bit 24 (x AND 0xFF000000)"

definition vic_swap_u64 :: "u64 \<Rightarrow> u64" where
  "vic_swap_u64 x =
     push_bit 56 (x AND 0xFF) OR push_bit 40 (x AND 0xFF00) OR
     push_bit 24 (x AND 0xFF0000) OR push_bit 8 (x AND 0xFF000000) OR
     drop_bit 8 (x AND 0xFF00000000) OR drop_bit 24 (x AND 0xFF0000000000) OR
     drop_bit 40 (x AND 0xFF000000000000) OR drop_bit 56 (x AND 0xFF00000000000000)"

definition vic_swap_u16 :: "u16 \<Rightarrow> u16" where
  "vic_swap_u16 x = push_bit 8 (x AND 0x00FF) OR drop_bit 8 (x AND 0xFF00)"

definition vic_round_up :: "u64 \<Rightarrow> u64 \<Rightarrow> u64" where
  "vic_round_up x m = (x + m - 1) div m * m"

lemma unat_ucast_up: "unat (ucast (x :: u32) :: u64) = unat x"
  by (simp add: unsigned_ucast_eq take_bit_nat_eq_self_iff order_less_le_trans [OF unsigned_less])

lemma unat_u32: "unat (x :: u32) < 2 ^ 32"
  by (rule order_less_le_trans [OF unsigned_less]) simp

lemma length_le_bytes [simp]: "length (le_bytes n w) = n"
  by (simp add: le_bytes_def)

lemma of_le_bytes_range:
  "foldr (\<lambda>b acc. ucast b OR push_bit 8 acc) (map (\<lambda>i. ucast (drop_bit (8 * i) (w :: 'a::len word)) :: u8) [k..<k + n]) 0
     = take_bit (8 * n) (drop_bit (8 * k) w)"
proof (induction n arbitrary: k)
  case (Suc n)
  have "[k..<k + Suc n] = k # [Suc k..<Suc k + n]" by (simp add: upt_conv_Cons del: upt_Suc)
  then have "foldr (\<lambda>b acc. ucast b OR push_bit 8 acc) (map (\<lambda>i. ucast (drop_bit (8 * i) w) :: u8) [k..<k + Suc n]) 0
      = (ucast (ucast (drop_bit (8 * k) w) :: u8) OR push_bit 8 (take_bit (8 * n) (drop_bit (8 * Suc k) w)) :: 'a word)"
    by (simp only: list.map foldr.simps o_apply Suc.IH)
  also have "\<dots> = take_bit (8 * Suc n) (drop_bit (8 * k) w)"
    by (rule bit_word_eqI) (auto simp: bit_simps)
  finally show ?case .
qed simp

lemma of_le_bytes_le_bytes [simp]: "LENGTH('a::len) = 8 * n \<Longrightarrow> of_le_bytes (le_bytes n w) = (w :: 'a word)"
  using of_le_bytes_range [of w 0 n] by (simp add: of_le_bytes_def le_bytes_def take_bit_word_eq_self)

lemma vic_swap_u32_bit:
  "bit (vic_swap_u32 x) i \<longleftrightarrow> i < 32 \<and> bit x (24 - 8 * (i div 8) + i mod 8)"
proof -
  have "list_all (\<lambda>i. bit (vic_swap_u32 x) i \<longleftrightarrow> bit x (24 - 8 * (i div 8) + i mod 8)) [0..<32]"
    by (simp add: vic_swap_u32_def bit_simps upt_rec [of _ "numeral _"]) (simp add: numeral_eq_Suc)
  then show ?thesis
    by (cases "i < 32") (auto simp: list_all_iff dest: bit_imp_le_length)
qed

lemma vic_swap_u32_involution [simp]: "vic_swap_u32 (vic_swap_u32 x) = x"
proof (rule bit_word_eqI)
  fix n assume n: "n < LENGTH(32)"
  have "list_all (\<lambda>n. let m = 24 - 8 * (n div 8) + n mod 8 in m < 32 \<and> 24 - 8 * (m div 8) + m mod 8 = n) [0..<32]"
    by code_simp
  with n show "bit (vic_swap_u32 (vic_swap_u32 x)) n = bit x n"
    by (simp only: vic_swap_u32_bit) (simp add: list_all_iff Let_def)
qed

lemma vic_swap_u16_bit:
  "bit (vic_swap_u16 x) i \<longleftrightarrow> i < 16 \<and> bit x (8 - 8 * (i div 8) + i mod 8)"
proof -
  have "list_all (\<lambda>i. bit (vic_swap_u16 x) i \<longleftrightarrow> bit x (8 - 8 * (i div 8) + i mod 8)) [0..<16]"
    by (simp add: vic_swap_u16_def bit_simps upt_rec [of _ "numeral _"]) (simp add: numeral_eq_Suc)
  then show ?thesis
    by (cases "i < 16") (auto simp: list_all_iff dest: bit_imp_le_length)
qed

lemma vic_swap_u16_involution [simp]: "vic_swap_u16 (vic_swap_u16 x) = x"
proof (rule bit_word_eqI)
  fix n assume n: "n < LENGTH(16)"
  have "list_all (\<lambda>n. let m = 8 - 8 * (n div 8) + n mod 8 in m < 16 \<and> 8 - 8 * (m div 8) + m mod 8 = n) [0..<16]"
    by code_simp
  with n show "bit (vic_swap_u16 (vic_swap_u16 x)) n = bit x n"
    by (simp only: vic_swap_u16_bit) (simp add: list_all_iff Let_def)
qed

end
