(* ===== verification/Vic_Blockdev.thy ===== *)
theory Vic_Blockdev
  imports Vic_Base
begin

text \<open>
  Block devices, \<^verbatim>\<open>src/src/vicsetup/libvicsetup/blockdev.c\<close> and the interface in \<^verbatim>\<open>include/vic.h\<close>. The
  interface is a table of functions, the record \<open>vic_blockdev\<close>; a null pointer to it is \<open>None\<close>. The
  implementation keeps an open file, modelled as a position in a node of a file system with what the
  source uses of \<^verbatim>\<open>open\<close>, \<^verbatim>\<open>lseek\<close>, \<^verbatim>\<open>read\<close>, \<^verbatim>\<open>write\<close>, \<^verbatim>\<open>fstat\<close> and \<^verbatim>\<open>ioctl\<close>. Sizes and offsets are
  64-bit words, and \<^verbatim>\<open>off_t\<close> is read signed. The locale \<open>block_device\<close> is the contract the users of
  a device rely on; the functions of \<^verbatim>\<open>blockdev.c\<close> implement it.
\<close>

section \<open>The interface\<close>

record 's vic_blockdev =
  bd_partial_close :: "('s, vic_result, unit) action"
  bd_reopen :: "('s, vic_result, unit) action"
  bd_set_size :: "u64 \<Rightarrow> ('s, vic_result, unit) action"
  bd_set_offset :: "u64 \<Rightarrow> ('s, vic_result, unit) action"
  bd_get_offset :: "('s, vic_result, u64) action"
  bd_get_path :: "('s, vic_result, string) action"
  bd_get_block_size :: "('s, vic_result, u64) action"
  bd_set_block_size :: "u64 \<Rightarrow> ('s, vic_result, unit) action"
  bd_get_size :: "('s, vic_result, u64) action"
  bd_get_num_blocks :: "('s, vic_result, u64) action"
  bd_get :: "u64 \<Rightarrow> u64 \<Rightarrow> ('s, vic_result, u8 list) action"
  bd_put :: "u64 \<Rightarrow> u8 list \<Rightarrow> u64 \<Rightarrow> ('s, vic_result, unit) action"
  bd_close :: "('s, vic_result, unit) action"

text \<open>\<^verbatim>\<open>if (!bd) RAISE(VIC_BAD_PARAMETER); CHECK(bd->f(bd, ...))\<close>.\<close>

definition with_bd :: "('s vic_blockdev \<Rightarrow> ('s, vic_result, 'a) action) \<Rightarrow> 's vic_blockdev option \<Rightarrow> ('s, vic_result, 'a) action" where
  "with_bd f bd = (case bd of None \<Rightarrow> raise VIC_BAD_PARAMETER | Some b \<Rightarrow> f b)"

definition vic_blockdev_get_path :: "'s vic_blockdev option \<Rightarrow> ('s, vic_result, string) action" where
  "vic_blockdev_get_path = with_bd bd_get_path"

definition vic_blockdev_get_block_size :: "'s vic_blockdev option \<Rightarrow> ('s, vic_result, u64) action" where
  "vic_blockdev_get_block_size = with_bd bd_get_block_size"

definition vic_blockdev_set_block_size :: "'s vic_blockdev option \<Rightarrow> u64 \<Rightarrow> ('s, vic_result, unit) action" where
  "vic_blockdev_set_block_size bd n = with_bd (\<lambda>b. bd_set_block_size b n) bd"

definition vic_blockdev_get_size :: "'s vic_blockdev option \<Rightarrow> ('s, vic_result, u64) action" where
  "vic_blockdev_get_size = with_bd bd_get_size"

definition vic_blockdev_get_num_blocks :: "'s vic_blockdev option \<Rightarrow> ('s, vic_result, u64) action" where
  "vic_blockdev_get_num_blocks = with_bd bd_get_num_blocks"

definition vic_blockdev_get :: "'s vic_blockdev option \<Rightarrow> u64 \<Rightarrow> u64 \<Rightarrow> ('s, vic_result, u8 list) action" where
  "vic_blockdev_get bd blkno nblocks = with_bd (\<lambda>b. bd_get b blkno nblocks) bd"

definition vic_blockdev_put :: "'s vic_blockdev option \<Rightarrow> u64 \<Rightarrow> u8 list \<Rightarrow> u64 \<Rightarrow> ('s, vic_result, unit) action" where
  "vic_blockdev_put bd blkno blocks nblocks = with_bd (\<lambda>b. bd_put b blkno blocks nblocks) bd"

definition vic_blockdev_close :: "'s vic_blockdev option \<Rightarrow> ('s, vic_result, unit) action" where
  "vic_blockdev_close = with_bd bd_close"

definition vic_blockdev_set_offset :: "'s vic_blockdev option \<Rightarrow> u64 \<Rightarrow> ('s, vic_result, unit) action" where
  "vic_blockdev_set_offset bd n = with_bd (\<lambda>b. bd_set_offset b n) bd"

definition vic_blockdev_get_offset :: "'s vic_blockdev option \<Rightarrow> ('s, vic_result, u64) action" where
  "vic_blockdev_get_offset = with_bd bd_get_offset"

definition vic_blockdev_set_size :: "'s vic_blockdev option \<Rightarrow> u64 \<Rightarrow> ('s, vic_result, unit) action" where
  "vic_blockdev_set_size bd n = with_bd (\<lambda>b. bd_set_size b n) bd"

definition vic_blockdev_partial_close :: "'s vic_blockdev option \<Rightarrow> ('s, vic_result, unit) action" where
  "vic_blockdev_partial_close = with_bd bd_partial_close"

definition vic_blockdev_reopen :: "'s vic_blockdev option \<Rightarrow> ('s, vic_result, unit) action" where
  "vic_blockdev_reopen = with_bd bd_reopen"

section \<open>Files\<close>

text \<open>
  A node of the file system and an open description of it. \<open>may_open\<close> is the answer of the operating
  system to a request to open a name with given flags. \<^verbatim>\<open>read\<close> and \<^verbatim>\<open>write\<close> of Linux transfer at
  most \<open>MAX_RW_COUNT\<close> bytes; a block device does not grow.
\<close>

datatype node_kind = Regular | Block | Other

record node =
  contents :: "u8 list"
  kind :: node_kind

record open_file =
  ino :: nat
  fpos :: nat
  readable :: bool
  writable :: bool

record os =
  nodes :: "nat \<Rightarrow> node"
  names :: "string \<Rightarrow> nat option"
  next_ino :: nat
  may_open :: "string \<Rightarrow> u32 \<Rightarrow> bool"

definition MAX_RW_COUNT :: nat where "MAX_RW_COUNT = 0x7ffff000"

definition O_WRONLY :: u32 where "O_WRONLY = 1"
definition O_RDWR :: u32 where "O_RDWR = 2"
definition O_CREAT :: u32 where "O_CREAT = 0x40"
definition O_TRUNC :: u32 where "O_TRUNC = 0x200"

definition posix_open :: "string \<Rightarrow> u32 \<Rightarrow> os \<Rightarrow> open_file option \<times> os" where
  "posix_open p fl w =
     (if \<not> may_open w p fl then (None, w)
      else let acc = fl AND 3;
               opened = (\<lambda>i. Some \<lparr> ino = i, fpos = 0, readable = acc \<noteq> O_WRONLY, writable = acc \<noteq> 0 \<rparr>)
           in case names w p of
                Some i \<Rightarrow>
                  (opened i,
                   if fl AND O_TRUNC \<noteq> 0 \<and> kind (nodes w i) = Regular
                   then w \<lparr> nodes := (nodes w)(i := nodes w i \<lparr> contents := [] \<rparr>) \<rparr> else w)
              | None \<Rightarrow>
                  (if fl AND O_CREAT = 0 then (None, w)
                   else (opened (next_ino w),
                         w \<lparr> nodes := (nodes w)(next_ino w := \<lparr> contents = [], kind = Regular \<rparr>),
                             names := (names w)(p := Some (next_ino w)), next_ino := Suc (next_ino w) \<rparr>)))"

definition posix_lseek :: "int \<Rightarrow> os \<Rightarrow> open_file option \<Rightarrow> int \<times> open_file option" where
  "posix_lseek off w fd =
     (case fd of None \<Rightarrow> (- 1, None)
      | Some f \<Rightarrow>
          (if off < 0 \<or> kind (nodes w (ino f)) = Block \<and> int (length (contents (nodes w (ino f)))) < off then (- 1, fd)
           else (off, Some (f \<lparr> fpos := nat off \<rparr>))))"

definition posix_read :: "nat \<Rightarrow> os \<Rightarrow> open_file option \<Rightarrow> int \<times> u8 list \<times> open_file option" where
  "posix_read count w fd =
     (case fd of None \<Rightarrow> (- 1, [], None)
      | Some f \<Rightarrow>
          (if \<not> readable f then (- 1, [], fd)
           else let bs = take (min count MAX_RW_COUNT) (drop (fpos f) (contents (nodes w (ino f))))
                in (int (length bs), bs, Some (f \<lparr> fpos := fpos f + length bs \<rparr>))))"

text \<open>The bytes \<open>bs\<close> written over \<open>xs\<close> from position \<open>i\<close> on; a gap is filled with zeros.\<close>

definition overwrite :: "nat \<Rightarrow> 'a list \<Rightarrow> 'a list \<Rightarrow> 'a list" where
  "overwrite i bs xs = take i xs @ bs @ drop (i + length bs) xs"

definition zero_fill :: "nat \<Rightarrow> u8 list \<Rightarrow> u8 list" where
  "zero_fill n xs = xs @ replicate (n - length xs) 0"

definition posix_write :: "u8 list \<Rightarrow> os \<Rightarrow> open_file option \<Rightarrow> int \<times> open_file option \<times> os" where
  "posix_write buf w fd =
     (case fd of None \<Rightarrow> (- 1, None, w)
      | Some f \<Rightarrow>
          (let old = nodes w (ino f);
               room = (if kind old = Block then length (contents old) - fpos f else length buf);
               bs = take (min room MAX_RW_COUNT) buf
           in if \<not> writable f \<or> (bs = [] \<and> buf \<noteq> []) then (- 1, fd, w)
              else (int (length bs), Some (f \<lparr> fpos := fpos f + length bs \<rparr>),
                    if bs = [] then w
                    else w \<lparr> nodes := (nodes w)(ino f := old \<lparr> contents := overwrite (fpos f) bs (zero_fill (fpos f) (contents old)) \<rparr>) \<rparr>)))"

section \<open>The implementation\<close>

record blockdev =
  magic :: u64
  path :: string
  full_size :: u64
  bd_size :: u64
  offset :: u64
  block_size :: u64
  flags :: u32
  open_flags :: u32
  fd :: "open_file option"

record file_dev =
  blk :: blockdev
  host :: os

definition MAGIC :: u64 where "MAGIC = 0xf3fcef718ce744bd"
definition DEFAULT_BLOCK_SIZE :: u64 where "DEFAULT_BLOCK_SIZE = 512"
definition PATH_MAX :: nat where "PATH_MAX = 4096"
definition VIC_RDONLY :: u32 where "VIC_RDONLY = 1"
definition VIC_WRONLY :: u32 where "VIC_WRONLY = 2"
definition VIC_RDWR :: u32 where "VIC_RDWR = 4"
definition VIC_CREATE :: u32 where "VIC_CREATE = 8"
definition VIC_TRUNC :: u32 where "VIC_TRUNC = 16"

definition is_power_of_two :: "u64 \<Rightarrow> bool" where
  "is_power_of_two x = list_ex (\<lambda>i. x = push_bit i 1) [0..<64]"

definition valid_blockdev :: "blockdev \<Rightarrow> bool" where
  "valid_blockdev b = (magic b = MAGIC)"

definition check_block_multiple :: "blockdev \<Rightarrow> u64 \<Rightarrow> ('s, vic_result, unit) action" where
  "check_block_multiple b n = raise_if (bd_size b mod n \<noteq> 0) VIC_NOT_BLOCK_MULTIPLE"

definition get_full_size :: "os \<Rightarrow> open_file option \<Rightarrow> ('s, vic_result, u64) action" where
  "get_full_size w f =
     (case f of None \<Rightarrow> raise VIC_STAT_FAILED
      | Some h \<Rightarrow> (if kind (nodes w (ino h)) = Other then raise VIC_IOCTL_FAILED
                  else give (of_nat (length (contents (nodes w (ino h)))))))"

text \<open>\<^verbatim>\<open>if (!_valid_blockdev(bd)) RAISE(e)\<close>, and an update of the structure.\<close>

definition checked :: "vic_result \<Rightarrow> (blockdev \<Rightarrow> (file_dev, vic_result, 'a) action) \<Rightarrow> (file_dev, vic_result, 'a) action" where
  "checked e f s = (if valid_blockdev (blk s) then f (blk s) s else raise e s)"

definition set_blk :: "blockdev \<Rightarrow> (file_dev, vic_result, unit) action" where
  "set_blk b s = (Done (), s \<lparr> blk := b \<rparr>)"

definition file_partial_close :: "(file_dev, vic_result, unit) action" where
  "file_partial_close = checked VIC_BAD_PARAMETER (\<lambda>b. set_blk (b \<lparr> fd := None \<rparr>))"

definition file_reopen :: "(file_dev, vic_result, unit) action" where
  "file_reopen = checked VIC_BAD_PARAMETER (\<lambda>b s.
     if fd b \<noteq> None then raise VIC_BAD_PARAMETER s
     else let (f, w) = posix_open (path b) (open_flags b) (host s);
              t = s \<lparr> blk := b \<lparr> fd := f \<rparr>, host := w \<rparr>
          in if f = None then raise VIC_OPEN_FAILED t else give () t)"

definition file_set_offset :: "u64 \<Rightarrow> (file_dev, vic_result, unit) action" where
  "file_set_offset n = checked VIC_BAD_PARAMETER (\<lambda>b.
     bnd (raise_if (n mod block_size b \<noteq> 0) VIC_BAD_PARAMETER) (\<lambda>_.
     bnd (raise_if (bd_size b < n) VIC_BAD_PARAMETER) (\<lambda>_.
     set_blk (b \<lparr> offset := n \<rparr>))))"

definition file_get_offset :: "(file_dev, vic_result, u64) action" where
  "file_get_offset = checked VIC_BAD_PARAMETER (\<lambda>b. give (offset b))"

definition file_set_size :: "u64 \<Rightarrow> (file_dev, vic_result, unit) action" where
  "file_set_size n = checked VIC_BAD_PARAMETER (\<lambda>b.
     bnd (raise_if (n mod block_size b \<noteq> 0) VIC_BAD_PARAMETER) (\<lambda>_.
     bnd (raise_if (full_size b < n) VIC_BAD_PARAMETER) (\<lambda>_.
     set_blk (b \<lparr> bd_size := n \<rparr>))))"

definition file_get_path :: "(file_dev, vic_result, string) action" where
  "file_get_path = checked VIC_BAD_BLOCK_DEVICE (\<lambda>b. give (path b))"

definition file_get_block_size :: "(file_dev, vic_result, u64) action" where
  "file_get_block_size = checked VIC_BAD_PARAMETER (\<lambda>b. give (block_size b))"

definition file_get_size :: "(file_dev, vic_result, u64) action" where
  "file_get_size = checked VIC_BAD_BLOCK_DEVICE (\<lambda>b. give (bd_size b - offset b))"

definition file_set_block_size :: "u64 \<Rightarrow> (file_dev, vic_result, unit) action" where
  "file_set_block_size n = checked VIC_BAD_PARAMETER (\<lambda>b.
     bnd (raise_if (n = 0 \<or> \<not> is_power_of_two n) VIC_BAD_PARAMETER) (\<lambda>_.
     bnd (check_block_multiple b n) (\<lambda>_.
     set_blk (b \<lparr> block_size := n \<rparr>))))"

definition file_get_num_blocks :: "(file_dev, vic_result, u64) action" where
  "file_get_num_blocks = checked VIC_BAD_BLOCK_DEVICE (\<lambda>b. give ((bd_size b - offset b) div block_size b))"

definition file_get :: "u64 \<Rightarrow> u64 \<Rightarrow> (file_dev, vic_result, u8 list) action" where
  "file_get blkno nblocks = checked VIC_BAD_BLOCK_DEVICE (\<lambda>b s.
     let off = blkno * block_size b + offset b;
         sz = nblocks * block_size b
     in if bd_size b < off + sz then raise VIC_SEEK_FAILED s
        else let (r, f) = posix_lseek (sint off) (host s) (fd b);
                 t = s \<lparr> blk := b \<lparr> fd := f \<rparr> \<rparr>
             in if r \<noteq> sint off then raise VIC_SEEK_FAILED t
                else let (n, bs, f) = posix_read (unat sz) (host t) f;
                         t = s \<lparr> blk := b \<lparr> fd := f \<rparr> \<rparr>
                     in if n \<noteq> sint sz then raise VIC_READ_FAILED t else give bs t)"

text \<open>\<open>blocks\<close> is the buffer of the caller, which has to hold \<^verbatim>\<open>size\<close> bytes.\<close>

definition file_put :: "u64 \<Rightarrow> u8 list \<Rightarrow> u64 \<Rightarrow> (file_dev, vic_result, unit) action" where
  "file_put blkno blocks nblocks = checked VIC_BAD_BLOCK_DEVICE (\<lambda>b s.
     let off = blkno * block_size b + offset b;
         sz = nblocks * block_size b;
         create = (flags b AND VIC_CREATE \<noteq> 0)
     in if \<not> create \<and> bd_size b < off + sz then raise VIC_SEEK_FAILED s
        else let (r, f) = posix_lseek (sint off) (host s) (fd b);
                 t = s \<lparr> blk := b \<lparr> fd := f \<rparr> \<rparr>
             in if r \<noteq> sint off then raise VIC_SEEK_FAILED t
                else if length blocks < unat sz then fault t
                else let (n, f, w) = posix_write (take (unat sz) blocks) (host t) f;
                         t = t \<lparr> blk := b \<lparr> fd := f \<rparr>, host := w \<rparr>
                     in if n \<noteq> sint sz then raise VIC_READ_FAILED t
                        else if create \<and> bd_size b < off + sz
                             then give () (t \<lparr> blk := b \<lparr> fd := f, bd_size := off + sz \<rparr> \<rparr>)
                             else give () t)"

text \<open>Closing frees the structure after clearing it; the pointer of the caller dangles from then on.\<close>

definition file_close :: "(file_dev, vic_result, unit) action" where
  "file_close = checked VIC_BAD_BLOCK_DEVICE (\<lambda>b.
     set_blk \<lparr> magic = 0, path = [], full_size = 0, bd_size = 0, offset = 0, block_size = 0, flags = 0,
               open_flags = 0, fd = None \<rparr>)"

definition file_blockdev :: "file_dev vic_blockdev" where
  "file_blockdev =
     \<lparr> bd_partial_close = file_partial_close, bd_reopen = file_reopen, bd_set_size = file_set_size,
       bd_set_offset = file_set_offset, bd_get_offset = file_get_offset, bd_get_path = file_get_path,
       bd_get_block_size = file_get_block_size, bd_set_block_size = file_set_block_size,
       bd_get_size = file_get_size, bd_get_num_blocks = file_get_num_blocks, bd_get = file_get,
       bd_put = file_put, bd_close = file_close \<rparr>"

text \<open>
  Opening: the flags become those of \<^verbatim>\<open>open\<close>, and the size is found with \<^verbatim>\<open>fstat\<close> or \<^verbatim>\<open>ioctl\<close>.
  \<open>mem\<close> says whether the allocation of the structure succeeds.
\<close>

definition resolve_flags :: "u32 \<Rightarrow> ('s, vic_result, u32) action" where
  "resolve_flags fl =
     (let rdwr = (fl AND VIC_RDWR \<noteq> 0); rdonly = (fl AND VIC_RDONLY \<noteq> 0); wronly = (fl AND VIC_WRONLY \<noteq> 0)
      in bnd (raise_if (rdwr \<and> (rdonly \<or> wronly)) VIC_BAD_FLAGS) (\<lambda>_.
         bnd (raise_if (rdonly \<and> (rdwr \<or> wronly)) VIC_BAD_FLAGS) (\<lambda>_.
         bnd (raise_if (wronly \<and> (rdwr \<or> rdonly)) VIC_BAD_FLAGS) (\<lambda>_.
         give ((if rdwr then O_RDWR else 0) OR (if wronly then O_WRONLY else 0) OR
               (if fl AND VIC_CREATE \<noteq> 0 then O_CREAT else 0) OR (if fl AND VIC_TRUNC \<noteq> 0 then O_TRUNC else 0))))))"

definition vic_blockdev_open :: "bool \<Rightarrow> string option \<Rightarrow> u32 \<Rightarrow> u64 \<Rightarrow> (os, vic_result, blockdev) action" where
  "vic_blockdev_open mem p fl bsize =
     bnd (resolve_flags fl) (\<lambda>ofl.
     let n = (if bsize = 0 then DEFAULT_BLOCK_SIZE else bsize)
     in case p of None \<Rightarrow> raise VIC_BAD_PARAMETER
        | Some name \<Rightarrow>
     bnd (raise_if (\<not> is_power_of_two n) VIC_BAD_PARAMETER) (\<lambda>_.
     bnd (raise_if (\<not> mem) VIC_OUT_OF_MEMORY) (\<lambda>_.
     bnd (raise_if (PATH_MAX \<le> length name) VIC_UNEXPECTED) (\<lambda>_.
     bnd (\<lambda>w. let (f, w) = posix_open name ofl w in give (f, w) w) (\<lambda>(f, w).
     bnd (raise_if (f = None) VIC_OPEN_FAILED) (\<lambda>_.
     bnd (get_full_size w f) (\<lambda>full.
     let b = \<lparr> magic = MAGIC, path = name, full_size = full, bd_size = full, offset = 0, block_size = n,
               flags = fl, open_flags = ofl, fd = f \<rparr>
     in bnd (check_block_multiple b n) (\<lambda>_. give b))))))))"

definition vic_blockdev_same :: "blockdev option \<Rightarrow> blockdev option \<Rightarrow> (os, vic_result, bool) action" where
  "vic_blockdev_same x y =
     (case (x, y) of
        (Some b1, Some b2) \<Rightarrow>
          bnd (raise_if (\<not> valid_blockdev b1 \<or> \<not> valid_blockdev b2) VIC_BAD_PARAMETER) (\<lambda>_.
          bnd (raise_if (fd b1 = None \<or> fd b1 = None) VIC_BAD_PARAMETER) (\<lambda>_.
          case (fd b1, fd b2) of
            (Some f1, Some f2) \<Rightarrow> give (ino f1 = ino f2)
          | _ \<Rightarrow> raise VIC_STAT_FAILED))
      | _ \<Rightarrow> raise VIC_BAD_PARAMETER)"

definition vic_blockdev_get_size_from_path :: "string option \<Rightarrow> os \<Rightarrow> u64" where
  "vic_blockdev_get_size_from_path p w =
     (case p of None \<Rightarrow> - 1
      | Some name \<Rightarrow>
          (case posix_open name 0 w of
             (Some f, w') \<Rightarrow>
               (if kind (nodes w' (ino f)) = Other then - 1 else of_nat (length (contents (nodes w' (ino f)))))
           | (None, _) \<Rightarrow> - 1))"

section \<open>The contract\<close>

text \<open>
  What the users of a device with blocks of 512 bytes rely on: reading gives the bytes last written,
  writing replaces exactly the given blocks, and an access beyond the end fails and changes nothing.
  \<open>data\<close> is the array of bytes the device presents. A transfer is limited by \<open>MAX_RW_COUNT\<close>.
\<close>

abbreviation (input) fits :: "u64 \<Rightarrow> u64 \<Rightarrow> bool" where
  "fits b n \<equiv> unat b < 2 ^ 40 \<and> unat n * 512 \<le> MAX_RW_COUNT"

locale block_device =
  fixes dev :: "'s vic_blockdev" and ok :: "'s \<Rightarrow> bool" and data :: "'s \<Rightarrow> u8 list"
  assumes block_size_law: "ok s \<Longrightarrow> bd_get_block_size dev s = (Done 512, s)"
    and num_blocks_law: "ok s \<Longrightarrow> bd_get_num_blocks dev s = (Done (of_nat (length (data s) div 512)), s)"
    and size_law: "ok s \<Longrightarrow> length (data s) < 2 ^ 63"
    and get_law: "ok s \<Longrightarrow> fits b n \<Longrightarrow> (unat b + unat n) * 512 \<le> length (data s) \<Longrightarrow>
        fst (bd_get dev b n s) = Done (take (unat n * 512) (drop (unat b * 512) (data s)))"
    and get_fails: "ok s \<Longrightarrow> fits b n \<Longrightarrow> length (data s) < (unat b + unat n) * 512 \<Longrightarrow>
        \<exists>e. fst (bd_get dev b n s) = Failed e"
    and get_keeps: "ok s \<Longrightarrow> ok (snd (bd_get dev b n s)) \<and> data (snd (bd_get dev b n s)) = data s"
    and put_law: "ok s \<Longrightarrow> fits b n \<Longrightarrow> (unat b + unat n) * 512 \<le> length (data s) \<Longrightarrow> unat n * 512 \<le> length bs \<Longrightarrow>
        fst (bd_put dev b bs n s) = Done () \<and> ok (snd (bd_put dev b bs n s)) \<and>
        data (snd (bd_put dev b bs n s)) = overwrite (unat b * 512) (take (unat n * 512) bs) (data s)"
    and put_fails: "ok s \<Longrightarrow> fits b n \<Longrightarrow> length (data s) < (unat b + unat n) * 512 \<Longrightarrow>
        \<exists>e t. bd_put dev b bs n s = (Failed e, t) \<and> ok t \<and> data t = data s"

definition file_ok :: "file_dev \<Rightarrow> bool" where
  "file_ok s =
     (case fd (blk s) of None \<Rightarrow> False
      | Some f \<Rightarrow>
          valid_blockdev (blk s) \<and> readable f \<and> writable f \<and> block_size (blk s) = 512 \<and>
          flags (blk s) AND VIC_CREATE = 0 \<and> offset (blk s) \<le> bd_size (blk s) \<and>
          unat (bd_size (blk s)) \<le> length (contents (nodes (host s) (ino f))) \<and>
          length (contents (nodes (host s) (ino f))) < 2 ^ 63)"

definition file_data :: "file_dev \<Rightarrow> u8 list" where
  "file_data s =
     (case fd (blk s) of None \<Rightarrow> []
      | Some f \<Rightarrow> drop (unat (offset (blk s))) (take (unat (bd_size (blk s))) (contents (nodes (host s) (ino f)))))"

text \<open>Moving the position of the open file changes neither the contract nor the data.\<close>

definition seek_to :: "nat \<Rightarrow> file_dev \<Rightarrow> file_dev" where
  "seek_to n s = s \<lparr> blk := blk s \<lparr> fd := map_option (\<lambda>f. f \<lparr> fpos := n \<rparr>) (fd (blk s)) \<rparr> \<rparr>"

lemma seek_to_keeps [simp]: "file_ok (seek_to n s) = file_ok s" "file_data (seek_to n s) = file_data s"
  by (simp_all add: seek_to_def file_ok_def file_data_def valid_blockdev_def split: option.splits)

lemma file_okE:
  assumes "file_ok s"
  obtains f where "fd (blk s) = Some f" "valid_blockdev (blk s)" "readable f" "writable f"
    "block_size (blk s) = 512" "flags (blk s) AND VIC_CREATE = 0" "offset (blk s) \<le> bd_size (blk s)"
    "unat (bd_size (blk s)) \<le> length (contents (nodes (host s) (ino f)))"
    "length (contents (nodes (host s) (ino f))) < 2 ^ 63"
  using assms by (auto simp: file_ok_def split: option.splits)

lemma file_data_length: "file_ok s \<Longrightarrow> length (file_data s) = unat (bd_size (blk s) - offset (blk s))"
  by (erule file_okE) (simp add: file_data_def unat_sub_small)

text \<open>The byte offset and the size of a request do not wrap around.\<close>

lemma request_unat:
  assumes "fits b n" and "unat (o1 :: u64) < 2 ^ 63"
  shows "unat (b * 512 + o1) = unat b * 512 + unat o1" and "unat (n * 512) = unat n * 512"
    and "unat (b * 512 + o1 + n * 512) = unat b * 512 + unat o1 + unat n * 512"
proof -
  have b: "unat (b * 512) = unat b * 512" using assms by (subst unat_mult_small) simp_all
  show n: "unat (n * 512) = unat n * 512"
    using assms by (subst unat_mult_small) (simp_all add: MAX_RW_COUNT_def)
  show o: "unat (b * 512 + o1) = unat b * 512 + unat o1"
    using assms by (subst unat_add_small) (simp_all add: b)
  show "unat (b * 512 + o1 + n * 512) = unat b * 512 + unat o1 + unat n * 512"
    using assms by (subst unat_add_small) (simp_all add: o n MAX_RW_COUNT_def)
qed

lemma sint_small:
  assumes "unat (x :: u64) < 2 ^ 63" shows "sint x = int (unat x)"
proof -
  have "uint x < 2 ^ 63"
    using assms by (metis of_nat_less_iff of_nat_numeral of_nat_power uint_nat)
  moreover have "- (2 ^ 63) \<le> uint x"
    by (rule order_trans [OF _ uint_ge_0]) simp
  ultimately have "sint x = uint x"
    by (simp add: sint_uint signed_take_bit_int_eq_self_iff)
  then show ?thesis by (simp only: uint_nat)
qed

lemma file_get_ok:
  assumes ok: "file_ok s" and fits: "fits b n" and room: "(unat b + unat n) * 512 \<le> length (file_data s)"
  shows "\<exists>p. file_get b n s = (Done (take (unat n * 512) (drop (unat b * 512) (file_data s))), seek_to p s)"
proof -
  obtain f where f: "fd (blk s) = Some f" "valid_blockdev (blk s)" "readable f" "block_size (blk s) = 512"
    "offset (blk s) \<le> bd_size (blk s)" "unat (bd_size (blk s)) \<le> length (contents (nodes (host s) (ino f)))"
    "length (contents (nodes (host s) (ino f))) < 2 ^ 63"
    using ok by (rule file_okE)
  define off where "off = unat b * 512 + unat (offset (blk s))"
  define k where "k = unat n * 512"
  have o: "unat (offset (blk s)) < 2 ^ 63" "unat (offset (blk s)) \<le> unat (bd_size (blk s))"
    using f(5-7) by (auto simp: word_le_nat_alt)
  note r = request_unat [OF fits o(1), folded k_def, folded off_def]
  have len: "off + k \<le> unat (bd_size (blk s))"
    using room f(5) o unfolding file_data_length [OF ok] off_def k_def
    by (simp add: unat_sub_small algebra_simps)
  have sint: "sint (b * 512 + offset (blk s)) = int off" "sint (n * 512) = int k"
    using len f(6,7) r by (simp_all add: sint_small)
  have bs: "take k (drop off (contents (nodes (host s) (ino f)))) = take k (drop (unat b * 512) (file_data s))"
    and n: "length (take k (drop (unat b * 512) (file_data s))) = k"
    using len f(6) by (auto simp: file_data_def f(1) off_def drop_take add.commute min_def)
  have k: "min k MAX_RW_COUNT = k" using fits by (simp add: k_def)
  have seek: "posix_lseek (int off) (host s) (Some f) = (int off, Some (f \<lparr> fpos := off \<rparr>))"
    using len f(6) by (simp add: posix_lseek_def)
  have read: "posix_read k (host s) (Some (f \<lparr> fpos := off \<rparr>))
      = (int k, take k (drop (unat b * 512) (file_data s)), Some (f \<lparr> fpos := off + k \<rparr>))"
    unfolding posix_read_def using f(3) by (simp add: k bs n del: length_take)
  have "\<not> bd_size (blk s) < b * 512 + offset (blk s) + n * 512"
    using len by (simp add: word_less_nat_alt r)
  then have "file_get b n s = (Done (take k (drop (unat b * 512) (file_data s))), seek_to (off + k) s)"
    by (simp add: file_get_def checked_def f(1,2,4) sint r seek read seek_to_def Let_def)
  then show ?thesis unfolding k_def by blast
qed

lemma file_get_fails:
  assumes ok: "file_ok s" and fits: "fits b n" and "length (file_data s) < (unat b + unat n) * 512"
  shows "file_get b n s = (Failed VIC_SEEK_FAILED, s)"
    and "file_put b bs n s = (Failed VIC_SEEK_FAILED, s)"
proof -
  obtain f where f: "fd (blk s) = Some f" "valid_blockdev (blk s)" "block_size (blk s) = 512"
    "flags (blk s) AND VIC_CREATE = 0" "offset (blk s) \<le> bd_size (blk s)"
    "unat (bd_size (blk s)) \<le> length (contents (nodes (host s) (ino f)))"
    "length (contents (nodes (host s) (ino f))) < 2 ^ 63"
    using ok by (rule file_okE)
  have o: "unat (offset (blk s)) < 2 ^ 63" "unat (offset (blk s)) \<le> unat (bd_size (blk s))"
    using f(5-7) by (auto simp: word_le_nat_alt)
  have "bd_size (blk s) < b * 512 + offset (blk s) + n * 512"
    using assms(3) f(5) o unfolding file_data_length [OF ok] word_less_nat_alt request_unat(3) [OF fits o(1)]
    by (simp add: unat_sub_small algebra_simps)
  then show "file_get b n s = (Failed VIC_SEEK_FAILED, s)" "file_put b bs n s = (Failed VIC_SEEK_FAILED, s)"
    by (simp_all add: file_get_def file_put_def checked_def f Let_def)
qed

lemma posix_lseek_keeps:
  "posix_lseek off w (Some f) = (r, g) \<Longrightarrow> \<exists>p. g = Some (f \<lparr> fpos := p \<rparr>)"
  by (auto simp: posix_lseek_def split: if_splits intro: exI [of _ "fpos f"])

lemma posix_read_keeps:
  "posix_read k w (Some f) = (r, bs, g) \<Longrightarrow> \<exists>p. g = Some (f \<lparr> fpos := p \<rparr>)"
  by (auto simp: posix_read_def Let_def split: if_splits intro: exI [of _ "fpos f"])

lemma file_get_state: "file_ok s \<Longrightarrow> \<exists>p. snd (file_get b n s) = seek_to p s"
proof -
  assume "file_ok s"
  then obtain f where f: "fd (blk s) = Some f" by (rule file_okE)
  let ?off = "b * block_size (blk s) + offset (blk s)" and ?sz = "n * block_size (blk s)"
  obtain r g where seek: "posix_lseek (sint ?off) (host s) (Some f) = (r, g)" by fastforce
  obtain k bs h where read: "posix_read (unat ?sz) (host s) g = (k, bs, h)" by (metis prod_cases3)
  from posix_lseek_keeps [OF seek] obtain p where g: "g = Some (f \<lparr> fpos := p \<rparr>)" ..
  from posix_read_keeps [OF read [unfolded g]] obtain q where h: "h = Some (f \<lparr> fpos := q \<rparr>)" by auto
  have t: "s \<lparr> blk := blk s \<lparr> fd := g \<rparr> \<rparr> = seek_to p s" "s \<lparr> blk := blk s \<lparr> fd := h \<rparr> \<rparr> = seek_to q s"
    by (simp_all add: seek_to_def f g h)
  have host: "host (seek_to p s) = host s" by (simp add: seek_to_def)
  have "s = seek_to (fpos f) s" by (simp add: seek_to_def f)
  then show ?thesis
    using t by (auto simp: file_get_def checked_def Let_def f seek read host)
qed

lemma overwrite_length [simp]: "i + length bs \<le> length xs \<Longrightarrow> length (overwrite i bs xs) = length xs"
  by (simp add: overwrite_def)

lemma take_overwrite: "i + length bs \<le> n \<Longrightarrow> n \<le> length xs \<Longrightarrow> take n (overwrite i bs xs) = overwrite i bs (take n xs)"
  by (auto simp: overwrite_def take_drop)

lemma drop_overwrite: "n \<le> i \<Longrightarrow> i \<le> length xs \<Longrightarrow> drop n (overwrite i bs xs) = overwrite (i - n) bs (drop n xs)"
  by (simp add: overwrite_def drop_take)

lemma zero_fill_id [simp]: "n \<le> length xs \<Longrightarrow> zero_fill n xs = xs"
  by (simp add: zero_fill_def)

lemma file_put_ok:
  assumes ok: "file_ok s" and fits: "fits b n" and room: "(unat b + unat n) * 512 \<le> length (file_data s)"
    and buf: "unat n * 512 \<le> length bs"
  shows "\<exists>t. file_put b bs n s = (Done (), t) \<and> file_ok t \<and>
    file_data t = overwrite (unat b * 512) (take (unat n * 512) bs) (file_data s)"
proof -
  obtain f where f: "fd (blk s) = Some f" "valid_blockdev (blk s)" "readable f" "writable f"
    "block_size (blk s) = 512" "flags (blk s) AND VIC_CREATE = 0" "offset (blk s) \<le> bd_size (blk s)"
    "unat (bd_size (blk s)) \<le> length (contents (nodes (host s) (ino f)))"
    "length (contents (nodes (host s) (ino f))) < 2 ^ 63"
    using ok by (rule file_okE)
  define off where "off = unat b * 512 + unat (offset (blk s))"
  define k where "k = unat n * 512"
  have o: "unat (offset (blk s)) < 2 ^ 63" "unat (offset (blk s)) \<le> unat (bd_size (blk s))"
    using f(7-9) by (auto simp: word_le_nat_alt)
  note r = request_unat [OF fits o(1), folded k_def, folded off_def]
  have len: "off + k \<le> unat (bd_size (blk s))"
    using room f(7) o unfolding file_data_length [OF ok] off_def k_def
    by (simp add: unat_sub_small algebra_simps)
  have sint: "sint (b * 512 + offset (blk s)) = int off" "sint (n * 512) = int k"
    using len f(8,9) r by (simp_all add: sint_small)
  define w where "w = (host s) \<lparr> nodes := (nodes (host s))(ino f := nodes (host s) (ino f)
      \<lparr> contents := overwrite off (take k bs) (contents (nodes (host s) (ino f))) \<rparr>) \<rparr>"
  have k: "min k MAX_RW_COUNT = k" "k \<le> length bs" using fits buf by (simp_all add: k_def)
  have seek: "posix_lseek (int off) (host s) (Some f) = (int off, Some (f \<lparr> fpos := off \<rparr>))"
    using len f(8) by (simp add: posix_lseek_def)
  have wr: "posix_write (take k bs) (host s) (Some (f \<lparr> fpos := off \<rparr>)) = (int k, Some (f \<lparr> fpos := off + k \<rparr>), w)"
    using f(4,8) k len by (auto simp: posix_write_def Let_def w_def overwrite_def min_def)
  have "\<not> bd_size (blk s) < b * 512 + offset (blk s) + n * 512"
    using len by (simp add: word_less_nat_alt r)
  then have put: "file_put b bs n s = (Done (), s \<lparr> blk := blk s \<lparr> fd := Some (f \<lparr> fpos := off + k \<rparr>) \<rparr>, host := w \<rparr>)"
    using k by (simp add: file_put_def checked_def f sint r seek wr Let_def)
  have "file_data (s \<lparr> blk := blk s \<lparr> fd := Some (f \<lparr> fpos := off + k \<rparr>) \<rparr>, host := w \<rparr>)
      = overwrite (unat b * 512) (take k bs) (file_data s)"
    using len f(1,8) k by (simp add: file_data_def w_def take_overwrite drop_overwrite off_def)
  moreover have "file_ok (s \<lparr> blk := blk s \<lparr> fd := Some (f \<lparr> fpos := off + k \<rparr>) \<rparr>, host := w \<rparr>)"
    using ok len f(1,8) k by (simp add: file_ok_def w_def valid_blockdev_def)
  ultimately show ?thesis
    unfolding k_def [symmetric] put by blast
qed

interpretation fb: block_device file_blockdev file_ok file_data
proof unfold_locales
  fix s assume ok: "file_ok s"
  from ok obtain f where f: "fd (blk s) = Some f" "valid_blockdev (blk s)" "block_size (blk s) = 512"
    "offset (blk s) \<le> bd_size (blk s)" "unat (bd_size (blk s)) \<le> length (contents (nodes (host s) (ino f)))"
    "length (contents (nodes (host s) (ino f))) < 2 ^ 63"
    by (rule file_okE)
  show "bd_get_block_size file_blockdev s = (Done 512, s)"
    by (simp add: file_blockdev_def file_get_block_size_def checked_def f)
  have "(bd_size (blk s) - offset (blk s)) div 512 = of_nat (length (file_data s) div 512)"
    using of_nat_unat [of "(bd_size (blk s) - offset (blk s)) div 512"]
    by (simp only: unat_div_distrib file_data_length [OF ok]) simp
  then show "bd_get_num_blocks file_blockdev s = (Done (of_nat (length (file_data s) div 512)), s)"
    by (simp add: file_blockdev_def file_get_num_blocks_def checked_def f)
  show "length (file_data s) < 2 ^ 63"
    using f by (simp add: file_data_def)
next
  fix s b n assume ok: "file_ok s"
  from file_get_state [OF this] obtain p where "snd (file_get b n s) = seek_to p s" ..
  with ok show "file_ok (snd (bd_get file_blockdev b n s)) \<and> file_data (snd (bd_get file_blockdev b n s)) = file_data s"
    by (simp add: file_blockdev_def)
next
  fix s b n assume a: "file_ok s" "fits b n"
  show "fst (bd_get file_blockdev b n s) = Done (take (unat n * 512) (drop (unat b * 512) (file_data s)))"
    if "(unat b + unat n) * 512 \<le> length (file_data s)"
    using file_get_ok [OF a that] by (auto simp: file_blockdev_def)
  show "\<exists>e. fst (bd_get file_blockdev b n s) = Failed e" if "length (file_data s) < (unat b + unat n) * 512"
    using file_get_fails(1) [OF a that] by (simp add: file_blockdev_def)
next
  fix s b n bs assume a: "file_ok s" "fits b n"
  show "fst (bd_put file_blockdev b bs n s) = Done () \<and> file_ok (snd (bd_put file_blockdev b bs n s)) \<and>
      file_data (snd (bd_put file_blockdev b bs n s)) = overwrite (unat b * 512) (take (unat n * 512) bs) (file_data s)"
    if "(unat b + unat n) * 512 \<le> length (file_data s)" "unat n * 512 \<le> length bs"
    using file_put_ok [OF a that] by (auto simp: file_blockdev_def)
  show "\<exists>e t. bd_put file_blockdev b bs n s = (Failed e, t) \<and> file_ok t \<and> file_data t = file_data s"
    if "length (file_data s) < (unat b + unat n) * 512"
    using file_get_fails(2) [OF a that] a by (simp add: file_blockdev_def)
qed

end
