(* ===== verification/Vic_Crypto.thy ===== *)
theory Vic_Crypto
  imports Vic_Blockdev
begin

text \<open>
  Hashing, key derivation and the anti-forensic splitting of keys: \<^verbatim>\<open>hash.c\<close>, \<^verbatim>\<open>hash.h\<close> and \<^verbatim>\<open>crypto.c\<close> of
  \<^verbatim>\<open>src/src/vicsetup/libvicsetup\<close>. The primitives of mbedtls and argon2 are not part of the sources: they
  are the fields of the record \<open>mbedtls\<close>, an argument of every routine that calls them, together with the
  allocator. A state \<open>'g\<close> stands for the random generator and the heap. The hypothesis \<open>mbedtls_ok\<close>
  collects what their documentation promises: the requested number of bytes, and that decryption inverts
  encryption.
\<close>

section \<open>The primitives\<close>

datatype vic_hash_type = VIC_HASH_NONE | VIC_HASH_SHA1 | VIC_HASH_SHA256 | VIC_HASH_SHA512 | VIC_HASH_RIPEMD160

datatype cipher_type =
    AES_128_ECB | AES_256_ECB | AES_128_CBC | AES_256_CBC | AES_128_XTS | AES_256_XTS

datatype operation = ENCRYPT | DECRYPT

text \<open>
  \<open>pbkdf2_hmac\<close> takes the message digest, password, salt, iterations and the number of bytes wanted;
  \<open>cipher_setkey\<close> is \<^verbatim>\<open>mbedtls_cipher_setup\<close> followed by \<^verbatim>\<open>mbedtls_cipher_setkey\<close>; \<open>cipher_crypt\<close> takes key, initialization
  vector and input. The state of a hash is the array \<^verbatim>\<open>impl\<close> of the context.
\<close>

record 'g mbedtls =
  drbg_seed :: "'g \<Rightarrow> bool \<times> 'g"
  drbg_random :: "nat \<Rightarrow> 'g \<Rightarrow> u8 list option \<times> 'g"
  alloc :: "nat \<Rightarrow> 'g \<Rightarrow> bool \<times> 'g"
  pbkdf2_hmac :: "vic_hash_type \<Rightarrow> u8 list \<Rightarrow> u8 list \<Rightarrow> u32 \<Rightarrow> nat \<Rightarrow> u8 list option"
  sha_init :: "vic_hash_type \<Rightarrow> u64 list"
  sha_starts :: "vic_hash_type \<Rightarrow> u64 list \<Rightarrow> u64 list option"
  sha_update :: "vic_hash_type \<Rightarrow> u64 list \<Rightarrow> u8 list \<Rightarrow> u64 list option"
  sha_finish :: "vic_hash_type \<Rightarrow> u64 list \<Rightarrow> (u64 list \<times> u8 list) option"
  cipher_info :: "cipher_type \<Rightarrow> bool"
  cipher_setkey :: "cipher_type \<Rightarrow> operation \<Rightarrow> u8 list \<Rightarrow> bool"
  cipher_set_padding_none :: "cipher_type \<Rightarrow> bool"
  cipher_block_size :: "cipher_type \<Rightarrow> u64"
  cipher_crypt :: "cipher_type \<Rightarrow> operation \<Rightarrow> u8 list \<Rightarrow> u8 list \<Rightarrow> u8 list \<Rightarrow> u8 list option"
  aes_ecb_encrypt :: "u8 list \<Rightarrow> u8 list \<Rightarrow> u8 list option"
  argon2 :: "bool \<Rightarrow> u32 \<Rightarrow> u32 \<Rightarrow> u32 \<Rightarrow> u8 list \<Rightarrow> u8 list \<Rightarrow> u32 \<Rightarrow> u8 list option"

text \<open>The state of a program that uses a device: the device, the primitives and whether the generator was seeded.\<close>

record ('s, 'g) world =
  disk :: 's
  env :: 'g
  once :: bool

definition on_disk :: "('s, 'e, 'a) action \<Rightarrow> (('s, 'g) world, 'e, 'a) action" where
  "on_disk m w = (let (r, d) = m (disk w) in (r, w \<lparr> disk := d \<rparr>))"

definition calloc :: "'g mbedtls \<Rightarrow> 'e \<Rightarrow> nat \<Rightarrow> (('s, 'g) world, 'e, unit) action" where
  "calloc lib e n w = (let (ok, g) = alloc lib n (env w) in (if ok then Done () else Failed e, w \<lparr> env := g \<rparr>))"

section \<open>Random bytes\<close>

function vic_random_loop :: "'g mbedtls \<Rightarrow> nat \<Rightarrow> (('s, 'g) world, 'e, u8 list) action" where
  "vic_random_loop lib r w =
     (if r = 0 then give [] w
      else let n = (if r < 256 then r else 256)
           in case drbg_random lib n (env w) of
                (None, g) \<Rightarrow> (Abort, w \<lparr> env := g \<rparr>)
              | (Some bs, g) \<Rightarrow> bnd (vic_random_loop lib (r - n)) (\<lambda>rest. give (bs @ rest)) (w \<lparr> env := g \<rparr>))"
  by pat_completeness auto
termination by (relation "measure (\<lambda>(lib, r, w). r)") auto

declare vic_random_loop.simps [simp del]

definition vic_random :: "'g mbedtls \<Rightarrow> nat \<Rightarrow> (('s, 'g) world, 'e, u8 list) action" where
  "vic_random lib n w =
     (if once w then vic_random_loop lib n w
      else case drbg_seed lib (env w) of
             (False, g) \<Rightarrow> (Abort, w \<lparr> env := g, once := True \<rparr>)
           | (True, g) \<Rightarrow> vic_random_loop lib n (w \<lparr> env := g, once := True \<rparr>))"

section \<open>Hashing\<close>

text \<open>A string is compared with \<^verbatim>\<open>strcmp\<close>: up to the first NUL byte.\<close>

definition bytes :: "string \<Rightarrow> u8 list" where
  "bytes s = map of_char s"

definition cstr :: "u8 list \<Rightarrow> u8 list" where
  "cstr bs = takeWhile (\<lambda>b. b \<noteq> 0) bs"

definition str_eq :: "u8 list \<Rightarrow> string \<Rightarrow> bool" where
  "str_eq bs s = (cstr bs = bytes s)"

definition vic_hash_size :: "u8 list \<Rightarrow> u64" where
  "vic_hash_size spec =
     (if str_eq spec ''sha1'' then 20 else if str_eq spec ''sha256'' then 32
      else if str_eq spec ''sha512'' then 64 else if str_eq spec ''ripemd160'' then 20 else - 1)"

definition vic_hash_type :: "u8 list \<Rightarrow> vic_hash_type" where
  "vic_hash_type spec =
     (if str_eq spec ''sha1'' then VIC_HASH_SHA1 else if str_eq spec ''sha256'' then VIC_HASH_SHA256
      else if str_eq spec ''sha512'' then VIC_HASH_SHA512 else if str_eq spec ''ripemd160'' then VIC_HASH_RIPEMD160
      else VIC_HASH_NONE)"

fun vic_hash_name :: "vic_hash_type \<Rightarrow> string" where
  "vic_hash_name VIC_HASH_NONE = []"
| "vic_hash_name VIC_HASH_SHA1 = ''sha1''"
| "vic_hash_name VIC_HASH_SHA256 = ''sha256''"
| "vic_hash_name VIC_HASH_SHA512 = ''sha512''"
| "vic_hash_name VIC_HASH_RIPEMD160 = ''ripemd160''"

record vic_hash_ctx =
  ctx_type :: vic_hash_type
  impl :: "u64 list"

text \<open>\<^verbatim>\<open>HAVE_RIPEMD160\<close> is not defined, so that hash is refused everywhere.\<close>

abbreviation (input) built_in :: "vic_hash_type \<Rightarrow> bool" where
  "built_in t \<equiv> t \<noteq> VIC_HASH_NONE \<and> t \<noteq> VIC_HASH_RIPEMD160"

definition vic_hash_init :: "'g mbedtls \<Rightarrow> vic_hash_type \<Rightarrow> vic_hash_ctx option" where
  "vic_hash_init lib t = (if built_in t then Some \<lparr> ctx_type = t, impl = sha_init lib t \<rparr> else None)"

definition vic_hash_start :: "'g mbedtls \<Rightarrow> vic_hash_ctx \<Rightarrow> vic_hash_ctx option" where
  "vic_hash_start lib ctx =
     (if built_in (ctx_type ctx)
      then map_option (\<lambda>i. ctx \<lparr> impl := i \<rparr>) (sha_starts lib (ctx_type ctx) (impl ctx)) else None)"

definition vic_hash_update :: "'g mbedtls \<Rightarrow> vic_hash_ctx \<Rightarrow> u8 list \<Rightarrow> vic_hash_ctx option" where
  "vic_hash_update lib ctx bs =
     (if built_in (ctx_type ctx)
      then map_option (\<lambda>i. ctx \<lparr> impl := i \<rparr>) (sha_update lib (ctx_type ctx) (impl ctx) bs) else None)"

definition vic_hash_finish :: "'g mbedtls \<Rightarrow> vic_hash_ctx \<Rightarrow> (vic_hash_ctx \<times> u8 list) option" where
  "vic_hash_finish lib ctx =
     (if built_in (ctx_type ctx)
      then map_option (\<lambda>(i, h). (ctx \<lparr> impl := i \<rparr>, h)) (sha_finish lib (ctx_type ctx) (impl ctx)) else None)"

fun hash_updates :: "'g mbedtls \<Rightarrow> vic_hash_ctx \<Rightarrow> u8 list list \<Rightarrow> vic_hash_ctx option" where
  "hash_updates lib ctx [] = Some ctx"
| "hash_updates lib ctx (v # vs) =
     (if v = [] then hash_updates lib ctx vs
      else case vic_hash_update lib ctx v of None \<Rightarrow> None | Some c \<Rightarrow> hash_updates lib c vs)"

definition vic_hashv :: "'g mbedtls \<Rightarrow> vic_hash_type \<Rightarrow> u8 list list \<Rightarrow> u8 list option" where
  "vic_hashv lib t vec =
     do { c \<leftarrow> vic_hash_init lib t; c \<leftarrow> vic_hash_start lib c; c \<leftarrow> hash_updates lib c vec;
          (c, h) \<leftarrow> vic_hash_finish lib c; Some h }"

definition vic_hash1 :: "'g mbedtls \<Rightarrow> vic_hash_type \<Rightarrow> u8 list \<Rightarrow> u8 list option" where
  "vic_hash1 lib t s = vic_hashv lib t [s]"

definition vic_hash2 :: "'g mbedtls \<Rightarrow> vic_hash_type \<Rightarrow> u8 list \<Rightarrow> u8 list \<Rightarrow> u8 list option" where
  "vic_hash2 lib t s1 s2 = vic_hashv lib t [s1, s2]"

section \<open>Key derivation\<close>

definition vic_pbkdf2 :: "'g mbedtls \<Rightarrow> u8 list \<Rightarrow> u8 list \<Rightarrow> u32 \<Rightarrow> u8 list \<Rightarrow> u64 \<Rightarrow> u8 list option" where
  "vic_pbkdf2 lib password salt iterations spec key_size =
     (if password = [] \<or> salt = [] \<or> key_size = 0 then None
      else if 0xFFFFFFFF < key_size then None
      else let t = vic_hash_type spec
           in if t = VIC_HASH_NONE then None
              else pbkdf2_hmac lib t password salt iterations (unat key_size))"

definition vic_argon2i :: "'g mbedtls \<Rightarrow> u8 list \<Rightarrow> u8 list \<Rightarrow> u32 \<Rightarrow> u32 \<Rightarrow> u32 \<Rightarrow> u64 \<Rightarrow> u8 list option" where
  "vic_argon2i lib password salt time memory cpus key_size =
     argon2 lib False time memory cpus password salt (ucast key_size)"

definition vic_argon2id :: "'g mbedtls \<Rightarrow> u8 list \<Rightarrow> u8 list \<Rightarrow> u32 \<Rightarrow> u32 \<Rightarrow> u32 \<Rightarrow> u64 \<Rightarrow> u8 list option" where
  "vic_argon2id lib password salt time memory cpus key_size =
     argon2 lib True time memory cpus password salt (ucast key_size)"

section \<open>Splitting and merging keys\<close>

definition KEY_SIZE :: nat where "KEY_SIZE = 128"

definition compute_xor :: "u8 list \<Rightarrow> u8 list \<Rightarrow> u8 list" where
  "compute_xor lhs rhs = map2 (XOR) lhs rhs"

definition chunk :: "nat \<Rightarrow> nat \<Rightarrow> 'a list \<Rightarrow> 'a list" where
  "chunk i n xs = take n (drop i xs)"

text \<open>
  One round of the loop of \<^verbatim>\<open>_diffuse\<close>: block \<open>i\<close> of the data is replaced by the hash of the block number in
  big-endian order and the block, cut to the length of the block.
\<close>

definition diffuse_block :: "'g mbedtls \<Rightarrow> nat \<Rightarrow> vic_hash_ctx \<times> u8 list \<Rightarrow> nat \<Rightarrow> (vic_hash_ctx \<times> u8 list) option" where
  "diffuse_block lib hash_size st i =
     (let (ctx, data) = st;
          iv = le_bytes 4 (vic_swap_u32 (of_nat i));
          n = min hash_size (length data - i * hash_size)
      in do { c \<leftarrow> vic_hash_start lib ctx; c \<leftarrow> vic_hash_update lib c iv;
              c \<leftarrow> vic_hash_update lib c (chunk (i * hash_size) n data);
              (c, h) \<leftarrow> vic_hash_finish lib c;
              Some (c, overwrite (i * hash_size) (take n h) data) })"

fun diffuse_loop :: "'g mbedtls \<Rightarrow> nat \<Rightarrow> nat list \<Rightarrow> vic_hash_ctx \<times> u8 list \<Rightarrow> (vic_hash_ctx \<times> u8 list) option" where
  "diffuse_loop lib hash_size [] st = Some st"
| "diffuse_loop lib hash_size (i # js) st =
     (case diffuse_block lib hash_size st i of None \<Rightarrow> None | Some st' \<Rightarrow> diffuse_loop lib hash_size js st')"

definition diffuse :: "'g mbedtls \<Rightarrow> u8 list \<Rightarrow> u8 list \<Rightarrow> u8 list option" where
  "diffuse lib spec data =
     (if vic_hash_size spec = - 1 \<or> vic_hash_type spec = VIC_HASH_NONE then None
      else let hash_size = unat (vic_hash_size spec); n = length data
           in do { ctx \<leftarrow> vic_hash_init lib (vic_hash_type spec);
                   (c, d) \<leftarrow> diffuse_loop lib hash_size
                     [0..<n div hash_size + (if n mod hash_size = 0 then 0 else 1)] (ctx, data);
                   Some d })"

text \<open>
  \<^verbatim>\<open>vic_afmerge\<close> counts the stripes, a 64-bit number, with a 32-bit index: from \<open>2 ^ 32\<close> stripes on the loop
  does not end. Clearing \<^verbatim>\<open>key_bytes\<close> bytes of a key leaves the structure when there are more than 128.
\<close>

definition from_option :: "'e \<Rightarrow> 'a option \<Rightarrow> ('s, 'e, 'a) action" where
  "from_option e x = (case x of None \<Rightarrow> raise e | Some v \<Rightarrow> give v)"

fun afmerge_loop :: "'g mbedtls \<Rightarrow> nat \<Rightarrow> nat \<Rightarrow> u8 list \<Rightarrow> u8 list \<Rightarrow> nat list \<Rightarrow> u8 list \<Rightarrow> ('s, unit, u8 list) action" where
  "afmerge_loop lib key_bytes stripes spec split_key [] key = give key"
| "afmerge_loop lib key_bytes stripes spec split_key (i # js) key =
     (if length split_key < Suc i * key_bytes then fault
      else let key = compute_xor key (chunk (i * key_bytes) key_bytes split_key)
           in if Suc i mod 2 ^ 32 \<noteq> stripes
              then bnd (from_option () (diffuse lib spec key)) (afmerge_loop lib key_bytes stripes spec split_key js)
              else afmerge_loop lib key_bytes stripes spec split_key js key)"

definition vic_afmerge :: "'g mbedtls \<Rightarrow> u64 \<Rightarrow> u64 \<Rightarrow> u8 list \<Rightarrow> u8 list \<Rightarrow> ('s, unit, u8 list) action" where
  "vic_afmerge lib key_bytes stripes spec split_key =
     (if KEY_SIZE < unat key_bytes then fault
      else bnd (afmerge_loop lib (unat key_bytes) (unat stripes) spec split_key
                  [0..<min (unat stripes) (2 ^ 32)] (replicate (unat key_bytes) 0)) (\<lambda>key.
           if unat stripes < 2 ^ 32 then give key else (\<lambda>s. (Diverge, s))))"

text \<open>
  \<^verbatim>\<open>_gen_split_material\<close> multiplies index and key length as 32-bit numbers. \<^verbatim>\<open>vic_afsplit\<close> fills the caller's
  buffer of \<open>cap\<close> bytes with random bytes and replaces the last stripe.
\<close>

fun gen_split_material :: "'g mbedtls \<Rightarrow> u8 list \<Rightarrow> u8 list \<Rightarrow> u32 \<Rightarrow> nat list \<Rightarrow> u8 list \<Rightarrow> ('s, unit, u8 list) action" where
  "gen_split_material lib spec src keylen [] prev = give prev"
| "gen_split_material lib spec src keylen (i # js) prev =
     (let pos = unat (of_nat i * keylen)
      in if length src < pos + unat keylen then fault
         else bnd (from_option () (diffuse lib spec (compute_xor prev (chunk pos (unat keylen) src))))
                (gen_split_material lib spec src keylen js))"

definition vic_afsplit :: "'g mbedtls \<Rightarrow> u8 list \<Rightarrow> u8 list \<Rightarrow> u64 \<Rightarrow> u32 \<Rightarrow> nat \<Rightarrow> (('s, 'g) world, unit, u8 list) action" where
  "vic_afsplit lib spec key key_size stripes cap =
     (if KEY_SIZE < unat key_size then raise ()
      else if cap < unat (key_size * ucast stripes) then fault
      else bnd (vic_random lib (unat (key_size * ucast stripes))) (\<lambda>split_key.
           bnd (gen_split_material lib spec split_key (ucast key_size) [0..<unat (stripes - 1)] (replicate (unat key_size) 0)) (\<lambda>prev.
           let pos = unat (ucast (stripes - 1) * key_size)
           in if length split_key < pos + unat key_size then fault
              else give (overwrite pos (compute_xor prev (take (unat key_size) key)) split_key))))"

section \<open>What the primitives promise\<close>

text \<open>
  The number of bytes each primitive returns, and that decryption with the same key and initialization
  vector inverts encryption.
\<close>

definition mbedtls_ok :: "'g mbedtls \<Rightarrow> bool" where
  "mbedtls_ok lib \<longleftrightarrow>
     (\<forall>n g bs g'. drbg_random lib n g = (Some bs, g') \<longrightarrow> length bs = n) \<and>
     (\<forall>t p s k n bs. pbkdf2_hmac lib t p s k n = Some bs \<longrightarrow> length bs = n) \<and>
     (\<forall>t i j h. sha_finish lib t i = Some (j, h) \<longrightarrow> length h = unat (vic_hash_size (bytes (vic_hash_name t)))) \<and>
     (\<forall>c opr k iv x y. cipher_crypt lib c opr k iv x = Some y \<longrightarrow> length y = length x) \<and>
     (\<forall>c k iv x y. cipher_crypt lib c ENCRYPT k iv x = Some y \<longrightarrow> cipher_crypt lib c DECRYPT k iv y = Some x)"

text \<open>The primitives and the allocator do not fail.\<close>

definition mbedtls_works :: "'g mbedtls \<Rightarrow> bool" where
  "mbedtls_works lib \<longleftrightarrow>
     (\<forall>g. fst (drbg_seed lib g)) \<and> (\<forall>n g. fst (drbg_random lib n g) \<noteq> None) \<and> (\<forall>n g. fst (alloc lib n g)) \<and>
     (\<forall>t p s k n. built_in t \<longrightarrow> pbkdf2_hmac lib t p s k n \<noteq> None) \<and>
     (\<forall>t i. sha_starts lib t i \<noteq> None) \<and> (\<forall>t i bs. sha_update lib t i bs \<noteq> None) \<and> (\<forall>t i. sha_finish lib t i \<noteq> None) \<and>
     (\<forall>c. cipher_info lib c \<and> cipher_set_padding_none lib c \<and> cipher_block_size lib c = 16) \<and>
     (\<forall>c op k. cipher_setkey lib c op k) \<and>
     (\<forall>c op k iv x. length x mod 16 = 0 \<longrightarrow> cipher_crypt lib c op k iv x \<noteq> None)"

lemma mbedtls_okD:
  assumes "mbedtls_ok lib"
  shows "drbg_random lib n g = (Some bs, g') \<Longrightarrow> length bs = n"
    and "pbkdf2_hmac lib t p s k n = Some bs \<Longrightarrow> length bs = n"
    and "sha_finish lib t i = Some (j, h) \<Longrightarrow> length h = unat (vic_hash_size (bytes (vic_hash_name t)))"
    and "cipher_crypt lib c opr ck iv x = Some y \<Longrightarrow> length y = length x"
    and "cipher_crypt lib c ENCRYPT ck iv x = Some y \<Longrightarrow> cipher_crypt lib c DECRYPT ck iv y = Some x"
  using assms unfolding mbedtls_ok_def by metis+

section \<open>The round trip\<close>

lemma length_compute_xor [simp]: "length (compute_xor a b) = min (length a) (length b)"
  by (simp add: compute_xor_def)

lemma compute_xor_cancel: "length a = length b \<Longrightarrow> compute_xor a (compute_xor a b) = b"
  by (induction a b rule: list_induct2) (simp_all add: compute_xor_def xor.assoc [symmetric])

lemma chunk_length [simp]: "i + n \<le> length xs \<Longrightarrow> length (chunk i n xs) = n"
  by (simp add: chunk_def)

lemma chunk_overwrite_same: "i \<le> length xs \<Longrightarrow> chunk i (length bs) (overwrite i bs xs) = bs"
  by (simp add: chunk_def overwrite_def)

lemma chunk_overwrite_before: "j + n \<le> i \<Longrightarrow> i \<le> length xs \<Longrightarrow> chunk j n (overwrite i bs xs) = chunk j n xs"
  by (auto simp: chunk_def overwrite_def drop_take min_def)

lemma chunk_overwrite_after:
  "i + length bs \<le> j \<Longrightarrow> i + length bs \<le> length xs \<Longrightarrow> chunk j n (overwrite i bs xs) = chunk j n xs"
  by (simp add: chunk_def overwrite_def)

text \<open>As long as the last stripe is not reached, merging repeats what splitting did.\<close>

lemma afmerge_loop_gen:
  assumes "stripes * key_bytes < 2 ^ 32" and "set js \<subseteq> {i. Suc i < stripes}" and "stripes * key_bytes \<le> length src"
    and "\<And>i. i \<in> set js \<Longrightarrow> chunk (i * key_bytes) key_bytes src' = chunk (i * key_bytes) key_bytes src"
    and "length src' = length src" and "0 < key_bytes"
    and "gen_split_material lib spec src (of_nat key_bytes) js key w = (Done prev, w')"
  shows "afmerge_loop lib key_bytes stripes spec src' (js @ rest) key v = afmerge_loop lib key_bytes stripes spec src' rest prev v"
  using assms
proof (induction js arbitrary: key w)
  case (Cons i js)
  have i: "Suc i < stripes" using Cons.prems(2) by simp
  then have le: "Suc i * key_bytes \<le> stripes * key_bytes" by (simp only: mult_le_mono1 less_imp_le)
  then have ik: "i * key_bytes < 2 ^ 32" "key_bytes < 2 ^ 32" "stripes < 2 ^ 32"
    using Cons.prems(1,6) order_le_less_trans [of stripes "stripes * key_bytes" "2 ^ 32"] by auto
  then have pos: "unat (of_nat i * of_nat key_bytes :: u32) = i * key_bytes" "unat (of_nat key_bytes :: u32) = key_bytes"
    using unat_of_nat_small [of "i * key_bytes", where 'a = 32] by (simp_all add: unat_of_nat_small)
  let ?key = "compute_xor key (chunk (i * key_bytes) key_bytes src)"
  from Cons.prems(7) obtain d where d: "diffuse lib spec ?key = Some d"
    and g: "gen_split_material lib spec src (of_nat key_bytes) js d w = (Done prev, w')"
    by (auto simp: Let_def pos from_option_def split: if_splits option.splits)
  have "afmerge_loop lib key_bytes stripes spec src' (js @ rest) d v = afmerge_loop lib key_bytes stripes spec src' rest prev v"
    using Cons.prems(1-6) g by (intro Cons.IH) auto
  moreover have "\<not> length src' < Suc i * key_bytes" "Suc i mod 2 ^ 32 \<noteq> stripes"
    using le i ik Cons.prems(3,5) by auto
  ultimately show ?case
    using Cons.prems(4) [of i] by (simp add: Let_def d from_option_def)
qed simp

lemma hash_ctx_type:
  "vic_hash_init lib t = Some c \<Longrightarrow> ctx_type c = t \<and> built_in t"
  "vic_hash_start lib ctx = Some c \<Longrightarrow> ctx_type c = ctx_type ctx"
  "vic_hash_update lib ctx bs = Some c \<Longrightarrow> ctx_type c = ctx_type ctx"
  "vic_hash_finish lib ctx = Some (c, h) \<Longrightarrow> ctx_type c = ctx_type ctx"
  by (auto simp: vic_hash_init_def vic_hash_start_def vic_hash_update_def vic_hash_finish_def split: if_splits)

lemma vic_hash_finish_length:
  "mbedtls_ok lib \<Longrightarrow> vic_hash_finish lib ctx = Some (c, h) \<Longrightarrow> length h = unat (vic_hash_size (bytes (vic_hash_name (ctx_type ctx))))"
  by (auto simp: vic_hash_finish_def split: if_splits dest: mbedtls_okD(3))

lemma diffuse_block_length:
  assumes "mbedtls_ok lib" and "diffuse_block lib hs (ctx, data) i = Some (c, d)"
    and "hs = unat (vic_hash_size (bytes (vic_hash_name (ctx_type ctx))))" and "i * hs \<le> length data"
  shows "length d = length data \<and> ctx_type c = ctx_type ctx"
proof -
  from assms(2) obtain c1 c2 c3 h where c: "vic_hash_start lib ctx = Some c1" "vic_hash_update lib c1 (le_bytes 4 (vic_swap_u32 (of_nat i))) = Some c2"
    "vic_hash_update lib c2 (chunk (i * hs) (min hs (length data - i * hs)) data) = Some c3" "vic_hash_finish lib c3 = Some (c, h)"
    "d = overwrite (i * hs) (take (min hs (length data - i * hs)) h) data"
    by (auto simp: diffuse_block_def Let_def bind_eq_Some_conv)
  have "ctx_type c3 = ctx_type ctx" "ctx_type c = ctx_type ctx"
    using c(1-4) by (auto dest!: hash_ctx_type(2-4))
  with vic_hash_finish_length [OF assms(1) c(4)] assms(3,4) c(5) show ?thesis
    by (simp add: overwrite_def)
qed

lemma diffuse_loop_length:
  assumes "mbedtls_ok lib" and "diffuse_loop lib hs js (ctx, data) = Some (c, d)"
    and "hs = unat (vic_hash_size (bytes (vic_hash_name (ctx_type ctx))))" and "\<forall>i\<in>set js. i * hs \<le> length data"
  shows "length d = length data"
  using assms(2-4)
proof (induction js arbitrary: ctx data)
  case (Cons i js)
  then obtain c1 d1 where b: "diffuse_block lib hs (ctx, data) i = Some (c1, d1)" "diffuse_loop lib hs js (c1, d1) = Some (c, d)"
    by (auto split: option.splits)
  have "length d1 = length data" "ctx_type c1 = ctx_type ctx"
    using diffuse_block_length [OF assms(1) b(1)] Cons.prems(2,3) by auto
  with Cons.IH [OF b(2)] Cons.prems(2,3) show ?case by simp
qed simp

lemma hash_type_size: "vic_hash_type spec \<noteq> VIC_HASH_NONE \<Longrightarrow> vic_hash_size (bytes (vic_hash_name (vic_hash_type spec))) = vic_hash_size spec"
  by (simp add: vic_hash_type_def vic_hash_size_def str_eq_def cstr_def bytes_def split: if_splits)

lemma diffuse_length:
  assumes "mbedtls_ok lib" and "diffuse lib spec data = Some d"
  shows "length d = length data"
proof -
  let ?hs = "unat (vic_hash_size spec)" and ?n = "length data"
  from assms(2) obtain ctx c where t: "vic_hash_type spec \<noteq> VIC_HASH_NONE" "vic_hash_init lib (vic_hash_type spec) = Some ctx"
    and l: "diffuse_loop lib ?hs [0..<?n div ?hs + (if ?n mod ?hs = 0 then 0 else 1)] (ctx, data) = Some (c, d)"
    by (auto simp: diffuse_def Let_def bind_eq_Some_conv split: if_splits)
  from hash_ctx_type(1) [OF t(2)] hash_type_size [OF t(1)]
  have "?hs = unat (vic_hash_size (bytes (vic_hash_name (ctx_type ctx))))" by simp
  moreover have "i * ?hs \<le> ?n" if "i \<in> set [0..<?n div ?hs + (if ?n mod ?hs = 0 then 0 else 1)]" for i
  proof -
    from that have "i \<le> ?n div ?hs" by (auto split: if_splits)
    then have "i * ?hs \<le> ?n div ?hs * ?hs" by (rule mult_le_mono1)
    then show ?thesis by (rule order_trans) simp
  qed
  ultimately show ?thesis using diffuse_loop_length [OF assms(1) l] by blast
qed

lemma vic_random_loop_length:
  assumes "mbedtls_ok lib"
  shows "vic_random_loop lib n w = (Done bs :: ('e, u8 list) outcome, w') \<Longrightarrow> length bs = n"
proof (induction n arbitrary: w bs rule: less_induct)
  case (less n)
  show ?case
  proof (cases "n = 0")
    case False
    let ?k = "if n < 256 then n else 256"
    from less.prems [unfolded vic_random_loop.simps [of lib n w]] False obtain cs g rest where "drbg_random lib ?k (env w) = (Some cs, g)"
      "vic_random_loop lib (n - ?k) (w \<lparr> env := g \<rparr>) = (Done rest :: ('e, u8 list) outcome, w')" "bs = cs @ rest"
      by (auto simp: Let_def bnd_Done split: prod.splits option.splits if_splits)
    moreover have "length cs = ?k" by (rule mbedtls_okD(1) [OF assms calculation(1)])
    ultimately show ?thesis using less.IH [of "n - ?k"] False by auto
  qed (use less.prems in \<open>simp add: vic_random_loop.simps\<close>)
qed

lemma vic_random_length: "mbedtls_ok lib \<Longrightarrow> vic_random lib n w = (Done bs, w') \<Longrightarrow> length bs = n"
  by (auto simp: vic_random_def split: if_splits prod.splits bool.splits dest: vic_random_loop_length)

lemma gen_split_material_length:
  assumes "mbedtls_ok lib"
  shows "gen_split_material lib spec src keylen js prev w = (Done d, w') \<Longrightarrow> length prev = unat keylen \<Longrightarrow> length d = unat keylen"
proof (induction js arbitrary: prev)
  case (Cons i js)
  let ?x = "compute_xor prev (chunk (unat (of_nat i * keylen)) (unat keylen) src)"
  from Cons.prems obtain e where e: "diffuse lib spec ?x = Some e" "gen_split_material lib spec src keylen js e w = (Done d, w')"
      "\<not> length src < unat (of_nat i * keylen) + unat keylen"
    by (auto simp: Let_def from_option_def split: if_splits option.splits)
  then show ?case
    using Cons.IH [OF e(2)] diffuse_length [OF assms e(1)] Cons.prems(2) by simp
qed simp

text \<open>The conditions under which the products of both routines agree; they hold for every LUKS header in use.\<close>

definition af_sizes :: "u64 \<Rightarrow> u32 \<Rightarrow> bool" where
  "af_sizes key_size stripes \<longleftrightarrow> 0 < key_size \<and> key_size \<le> 128 \<and> 0 < stripes \<and> unat stripes * unat key_size < 2 ^ 32"

lemma af_sizes_unat:
  assumes "af_sizes key_size stripes"
  shows "unat (key_size * ucast stripes) = unat stripes * unat key_size"
    and "unat (stripes - 1) = unat stripes - 1"
    and "unat (ucast (stripes - 1) * key_size) = (unat stripes - 1) * unat key_size"
    and "ucast key_size = (of_nat (unat key_size) :: u32)"
    and "unat (ucast stripes :: u64) = unat stripes"
proof -
  note u = unat_ucast_up
  show "unat (ucast stripes :: u64) = unat stripes" by (rule u)
  show s: "unat (stripes - 1) = unat stripes - 1"
    using assms by (simp add: af_sizes_def unat_sub_small word_le_nat_alt word_less_nat_alt)
  have p: "unat stripes * unat key_size < 2 ^ 64" using assms by (simp add: af_sizes_def)
  then show "unat (key_size * ucast stripes) = unat stripes * unat key_size"
    by (subst unat_mult_small) (simp_all add: u mult.commute)
  have "(unat stripes - 1) * unat key_size < 2 ^ 64"
    using p by (simp add: diff_mult_distrib)
  then show "unat (ucast (stripes - 1) * key_size) = (unat stripes - 1) * unat key_size"
    by (subst unat_mult_small) (simp_all add: u s)
  show "ucast key_size = (of_nat (unat key_size) :: u32)"
    by (simp add: word_eq_unat unsigned_ucast_eq unsigned_of_nat)
qed

lemma vic_afmerge_afsplit:
  assumes ok: "mbedtls_ok lib" and sizes: "af_sizes key_size stripes" and key: "unat key_size \<le> length key"
    and split: "vic_afsplit lib spec key key_size stripes cap w = (Done split_key, w')"
  shows "vic_afmerge lib key_size (ucast stripes) spec split_key v = (Done (take (unat key_size) key), v)"
proof -
  let ?k = "unat key_size" and ?n = "unat stripes"
  note u = af_sizes_unat [OF sizes]
  have kn: "0 < ?k" "?k \<le> KEY_SIZE" "0 < ?n" "?n * ?k < 2 ^ 32"
    using sizes by (simp_all add: af_sizes_def KEY_SIZE_def word_less_nat_alt word_le_nat_alt)
  from split kn(2) obtain src prev w1 where
      r: "vic_random lib (?n * ?k) w = (Done src :: (unit, u8 list) outcome, w1)"
    and g: "gen_split_material lib spec src (of_nat ?k) [0..<?n - 1] (replicate ?k 0) w1 = (Done prev, w')"
    and b: "split_key = overwrite ((?n - 1) * ?k) (compute_xor prev (take ?k key)) src"
    unfolding vic_afsplit_def u Let_def by (auto simp: bnd_Done split: if_splits)
  have n32: "?n < 2 ^ 32" by (rule unat_u32)
  have len: "length src = ?n * ?k" using vic_random_length [OF ok r] .
  have prev: "length prev = ?k"
    using gen_split_material_length [OF ok g] kn by (simp add: unat_of_nat_small KEY_SIZE_def)
  have last: "(?n - 1) * ?k + ?k = ?n * ?k" using kn(3) by (simp add: diff_mult_distrib)
  have same: "chunk (i * ?k) ?k split_key = chunk (i * ?k) ?k src" if "Suc i < ?n" for i
  proof -
    have "Suc i * ?k \<le> (?n - 1) * ?k" using that by (intro mult_le_mono1) simp
    then show ?thesis unfolding b using last len by (intro chunk_overwrite_before) simp_all
  qed
  have final: "chunk ((?n - 1) * ?k) ?k split_key = compute_xor prev (take ?k key)"
    using chunk_overwrite_same [of "(?n - 1) * ?k" src "compute_xor prev (take ?k key)"] last len prev key
    by (simp add: b)
  have split_len: "length split_key = ?n * ?k"
    using last len prev key by (simp add: b)
  have "[0..<?n] = [0..<?n - 1] @ [?n - 1]" using kn(3) by (cases ?n) simp_all
  moreover have "afmerge_loop lib ?k ?n spec split_key ([0..<?n - 1] @ [?n - 1]) (replicate ?k 0) v
      = afmerge_loop lib ?k ?n spec split_key [?n - 1] prev v"
    by (rule afmerge_loop_gen [OF kn(4) _ _ same _ kn(1) g]) (use len split_len in auto)
  ultimately have "afmerge_loop lib ?k ?n spec split_key [0..<?n] (replicate ?k 0) v
      = afmerge_loop lib ?k ?n spec split_key [?n - 1] prev v" by (simp only:)
  also have "\<dots> = (Done (compute_xor prev (compute_xor prev (take ?k key))), v)"
    using split_len last kn final n32 by (simp add: Let_def)
  also have "compute_xor prev (compute_xor prev (take ?k key)) = take ?k key"
    using prev key by (intro compute_xor_cancel) simp
  finally show ?thesis
    using kn n32 by (simp add: vic_afmerge_def u min_def)
qed

section \<open>Success\<close>

text \<open>With primitives that do not fail the routines above do not fail, whatever the random bytes are.\<close>

lemma mbedtls_worksD:
  assumes "mbedtls_works lib"
  shows "fst (drbg_seed lib g)" and "fst (drbg_random lib n g) \<noteq> None" and "fst (alloc lib n g)"
    and "built_in t \<Longrightarrow> pbkdf2_hmac lib t p s k n \<noteq> None"
    and "sha_starts lib t i \<noteq> None" and "sha_update lib t i bs \<noteq> None" and "sha_finish lib t i \<noteq> None"
    and "cipher_info lib c" and "cipher_set_padding_none lib c" and "cipher_block_size lib c = 16" and "cipher_setkey lib c opr ck"
    and "length x mod 16 = 0 \<Longrightarrow> cipher_crypt lib c opr ck iv x \<noteq> None"
  using assms by (simp_all add: mbedtls_works_def)

lemma calloc_works: "mbedtls_works lib \<Longrightarrow> \<exists>g. calloc lib e n w = (Done (), w \<lparr> env := g \<rparr>)"
  using mbedtls_worksD(3) [of lib n "env w"] by (auto simp: calloc_def split: prod.splits)

lemma vic_random_loop_works:
  assumes "mbedtls_works lib"
  shows "\<exists>bs t. vic_random_loop lib n w = (Done bs :: ('e, u8 list) outcome, t) \<and> disk t = disk w"
proof (induction n arbitrary: w rule: less_induct)
  case (less n)
  show ?case
  proof (cases "n = 0")
    case True
    then show ?thesis by (simp add: vic_random_loop.simps)
  next
    case False
    let ?k = "if n < 256 then n else 256"
    obtain cs g where g: "drbg_random lib ?k (env w) = (Some cs, g)"
      using mbedtls_worksD(2) [OF assms, of ?k "env w"] by (cases "drbg_random lib ?k (env w)") auto
    have "n - ?k < n" using False by simp
    from less [OF this, of "w \<lparr> env := g \<rparr>"] obtain rest t where
      "vic_random_loop lib (n - ?k) (w \<lparr> env := g \<rparr>) = (Done rest :: ('e, u8 list) outcome, t)" "disk t = disk w" by auto
    then show ?thesis
      using False g by (subst vic_random_loop.simps) (simp add: Let_def)
  qed
qed

lemma vic_random_works:
  assumes "mbedtls_works lib" and "mbedtls_ok lib"
  shows "\<exists>bs t. vic_random lib n w = (Done bs :: ('e, u8 list) outcome, t) \<and> disk t = disk w \<and> length bs = n"
proof -
  obtain g where seed: "drbg_seed lib (env w) = (True, g)"
    using mbedtls_worksD(1) [OF assms(1), of "env w"] by (cases "drbg_seed lib (env w)") auto
  have "\<exists>bs t. vic_random lib n w = (Done bs :: ('e, u8 list) outcome, t) \<and> disk t = disk w"
    using vic_random_loop_works [OF assms(1), of n w, where 'e = 'e] seed
      vic_random_loop_works [OF assms(1), of n "w \<lparr> env := g, once := True \<rparr>", where 'e = 'e]
    by (cases "once w") (auto simp: vic_random_def)
  with vic_random_length [OF assms(2)] show ?thesis by blast
qed

lemma hash_works:
  assumes "mbedtls_works lib" and "built_in (ctx_type ctx)"
  shows "\<exists>c. vic_hash_start lib ctx = Some c" and "\<exists>c. vic_hash_update lib ctx bs = Some c" and "\<exists>c h. vic_hash_finish lib ctx = Some (c, h)"
  using assms mbedtls_worksD(5) [OF assms(1), of "ctx_type ctx" "impl ctx"] mbedtls_worksD(6) [OF assms(1), of "ctx_type ctx" "impl ctx" bs]
    mbedtls_worksD(7) [OF assms(1), of "ctx_type ctx" "impl ctx"]
  by (auto simp: vic_hash_start_def vic_hash_update_def vic_hash_finish_def)

lemma diffuse_block_works:
  assumes "mbedtls_works lib" and "built_in (ctx_type ctx)"
  shows "\<exists>c d. diffuse_block lib hs (ctx, data) i = Some (c, d) \<and> built_in (ctx_type c)"
proof -
  let ?iv = "le_bytes 4 (vic_swap_u32 (of_nat i))" and ?x = "chunk (i * hs) (min hs (length data - i * hs)) data"
  obtain c1 where 1: "vic_hash_start lib ctx = Some c1" using hash_works(1) [OF assms] by blast
  then have t1: "built_in (ctx_type c1)" using assms(2) by (simp add: hash_ctx_type(2))
  obtain c2 where 2: "vic_hash_update lib c1 ?iv = Some c2" using hash_works(2) [OF assms(1) t1] by blast
  then have t2: "built_in (ctx_type c2)" using t1 by (simp add: hash_ctx_type(3))
  obtain c3 where 3: "vic_hash_update lib c2 ?x = Some c3" using hash_works(2) [OF assms(1) t2] by blast
  then have t3: "built_in (ctx_type c3)" using t2 by (simp add: hash_ctx_type(3))
  obtain c h where 4: "vic_hash_finish lib c3 = Some (c, h)" using hash_works(3) [OF assms(1) t3] by blast
  with t3 have "built_in (ctx_type c)" by (simp add: hash_ctx_type(4))
  with 1 2 3 4 show ?thesis by (simp add: diffuse_block_def Let_def)
qed

lemma diffuse_works:
  assumes "mbedtls_works lib" and "built_in (vic_hash_type spec)"
  shows "\<exists>d. diffuse lib spec data = Some d"
proof -
  have loop: "\<exists>c d. diffuse_loop lib hs js (ctx, data) = Some (c, d)" if "built_in (ctx_type ctx)" for hs js ctx data
    using that
  proof (induction js arbitrary: ctx data)
    case (Cons i js)
    with diffuse_block_works [OF assms(1) Cons.prems, of hs data i] show ?case by fastforce
  qed simp
  have "vic_hash_size spec \<noteq> - 1"
    using assms(2) by (simp add: vic_hash_type_def vic_hash_size_def split: if_splits)
  let ?ctx = "\<lparr> ctx_type = vic_hash_type spec, impl = sha_init lib (vic_hash_type spec) \<rparr>"
    and ?hs = "unat (vic_hash_size spec)" and ?n = "length data"
  have "built_in (ctx_type ?ctx)" using assms(2) by simp
  from loop [OF this] obtain c d where
    "diffuse_loop lib ?hs [0..<?n div ?hs + (if ?n mod ?hs = 0 then 0 else 1)] (?ctx, data) = Some (c, d)" by blast
  moreover have "vic_hash_init lib (vic_hash_type spec) = Some ?ctx"
    using assms(2) by (simp add: vic_hash_init_def)
  ultimately show ?thesis
    using assms(2) \<open>vic_hash_size spec \<noteq> - 1\<close> by (simp add: diffuse_def Let_def del: upt_Suc)
qed

lemma vic_pbkdf2_works:
  assumes "mbedtls_works lib" and "mbedtls_ok lib" and "built_in (vic_hash_type spec)"
    and "pwd \<noteq> []" and "slt \<noteq> []" and "n \<noteq> 0" and "n \<le> 0xFFFFFFFF"
  shows "\<exists>k. vic_pbkdf2 lib pwd slt iter spec n = Some k \<and> length k = unat n"
proof -
  obtain k where "pbkdf2_hmac lib (vic_hash_type spec) pwd slt iter (unat n) = Some k"
    using mbedtls_worksD(4) [OF assms(1,3)] by blast
  with mbedtls_okD(2) [OF assms(2) this] assms(3-) show ?thesis
    by (simp add: vic_pbkdf2_def Let_def not_less)
qed

lemma vic_afsplit_works:
  assumes works: "mbedtls_works lib" "mbedtls_ok lib" and sizes: "af_sizes key_size stripes"
    and spec: "built_in (vic_hash_type spec)" and cap: "unat stripes * unat key_size \<le> cap"
    and key: "unat key_size \<le> length key"
  shows "\<exists>sk t. vic_afsplit lib spec key key_size stripes cap w = (Done sk, t) \<and> disk t = disk w \<and>
    length sk = unat stripes * unat key_size"
proof -
  let ?k = "unat key_size" and ?n = "unat stripes"
  note u = af_sizes_unat [OF sizes]
  have kn: "0 < ?k" "?k \<le> KEY_SIZE" "0 < ?n" "?n * ?k < 2 ^ 32"
    using sizes by (simp_all add: af_sizes_def KEY_SIZE_def word_less_nat_alt word_le_nat_alt)
  obtain src t where r: "vic_random lib (?n * ?k) w = (Done src :: (unit, u8 list) outcome, t)" "disk t = disk w" "length src = ?n * ?k"
    using vic_random_works [OF works] by blast
  define K where "K = (of_nat ?k :: u32)"
  have kb: "unat K = ?k" using kn(2) unfolding K_def by (subst unat_of_nat_small) (simp_all add: KEY_SIZE_def)
  have gen: "\<exists>prev. gen_split_material lib spec src K js p t = (Done prev, t)"
    if "set js \<subseteq> {i. i < ?n}" for js p
    using that
  proof (induction js arbitrary: p)
    case (Cons i js)
    have le: "Suc i * ?k \<le> ?n * ?k" using Cons.prems by (intro mult_le_mono1) auto
    then have "i * ?k < 2 ^ 32" using kn(4) by simp
    then have pos: "unat (of_nat i * K) = i * ?k"
      using unat_of_nat_small [of "i * ?k", where 'a = 32] by (simp add: K_def)
    obtain d where "diffuse lib spec (compute_xor p (chunk (i * ?k) ?k src)) = Some d"
      using diffuse_works [OF works(1) spec] by blast
    then show ?case
      using Cons le r(3) by (simp add: Let_def pos kb from_option_def)
  qed simp
  obtain prev where g: "gen_split_material lib spec src K [0..<?n - 1] (replicate ?k 0) t = (Done prev, t)"
    using gen [of "[0..<?n - 1]"] by fastforce
  have prev: "length prev = ?k"
    using gen_split_material_length [OF works(2) g] kb by simp
  have last: "(?n - 1) * ?k + ?k = ?n * ?k" using kn(3) by (simp add: diff_mult_distrib)
  have "vic_afsplit lib spec key key_size stripes cap w
      = (Done (overwrite ((?n - 1) * ?k) (compute_xor prev (take ?k key)) src), t)"
    using kn cap r g last unfolding vic_afsplit_def u Let_def K_def [symmetric] by simp
  moreover have "length (overwrite ((?n - 1) * ?k) (compute_xor prev (take ?k key)) src) = ?n * ?k"
    using last prev key r(3) by simp
  ultimately show ?thesis using r(2) by blast
qed

end
