(* ===== verification/Vic_Uuid.thy ===== *)
theory Vic_Uuid
  imports Vic_Crypto
begin

text \<open>
  Universally unique identifiers as text and as 16 bytes (\<^verbatim>\<open>uuid.c\<close>), and the conversions between bytes and
  hexadecimal text of \<^verbatim>\<open>hexdump.c\<close>, in \<^verbatim>\<open>src/src/vicsetup/libvicsetup\<close>. Text is an array of bytes without its
  terminating NUL. \<open>scan_hex\<close> is the conversion \<^verbatim>\<open>%x\<close> of \<^verbatim>\<open>sscanf\<close> with a field width: white space, a sign,
  an optional \<^verbatim>\<open>0x\<close> and at least one digit. What is printed is read back, and a text that
  \<^verbatim>\<open>vic_uuid_valid\<close> accepts can still make \<^verbatim>\<open>vic_uuid_str2bin\<close> write outside its buffer.
\<close>

section \<open>Hexadecimal digits\<close>

definition hex_digit :: "nat \<Rightarrow> u8" where
  "hex_digit n = of_nat (if n < 10 then 48 + n else 87 + n)"

text \<open>\<^verbatim>\<open>%02x\<close> of a byte.\<close>

definition hex_byte :: "u8 \<Rightarrow> u8 list" where
  "hex_byte b = [hex_digit (unat b div 16), hex_digit (unat b mod 16)]"

definition digit_value :: "u8 \<Rightarrow> nat option" where
  "digit_value c =
     (let n = unat c in if 48 \<le> n \<and> n \<le> 57 then Some (n - 48) else if 97 \<le> n \<and> n \<le> 102 then Some (n - 87)
      else if 65 \<le> n \<and> n \<le> 70 then Some (n - 55) else None)"

definition is_space :: "u8 \<Rightarrow> bool" where
  "is_space c = (9 \<le> unat c \<and> unat c \<le> 13 \<or> unat c = 32)"

fun scan_digits :: "nat \<Rightarrow> nat \<Rightarrow> u8 list \<Rightarrow> nat \<times> u8 list" where
  "scan_digits 0 v cs = (v, cs)"
| "scan_digits (Suc n) v [] = (v, [])"
| "scan_digits (Suc n) v (c # cs) =
     (case digit_value c of None \<Rightarrow> (v, c # cs) | Some d \<Rightarrow> scan_digits n (16 * v + d) cs)"

definition scan_number :: "nat \<Rightarrow> u8 list \<Rightarrow> (nat \<times> u8 list) option" where
  "scan_number width cs =
     (let (v, rest) = scan_digits width 0 cs in if length rest = length cs then None else Some (v, rest))"

definition hex_prefix :: "nat \<Rightarrow> u8 list \<Rightarrow> bool" where
  "hex_prefix width cs = (2 \<le> width \<and> 2 \<le> length cs \<and> cs ! 0 = 48 \<and> (cs ! 1 = 120 \<or> cs ! 1 = 88))"

definition scan_hex :: "nat \<Rightarrow> u8 list \<Rightarrow> (u64 \<times> u8 list) option" where
  "scan_hex width cs =
     (let cs = dropWhile is_space cs;
          signed = (cs \<noteq> [] \<and> (hd cs = 43 \<or> hd cs = 45));
          neg = (cs \<noteq> [] \<and> hd cs = 45);
          width = (if signed then width - 1 else width);
          cs = (if signed then tl cs else cs);
          prefixed = hex_prefix width cs
      in map_option (\<lambda>(v, rest). (if neg then - of_nat v else of_nat v, rest))
           (scan_number (if prefixed then width - 2 else width) (if prefixed then drop 2 cs else cs)))"

section \<open>Identifiers\<close>

definition vic_uuid_bin2str :: "u8 list \<Rightarrow> u8 list" where
  "vic_uuid_bin2str b =
     concat (map hex_byte (chunk 0 4 b)) @ [45] @ concat (map hex_byte (chunk 4 2 b)) @ [45] @
     concat (map hex_byte (chunk 6 2 b)) @ [45] @ concat (map hex_byte (chunk 8 2 b)) @ [45] @
     concat (map hex_byte (chunk 10 6 b))"

text \<open>The loop of \<^verbatim>\<open>vic_uuid_generate\<close> over the random bytes, which writes the dashes before bytes 4, 6, 8 and 10.\<close>

definition uuid_text :: "u8 list \<Rightarrow> u8 list" where
  "uuid_text bs = concat (map (\<lambda>i. (if i = 4 \<or> i = 6 \<or> i = 8 \<or> i = 10 then [45] else []) @ hex_byte (bs ! i)) [0..<16])"

definition vic_uuid_generate :: "'g mbedtls \<Rightarrow> (('s, 'g) world, 'e, u8 list) action" where
  "vic_uuid_generate lib = bnd (vic_random lib 16) (\<lambda>bs. give (uuid_text bs @ replicate 4 0))"

definition expect_dash :: "u8 list \<Rightarrow> u8 list option" where
  "expect_dash cs = (case cs of c # rest \<Rightarrow> if c = 45 then Some rest else None | [] \<Rightarrow> None)"

text \<open>\<^verbatim>\<open>sscanf(uuid, "%08x-%04x-%04x-%04x-%012lx", ...) == 5\<close>; what follows the last number is not looked at.\<close>

definition vic_uuid_valid :: "u8 list \<Rightarrow> bool" where
  "vic_uuid_valid uuid =
     (length uuid = 36 \<and>
      do { (x1, r) \<leftarrow> scan_hex 8 uuid; r \<leftarrow> expect_dash r; (x2, r) \<leftarrow> scan_hex 4 r; r \<leftarrow> expect_dash r;
           (x3, r) \<leftarrow> scan_hex 4 r; r \<leftarrow> expect_dash r; (x4, r) \<leftarrow> scan_hex 4 r; r \<leftarrow> expect_dash r;
           scan_hex 12 r } \<noteq> None)"

text \<open>
  \<open>cap\<close> is the room left in the 16 bytes of the result. After a number the source advances by two bytes, which
  leaves the text when only one is left.
\<close>

function str2bin_loop :: "nat \<Rightarrow> u8 list \<Rightarrow> (unit, u8 list) outcome" where
  "str2bin_loop cap src =
     (if src = [] then Done []
      else let src = (if hd src = 45 then tl src else src)
           in case scan_hex 2 src of
                None \<Rightarrow> Failed ()
              | Some (x, _) \<Rightarrow>
                  (if cap = 0 \<or> length src < 2 then Fault
                   else case str2bin_loop (cap - 1) (drop 2 src) of Done bs \<Rightarrow> Done (ucast x # bs) | r \<Rightarrow> r))"
  by pat_completeness auto
termination by (relation "measure (\<lambda>(cap, src). cap)") (auto simp: Let_def)

declare str2bin_loop.simps [simp del]

definition vic_uuid_str2bin :: "u8 list \<Rightarrow> (unit, u8 list) outcome" where
  "vic_uuid_str2bin s = (if \<not> vic_uuid_valid s then Failed () else str2bin_loop 16 s)"

section \<open>Bytes as text\<close>

definition vic_bin_to_ascii :: "'g mbedtls \<Rightarrow> u8 list \<Rightarrow> (('s, 'g) world, vic_result, u8 list) action" where
  "vic_bin_to_ascii lib bs =
     bnd (raise_if (bs = []) VIC_BAD_PARAMETER) (\<lambda>_.
     bnd (calloc lib VIC_OUT_OF_MEMORY (2 * length bs + 1)) (\<lambda>_.
     give (concat (map hex_byte bs))))"

fun ascii_loop :: "nat \<Rightarrow> u8 list \<Rightarrow> u8 list option" where
  "ascii_loop 0 cs = Some []"
| "ascii_loop (Suc n) cs =
     (case scan_hex 2 cs of None \<Rightarrow> None | Some (x, _) \<Rightarrow> map_option ((#) (ucast x)) (ascii_loop n (drop 2 cs)))"

definition vic_ascii_to_bin :: "'g mbedtls \<Rightarrow> u8 list \<Rightarrow> (('s, 'g) world, vic_result, u8 list) action" where
  "vic_ascii_to_bin lib ascii =
     bnd (raise_if (ascii = []) VIC_FAILED) (\<lambda>_.
     bnd (calloc lib VIC_OUT_OF_MEMORY (length ascii div 2)) (\<lambda>_.
     from_option VIC_UNEXPECTED (ascii_loop (length ascii div 2) ascii)))"

section \<open>Round trips\<close>

lemma hex_digit_facts:
  assumes "n < 16"
  shows "digit_value (hex_digit n) = Some n" and "\<not> is_space (hex_digit n)" and "hex_digit n \<noteq> 43" and "hex_digit n \<noteq> 45"
    and "hex_digit n \<noteq> 120" and "hex_digit n \<noteq> 88"
proof -
  have "list_all (\<lambda>n. digit_value (hex_digit n) = Some n \<and> \<not> is_space (hex_digit n) \<and> hex_digit n \<noteq> 43 \<and> hex_digit n \<noteq> 45 \<and>
      hex_digit n \<noteq> 120 \<and> hex_digit n \<noteq> 88) [0..<16]" by code_simp
  with assms show "digit_value (hex_digit n) = Some n" "\<not> is_space (hex_digit n)" "hex_digit n \<noteq> 43" "hex_digit n \<noteq> 45"
      "hex_digit n \<noteq> 120" "hex_digit n \<noteq> 88"
    by (simp_all add: list_all_iff)
qed

text \<open>A run of printed digits is scanned to the end when the field is wide enough for it.\<close>

lemma scan_digits_run:
  "\<forall>d\<in>set ds. d < 16 \<Longrightarrow> length ds = n \<Longrightarrow>
     scan_digits n v (map hex_digit ds @ rest) = (foldl (\<lambda>a d. 16 * a + d) v ds, rest)"
  by (induction ds arbitrary: n v) (auto simp: hex_digit_facts)

lemma scan_hex_run:
  assumes "\<forall>d\<in>set ds. d < 16" and "length ds = n" and "ds \<noteq> []"
  shows "scan_hex n (map hex_digit ds @ rest) = Some (of_nat (foldl (\<lambda>a d. 16 * a + d) 0 ds), rest)"
proof -
  from assms(3) obtain d es where ds: "ds = d # es" by (cases ds) auto
  then have d: "d < 16" "\<forall>e\<in>set es. e < 16" using assms(1) by auto
  let ?cs = "map hex_digit ds @ rest"
  have "dropWhile is_space ?cs = ?cs" using d by (simp add: ds hex_digit_facts)
  moreover have "\<not> hex_prefix n ?cs"
    using d assms(2) by (cases es) (auto simp: hex_prefix_def ds hex_digit_facts)
  moreover have "hd ?cs \<noteq> 43" "hd ?cs \<noteq> 45" using d by (simp_all add: ds hex_digit_facts)
  moreover have "scan_number n ?cs = Some (foldl (\<lambda>a d. 16 * a + d) 0 ds, rest)"
    using scan_digits_run [OF assms(1,2), of 0 rest] by (simp add: scan_number_def ds)
  ultimately show ?thesis unfolding scan_hex_def Let_def by simp
qed

definition nibbles :: "u8 \<Rightarrow> nat list" where
  "nibbles b = [unat b div 16, unat b mod 16]"

lemma nibble_less: "d \<in> set (nibbles b) \<Longrightarrow> d < 16"
proof -
  have "unat b < 2 ^ 8" by (rule order_less_le_trans [OF unsigned_less]) simp
  then show "d \<in> set (nibbles b) \<Longrightarrow> d < 16" by (auto simp: nibbles_def)
qed

lemma ucast_ucast_u8 [simp]: "ucast (ucast (b :: u8) :: u64) = b"
  by (rule bit_word_eqI) (simp add: bit_simps)

lemma hex_bytes_digits: "concat (map hex_byte bs) = map hex_digit (concat (map nibbles bs))"
  by (induction bs) (simp_all add: hex_byte_def nibbles_def)

lemma nibbles_length: "length (concat (map nibbles bs)) = 2 * length bs"
  by (induction bs) (simp_all add: nibbles_def)

lemma scan_hex_bytes:
  assumes "bs \<noteq> []" and "n = 2 * length bs"
  shows "\<exists>v. scan_hex n (concat (map hex_byte bs) @ rest) = Some (v, rest)"
proof -
  have "\<forall>d\<in>set (concat (map nibbles bs)). d < 16" using nibble_less by auto
  moreover have "length (concat (map nibbles bs)) = n" "concat (map nibbles bs) \<noteq> []"
    using assms nibbles_length [of bs] by (auto simp del: concat_eq_Nil_conv)
  ultimately show ?thesis unfolding hex_bytes_digits by (blast intro: scan_hex_run)
qed

lemma scan_hex_byte: "scan_hex 2 (hex_byte b @ rest) = Some (ucast b, rest)"
proof -
  have n: "\<forall>d\<in>set (nibbles b). d < 16" by (rule ballI) (rule nibble_less)
  have l: "length (nibbles b) = 2" "nibbles b \<noteq> []" by (simp_all add: nibbles_def)
  have f: "foldl (\<lambda>a d. 16 * a + d) 0 (nibbles b) = unat b" by (simp add: nibbles_def)
  have m: "map hex_digit (nibbles b) = hex_byte b" by (simp add: nibbles_def hex_byte_def)
  have "scan_hex 2 (hex_byte b @ rest) = Some (of_nat (unat b), rest)"
    using scan_hex_run [OF n l, of rest] unfolding f m .
  then show ?thesis by simp
qed

lemma ascii_loop_hex: "ascii_loop (length bs) (concat (map hex_byte bs) @ rest) = Some bs"
proof (induction bs)
  case (Cons b bs)
  have "drop 2 (hex_byte b @ concat (map hex_byte bs) @ rest) = concat (map hex_byte bs) @ rest"
    by (simp add: hex_byte_def)
  with Cons scan_hex_byte [of b "concat (map hex_byte bs) @ rest"] show ?case by simp
qed simp

lemma str2bin_bytes:
  "length bs \<le> cap \<Longrightarrow>
     str2bin_loop cap (concat (map hex_byte bs) @ rest) =
       (case str2bin_loop (cap - length bs) rest of Done cs \<Rightarrow> Done (bs @ cs) | r \<Rightarrow> r)"
proof (induction bs arbitrary: cap)
  case Nil
  show ?case by (cases "str2bin_loop cap rest") simp_all
next
  case (Cons b bs)
  have d: "hex_digit (unat b div 16) \<noteq> 45"
    using nibble_less [of "unat b div 16" b] by (simp add: hex_digit_facts nibbles_def)
  have "str2bin_loop cap (hex_byte b @ concat (map hex_byte bs) @ rest) =
      (case str2bin_loop (cap - 1) (concat (map hex_byte bs) @ rest) of Done cs \<Rightarrow> Done (b # cs) | r \<Rightarrow> r)"
    using Cons.prems d scan_hex_byte [of b "concat (map hex_byte bs) @ rest"]
    by (subst str2bin_loop.simps) (auto simp: hex_byte_def Let_def split: outcome.split)
  then show ?case
    using Cons.prems Cons.IH [of "cap - 1"] by (simp split: outcome.splits)
qed

lemma str2bin_dash:
  assumes "bs \<noteq> []" and "length bs \<le> cap"
  shows "str2bin_loop cap (45 # concat (map hex_byte bs) @ rest) = str2bin_loop cap (concat (map hex_byte bs) @ rest)"
proof -
  from assms obtain b cs where "bs = b # cs" by (cases bs) auto
  moreover have "hex_digit (unat b div 16) \<noteq> 45"
    using nibble_less [of "unat b div 16" b] by (simp add: hex_digit_facts nibbles_def)
  ultimately show ?thesis
    by (subst (1 2) str2bin_loop.simps) (simp add: hex_byte_def Let_def)
qed

lemma chunk_split:
  assumes "length b = 16"
  shows "chunk 0 4 b @ chunk 4 2 b @ chunk 6 2 b @ chunk 8 2 b @ chunk 10 6 b = b"
proof -
  have join: "chunk i m b @ chunk (i + m) n b = chunk i (m + n) b" for i m n
    by (simp add: chunk_def take_add add.commute)
  have "chunk 8 2 b @ chunk 10 6 b = chunk 8 8 b" using join [of 8 2 6] by simp
  moreover have "chunk 6 2 b @ chunk 8 8 b = chunk 6 10 b" using join [of 6 2 8] by simp
  moreover have "chunk 4 2 b @ chunk 6 10 b = chunk 4 12 b" using join [of 4 2 10] by simp
  moreover have "chunk 0 4 b @ chunk 4 12 b = chunk 0 16 b" using join [of 0 4 12] by simp
  ultimately show ?thesis using assms by (simp add: chunk_def)
qed

lemma uuid_chunks:
  assumes "length b = 16"
  shows "length (chunk 0 4 b) = 4" "length (chunk 4 2 b) = 2" "length (chunk 6 2 b) = 2" "length (chunk 8 2 b) = 2" "length (chunk 10 6 b) = 6"
    and "chunk 0 4 b \<noteq> []" "chunk 4 2 b \<noteq> []" "chunk 6 2 b \<noteq> []" "chunk 8 2 b \<noteq> []" "chunk 10 6 b \<noteq> []"
  using assms by (auto simp: chunk_def)

lemma vic_uuid_valid_bin2str:
  assumes "length b = 16"
  shows "vic_uuid_valid (vic_uuid_bin2str b)"
proof -
  note c = uuid_chunks [OF assms]
  let ?h = "\<lambda>i n. concat (map hex_byte (chunk i n b))"
  have l: "length (concat (map hex_byte bs)) = 2 * length bs" for bs
    unfolding hex_bytes_digits by (simp only: length_map nibbles_length)
  let ?r4 = "?h 10 6" let ?r3 = "?h 8 2 @ 45 # ?r4" let ?r2 = "?h 6 2 @ 45 # ?r3" let ?r1 = "?h 4 2 @ 45 # ?r2"
  obtain x1 where x1: "scan_hex 8 (?h 0 4 @ 45 # ?r1) = Some (x1, 45 # ?r1)" using scan_hex_bytes [OF c(6), of 8] c(1) by auto
  obtain x2 where x2: "scan_hex 4 ?r1 = Some (x2, 45 # ?r2)" using scan_hex_bytes [OF c(7), of 4] c(2) by auto
  obtain x3 where x3: "scan_hex 4 ?r2 = Some (x3, 45 # ?r3)" using scan_hex_bytes [OF c(8), of 4] c(3) by auto
  obtain x4 where x4: "scan_hex 4 ?r3 = Some (x4, 45 # ?r4)" using scan_hex_bytes [OF c(9), of 4] c(4) by auto
  obtain x5 where x5: "scan_hex 12 ?r4 = Some (x5, [])" using scan_hex_bytes [OF c(10), of 12 "[]"] c(5) by auto
  have "vic_uuid_bin2str b = ?h 0 4 @ 45 # ?r1" by (simp add: vic_uuid_bin2str_def)
  moreover have "length (?h 0 4 @ 45 # ?r1) = 36" using c(1-5) by (simp add: l)
  ultimately show ?thesis
    by (simp add: vic_uuid_valid_def x1 x2 x3 x4 x5 expect_dash_def)
qed

lemma vic_uuid_str2bin_bin2str:
  assumes "length b = 16"
  shows "vic_uuid_str2bin (vic_uuid_bin2str b) = Done b"
proof -
  note c = uuid_chunks [OF assms]
  have 1: "str2bin_loop 0 [] = Done []" by (simp add: str2bin_loop.simps)
  have 2: "str2bin_loop cap (45 # concat (map hex_byte bs) @ rest) = Done (bs @ cs)"
    if "bs \<noteq> []" "length bs \<le> cap" "str2bin_loop (cap - length bs) rest = Done cs" for bs cap rest cs
    using that str2bin_dash [OF that(1,2)] str2bin_bytes [OF that(2)] by simp
  have 3: "str2bin_loop 6 (45 # concat (map hex_byte (chunk 10 6 b)) @ []) = Done (chunk 10 6 b @ [])"
    by (rule 2) (use c 1 in simp_all)
  have 4: "str2bin_loop 8 (45 # concat (map hex_byte (chunk 8 2 b)) @ 45 # concat (map hex_byte (chunk 10 6 b))) = Done (chunk 8 2 b @ chunk 10 6 b)"
    by (rule 2) (use c 3 in simp_all)
  have 5: "str2bin_loop 10 (45 # concat (map hex_byte (chunk 6 2 b)) @ 45 # concat (map hex_byte (chunk 8 2 b)) @ 45 # concat (map hex_byte (chunk 10 6 b)))
      = Done (chunk 6 2 b @ chunk 8 2 b @ chunk 10 6 b)"
    by (rule 2) (use c 4 in simp_all)
  have 6: "str2bin_loop 12 (45 # concat (map hex_byte (chunk 4 2 b)) @ 45 # concat (map hex_byte (chunk 6 2 b)) @ 45 # concat (map hex_byte (chunk 8 2 b)) @ 45 # concat (map hex_byte (chunk 10 6 b)))
      = Done (chunk 4 2 b @ chunk 6 2 b @ chunk 8 2 b @ chunk 10 6 b)"
    by (rule 2) (use c 5 in simp_all)
  have "str2bin_loop 16 (vic_uuid_bin2str b) = Done b"
    using str2bin_bytes [of "chunk 0 4 b" 16] c(1) 6 chunk_split [OF assms] by (simp add: vic_uuid_bin2str_def)
  then show ?thesis
    using vic_uuid_valid_bin2str [OF assms] by (simp add: vic_uuid_str2bin_def)
qed

lemma uuid_text_bin2str: "length b = 16 \<Longrightarrow> uuid_text b = vic_uuid_bin2str b"
  by (auto simp: uuid_text_def vic_uuid_bin2str_def chunk_def length_Suc_conv numeral_eq_Suc)

end
