(* ===== verification/Luks1_Header.thy ===== *)
theory Luks1_Header
  imports Vic_Uuid
begin

text \<open>
  The LUKS1 header of \<^verbatim>\<open>luks1.h\<close> and its handling in the first half of
  \<^verbatim>\<open>src/src/vicsetup/libvicsetup/luks1.c\<close>: the checks, the byte order, the choice of the cipher, encryption by
  sectors, and reading and writing the header. Character arrays of the structure are lists of bytes of the
  declared length. The bytes of the structure follow the offsets that \<^verbatim>\<open>luks1.h\<close> asserts.
\<close>

section \<open>The structure\<close>

record vic_luks_keyslot =
  active :: u32
  iterations :: u32
  salt :: "u8 list"
  key_material_offset :: u32
  stripes :: u32

record luks1_hdr =
  hdr_magic :: "u8 list"
  version :: u16
  cipher_name :: "u8 list"
  cipher_mode :: "u8 list"
  hash_spec :: "u8 list"
  payload_offset :: u32
  key_bytes :: u32
  mk_digest :: "u8 list"
  mk_digest_salt :: "u8 list"
  mk_digest_iter :: u32
  uuid :: "u8 list"
  keyslots :: "vic_luks_keyslot list"

definition LUKS_MAGIC_1ST :: "u8 list" where "LUKS_MAGIC_1ST = bytes ''LUKS'' @ [0xba, 0xbe]"
definition LUKS_MAGIC_2ND :: "u8 list" where "LUKS_MAGIC_2ND = bytes ''SKUL'' @ [0xba, 0xbe]"
definition LUKS_KEY_DISABLED :: u32 where "LUKS_KEY_DISABLED = 0x0000dead"
definition LUKS_KEY_ENABLED :: u32 where "LUKS_KEY_ENABLED = 0x00ac71f3"
definition LUKS_STRIPES :: u32 where "LUKS_STRIPES = 4000"
definition LUKS_NUM_KEYS :: nat where "LUKS_NUM_KEYS = 8"
definition LUKS_ALIGN_KEYSLOTS :: u64 where "LUKS_ALIGN_KEYSLOTS = 4096"
definition LUKS_DISK_ALIGNMENT :: u64 where "LUKS_DISK_ALIGNMENT = 1024 * 1024"
definition VIC_SECTOR_SIZE :: u64 where "VIC_SECTOR_SIZE = 512"
definition LUKS_MIN_ITERATIONS :: u64 where "LUKS_MIN_ITERATIONS = 1000"

definition keyslot_bytes :: "vic_luks_keyslot \<Rightarrow> u8 list" where
  "keyslot_bytes ks =
     le_bytes 4 (active ks) @ le_bytes 4 (iterations ks) @ salt ks @ le_bytes 4 (key_material_offset ks) @ le_bytes 4 (stripes ks)"

definition hdr_bytes :: "luks1_hdr \<Rightarrow> u8 list" where
  "hdr_bytes h =
     hdr_magic h @ le_bytes 2 (version h) @ cipher_name h @ cipher_mode h @ hash_spec h @
     le_bytes 4 (payload_offset h) @ le_bytes 4 (key_bytes h) @ mk_digest h @ mk_digest_salt h @
     le_bytes 4 (mk_digest_iter h) @ uuid h @ concat (map keyslot_bytes (keyslots h))"

definition keyslot_of_bytes :: "u8 list \<Rightarrow> vic_luks_keyslot" where
  "keyslot_of_bytes bs =
     \<lparr> active = of_le_bytes (chunk 0 4 bs), iterations = of_le_bytes (chunk 4 4 bs), salt = chunk 8 32 bs,
       key_material_offset = of_le_bytes (chunk 40 4 bs), stripes = of_le_bytes (chunk 44 4 bs) \<rparr>"

definition hdr_of_bytes :: "u8 list \<Rightarrow> luks1_hdr" where
  "hdr_of_bytes bs =
     \<lparr> hdr_magic = chunk 0 6 bs, version = of_le_bytes (chunk 6 2 bs), cipher_name = chunk 8 32 bs, cipher_mode = chunk 40 32 bs,
       hash_spec = chunk 72 32 bs, payload_offset = of_le_bytes (chunk 104 4 bs), key_bytes = of_le_bytes (chunk 108 4 bs),
       mk_digest = chunk 112 20 bs, mk_digest_salt = chunk 132 32 bs, mk_digest_iter = of_le_bytes (chunk 164 4 bs),
       uuid = chunk 168 40 bs, keyslots = map (\<lambda>i. keyslot_of_bytes (chunk (208 + 48 * i) 48 bs)) [0..<8] \<rparr>"

definition keyslot_wf :: "vic_luks_keyslot \<Rightarrow> bool" where
  "keyslot_wf ks = (length (salt ks) = 32)"

definition hdr_wf :: "luks1_hdr \<Rightarrow> bool" where
  "hdr_wf h =
     (length (hdr_magic h) = 6 \<and> length (cipher_name h) = 32 \<and> length (cipher_mode h) = 32 \<and> length (hash_spec h) = 32 \<and>
      length (mk_digest h) = 20 \<and> length (mk_digest_salt h) = 32 \<and> length (uuid h) = 40 \<and> length (keyslots h) = 8 \<and>
      list_all keyslot_wf (keyslots h))"

section \<open>Checks and byte order\<close>

text \<open>A call whose result code is only compared with \<^verbatim>\<open>VIC_OK\<close>.\<close>

definition attempt :: "('s, 'd, 'a) action \<Rightarrow> ('s, 'e, 'a option) action" where
  "attempt m s =
     (case m s of (Done x, t) \<Rightarrow> (Done (Some x), t) | (Failed _, t) \<Rightarrow> (Done None, t) | (Fault, t) \<Rightarrow> (Fault, t)
        | (Abort, t) \<Rightarrow> (Abort, t) | (Diverge, t) \<Rightarrow> (Diverge, t))"

definition is_valid_device :: "'s vic_blockdev option \<Rightarrow> (('s, 'g) world, 'e, bool) action" where
  "is_valid_device dev =
     (if Option.is_none dev then give False
      else bnd (attempt (on_disk (vic_blockdev_get_block_size dev))) (\<lambda>r. give (r = Some VIC_SECTOR_SIZE)))"

definition is_valid_luks1_hdr :: "luks1_hdr \<Rightarrow> bool \<Rightarrow> bool" where
  "is_valid_luks1_hdr h swap =
     (hdr_magic h = LUKS_MAGIC_1ST \<and> (if swap then vic_swap_u16 (version h) = 1 else version h = 1))"

definition fix_keyslot_byte_order :: "vic_luks_keyslot \<Rightarrow> vic_luks_keyslot" where
  "fix_keyslot_byte_order p =
     p \<lparr> active := vic_swap_u32 (active p), iterations := vic_swap_u32 (iterations p),
         key_material_offset := vic_swap_u32 (key_material_offset p), stripes := vic_swap_u32 (stripes p) \<rparr>"

definition fix_luks1_hdr_byte_order :: "luks1_hdr \<Rightarrow> luks1_hdr" where
  "fix_luks1_hdr_byte_order h =
     h \<lparr> version := vic_swap_u16 (version h), payload_offset := vic_swap_u32 (payload_offset h),
         key_bytes := vic_swap_u32 (key_bytes h), mk_digest_iter := vic_swap_u32 (mk_digest_iter h),
         keyslots := map fix_keyslot_byte_order (keyslots h) \<rparr>"

definition valid_cipher_name :: "u8 list \<Rightarrow> bool" where
  "valid_cipher_name s =
     (length (cstr s) < 32 \<and> list_ex (str_eq s) [''aes'', ''twofish'', ''serpent'', ''cast5'', ''cast6''])"

definition valid_cipher_mode :: "u8 list \<Rightarrow> bool" where
  "valid_cipher_mode s =
     (length (cstr s) < 32 \<and>
      list_ex (str_eq s) [''ecb'', ''cbc-plain'', ''cbc-essiv:'', ''cbc-essiv:sha256'', ''cbc-essiv:sha512'',
        ''cbc-essiv:ripemd160'', ''xts-plain64''])"

definition valid_hash_spec :: "u8 list \<Rightarrow> bool" where
  "valid_hash_spec s = (length (cstr s) < 32 \<and> list_ex (str_eq s) [''sha1'', ''sha256'', ''sha512'', ''ripemd160''])"

section \<open>Ciphers\<close>

definition get_cipher_info :: "'g mbedtls \<Rightarrow> luks1_hdr \<Rightarrow> cipher_type option" where
  "get_cipher_info lib h =
     (let key_bits = key_bytes h * 8;
          ct = (if \<not> str_eq (cipher_name h) ''aes'' then None
                else if str_eq (cipher_mode h) ''ecb''
                then (if key_bits = 128 then Some AES_128_ECB else if key_bits = 256 then Some AES_256_ECB else None)
                else if str_eq (cipher_mode h) ''cbc-plain''
                then (if key_bits = 128 then Some AES_128_CBC else if key_bits = 256 then Some AES_256_CBC else None)
                else if str_eq (cipher_mode h) ''xts-plain64''
                then (if key_bits div 2 = 128 then Some AES_128_XTS else if key_bits div 2 = 256 then Some AES_256_XTS else None)
                else None)
      in case ct of None \<Rightarrow> None | Some c \<Rightarrow> if cipher_info lib c then Some c else None)"

text \<open>\<^verbatim>\<open>key\<close> is the whole key structure; the hash is taken over its first \<^verbatim>\<open>key_bytes\<close> bytes.\<close>

definition gen_iv :: "'g mbedtls \<Rightarrow> luks1_hdr \<Rightarrow> u64 \<Rightarrow> u8 list \<Rightarrow> (unit, u8 list) outcome" where
  "gen_iv lib h sector key =
     (if str_eq (cipher_mode h) ''ecb'' then Done (replicate 16 0)
      else if str_eq (cipher_mode h) ''cbc-plain'' then Done (le_bytes 4 (ucast sector :: u32) @ replicate 12 0)
      else if str_eq (cipher_mode h) ''xts-plain64'' then Done (le_bytes 8 sector @ replicate 8 0)
      else if length key < unat (key_bytes h) then Fault
      else case vic_hash1 lib VIC_HASH_SHA256 (take (unat (key_bytes h)) key) of
             None \<Rightarrow> Failed ()
           | Some hash \<Rightarrow> (case aes_ecb_encrypt lib hash (le_bytes 8 sector @ replicate 8 0) of
                             None \<Rightarrow> Failed () | Some iv \<Rightarrow> Done iv))"

text \<open>The loop of \<^verbatim>\<open>_crypt\<close> from block \<open>i\<close> on; \<open>n\<close> blocks are left. The output is what the caller's buffer holds.\<close>

fun crypt_loop :: "'g mbedtls \<Rightarrow> luks1_hdr \<Rightarrow> cipher_type \<Rightarrow> operation \<Rightarrow> u8 list \<Rightarrow> nat \<Rightarrow> u64 \<Rightarrow> u8 list \<Rightarrow> nat \<Rightarrow> nat \<Rightarrow> (unit, u8 list) outcome" where
  "crypt_loop lib h ci opr key bsize sector data i 0 = Done []"
| "crypt_loop lib h ci opr key bsize sector data i (Suc n) =
     (case gen_iv lib h (sector + of_nat i) key of
        Done iv \<Rightarrow>
          (if length data < Suc i * bsize then Fault
           else case cipher_crypt lib ci opr (take (unat (key_bytes h * 8) div 8) key) iv (chunk (i * bsize) bsize data) of
                  None \<Rightarrow> Failed ()
                | Some y \<Rightarrow>
                    (if length y \<noteq> bsize then Failed ()
                     else case crypt_loop lib h ci opr key bsize sector data (Suc i) n of
                            Done ys \<Rightarrow> Done (y @ ys) | r \<Rightarrow> r))
      | Failed _ \<Rightarrow> Failed () | Fault \<Rightarrow> Fault | Abort \<Rightarrow> Abort | Diverge \<Rightarrow> Diverge)"

text \<open>
  The output buffer was cleared when it was allocated; bytes after the last whole block stay zero.
\<close>

definition crypt :: "'g mbedtls \<Rightarrow> luks1_hdr \<Rightarrow> operation \<Rightarrow> u8 list \<Rightarrow> u8 list \<Rightarrow> nat \<Rightarrow> u64 \<Rightarrow> (unit, u8 list) outcome" where
  "crypt lib h opr key data data_size sector =
     (case get_cipher_info lib h of None \<Rightarrow> Failed ()
      | Some ci \<Rightarrow>
          (if \<not> cipher_setkey lib ci opr (take (unat (key_bytes h * 8) div 8) key) then Failed ()
           else if str_eq (cipher_mode h) ''cbc-plain'' \<and> \<not> cipher_set_padding_none lib ci then Failed ()
           else let bsize = (if str_eq (cipher_mode h) ''ecb'' then unat (cipher_block_size lib ci) else 512)
                in case crypt_loop lib h ci opr key bsize sector data 0 (data_size div bsize) of
                     Done ys \<Rightarrow> Done (ys @ replicate (data_size - length ys) 0) | r \<Rightarrow> r))"

definition encrypt :: "'g mbedtls \<Rightarrow> luks1_hdr \<Rightarrow> u8 list \<Rightarrow> u8 list \<Rightarrow> nat \<Rightarrow> u64 \<Rightarrow> (unit, u8 list) outcome" where
  "encrypt lib h key data data_size sector = crypt lib h ENCRYPT key data data_size sector"

definition decrypt :: "'g mbedtls \<Rightarrow> luks1_hdr \<Rightarrow> u8 list \<Rightarrow> u8 list \<Rightarrow> nat \<Rightarrow> u64 \<Rightarrow> (unit, u8 list) outcome" where
  "decrypt lib h key data data_size sector = crypt lib h DECRYPT key data data_size sector"

section \<open>Reading and writing the header\<close>

definition luks1_read_hdr :: "'g mbedtls \<Rightarrow> 's vic_blockdev option \<Rightarrow> (('s, 'g) world, unit, luks1_hdr) action" where
  "luks1_read_hdr lib dev =
     bnd (is_valid_device dev) (\<lambda>ok.
     bnd (raise_if (\<not> ok) ()) (\<lambda>_.
     bnd (or_raise () (on_disk (vic_blockdev_get dev 0 2))) (\<lambda>blocks.
     let h = hdr_of_bytes blocks
     in bnd (raise_if (\<not> is_valid_luks1_hdr h True) ()) (\<lambda>_.
        bnd (calloc lib () 592) (\<lambda>_. give (fix_luks1_hdr_byte_order h))))))"

definition write_luks1_hdr :: "'s vic_blockdev option \<Rightarrow> luks1_hdr \<Rightarrow> (('s, 'g) world, unit, unit) action" where
  "write_luks1_hdr dev h =
     bnd (raise_if (Option.is_none dev) ()) (\<lambda>_.
     let b = hdr_bytes (fix_luks1_hdr_byte_order h)
     in or_raise () (on_disk (vic_blockdev_put dev 0 (b @ replicate (1024 - length b) 0) 2)))"

section \<open>The header survives writing and reading\<close>

lemma chunk_concat:
  assumes "\<forall>x\<in>set xs. length x = n" and "i < length xs"
  shows "chunk (n * i) n (concat xs @ rest) = xs ! i"
  using assms
proof (induction xs arbitrary: i)
  case (Cons x xs)
  then show ?case by (cases i) (simp_all add: chunk_def)
qed simp

lemma chunk_append: "length xs \<le> i \<Longrightarrow> chunk i n (xs @ ys) = chunk (i - length xs) n ys"
  by (simp add: chunk_def)

lemma chunk_append_first: "n = length xs \<Longrightarrow> chunk 0 n (xs @ ys) = xs"
  by (simp add: chunk_def)

lemma keyslot_bytes_length: "keyslot_wf ks \<Longrightarrow> length (keyslot_bytes ks) = 48"
  by (simp add: keyslot_bytes_def keyslot_wf_def)

lemma keyslot_round_trip: "keyslot_wf ks \<Longrightarrow> keyslot_of_bytes (keyslot_bytes ks) = ks"
  by (simp add: keyslot_of_bytes_def keyslot_bytes_def keyslot_wf_def chunk_append chunk_append_first)
    (simp add: chunk_def)

lemma hdr_bytes_length: "hdr_wf h \<Longrightarrow> length (hdr_bytes h) = 592"
proof -
  assume wf: "hdr_wf h"
  have "length (concat (map keyslot_bytes ks)) = 48 * length ks" if "list_all keyslot_wf ks" for ks
    using that by (induction ks) (simp_all add: keyslot_bytes_length)
  with wf show ?thesis by (simp add: hdr_bytes_def hdr_wf_def)
qed

lemma hdr_round_trip:
  assumes "hdr_wf h"
  shows "hdr_of_bytes (hdr_bytes h @ rest) = h"
proof -
  have slots: "map (\<lambda>i. keyslot_of_bytes (chunk (48 * i) 48 (concat (map keyslot_bytes (keyslots h)) @ rest))) [0..<8] = keyslots h"
  proof (rule nth_equalityI)
    fix i assume "i < length (map (\<lambda>i. keyslot_of_bytes (chunk (48 * i) 48 (concat (map keyslot_bytes (keyslots h)) @ rest))) [0..<8])"
    then have i: "i < length (keyslots h)" using assms by (simp add: hdr_wf_def)
    have "chunk (48 * i) 48 (concat (map keyslot_bytes (keyslots h)) @ rest) = keyslot_bytes (keyslots h ! i)"
      using chunk_concat [of "map keyslot_bytes (keyslots h)" 48 i rest] i assms
      by (simp add: hdr_wf_def list_all_iff keyslot_bytes_length)
    moreover have "keyslot_wf (keyslots h ! i)" using i assms by (simp add: hdr_wf_def list_all_length)
    ultimately show "map (\<lambda>i. keyslot_of_bytes (chunk (48 * i) 48 (concat (map keyslot_bytes (keyslots h)) @ rest))) [0..<8] ! i = keyslots h ! i"
      using i assms by (simp add: hdr_wf_def keyslot_round_trip del: upt_Suc)
  qed (use assms in \<open>simp add: hdr_wf_def\<close>)
  then show ?thesis
    using assms unfolding hdr_wf_def hdr_of_bytes_def hdr_bytes_def
    by (simp add: chunk_append chunk_append_first del: upt_Suc)
qed

lemma fix_keyslot_involution [simp]: "fix_keyslot_byte_order (fix_keyslot_byte_order p) = p"
  by (simp add: fix_keyslot_byte_order_def)

lemma fix_hdr_involution [simp]: "fix_luks1_hdr_byte_order (fix_luks1_hdr_byte_order h) = h"
  by (simp add: fix_luks1_hdr_byte_order_def comp_def)

lemma fix_hdr_wf [simp]: "hdr_wf (fix_luks1_hdr_byte_order h) = hdr_wf h"
  by (simp add: hdr_wf_def fix_luks1_hdr_byte_order_def list_all_iff keyslot_wf_def fix_keyslot_byte_order_def)

lemma fix_hdr_valid [simp]: "is_valid_luks1_hdr (fix_luks1_hdr_byte_order h) True = is_valid_luks1_hdr h False"
  by (simp add: is_valid_luks1_hdr_def fix_luks1_hdr_byte_order_def)

end
