(* ===== verification/Luks1.thy ===== *)
theory Luks1
  imports Luks1_Header
begin

text \<open>
  The operations on LUKS1 volumes: the second half of \<^verbatim>\<open>src/src/vicsetup/libvicsetup/luks1.c\<close> and the routines of
  \<^verbatim>\<open>luks.c\<close> it calls back. A null pointer argument is \<open>None\<close>; keys and passwords are lists of bytes. Products of
  32-bit fields are 32-bit products, as in the source. A key longer than the 128 bytes of \<^verbatim>\<open>vic_key_t\<close> is a
  \<open>Fault\<close> where the source writes it without a check.
\<close>

section \<open>Key material\<close>

definition lift_outcome :: "('e, 'a) outcome \<Rightarrow> ('s, 'e, 'a) action" where
  "lift_outcome r s = (r, s)"

definition write_key_material ::
    "'g mbedtls \<Rightarrow> 's vic_blockdev option \<Rightarrow> luks1_hdr \<Rightarrow> vic_luks_keyslot \<Rightarrow> u8 list option \<Rightarrow> (('s, 'g) world, unit, unit) action" where
  "write_key_material lib dev h ks buf =
     bnd (raise_if (Option.is_none dev) ()) (\<lambda>_.
     let blkno = ucast (key_material_offset ks);
         nblocks = ucast ((stripes ks * key_bytes h) div 512)
     in case buf of
          Some bs \<Rightarrow> or_raise () (on_disk (vic_blockdev_put dev blkno bs nblocks))
        | None \<Rightarrow>
            bnd (calloc lib () (unat (stripes ks * key_bytes h))) (\<lambda>_.
            or_raise () (on_disk (vic_blockdev_put dev blkno (replicate (unat (stripes ks * key_bytes h)) 0) nblocks))))"

text \<open>The buffer holds \<^verbatim>\<open>stripes * key_bytes\<close> cleared bytes; the blocks read replace the first of them.\<close>

definition read_key_material ::
    "'s vic_blockdev option \<Rightarrow> luks1_hdr \<Rightarrow> vic_luks_keyslot \<Rightarrow> (('s, 'g) world, unit, u8 list) action" where
  "read_key_material dev h ks =
     bnd (raise_if (Option.is_none dev) ()) (\<lambda>_.
     let blkno = ucast (key_material_offset ks);
         sz = stripes ks * key_bytes h;
         nblocks = ucast (sz div 512)
     in bnd (or_raise () (on_disk (vic_blockdev_get dev blkno nblocks))) (\<lambda>bs.
        give (bs @ replicate (unat sz - length bs) 0)))"

section \<open>A new header\<close>

definition cfield :: "nat \<Rightarrow> u8 list \<Rightarrow> u8 list" where
  "cfield n s = cstr s @ replicate (n - length (cstr s)) 0"

text \<open>The loop over the key slots: \<open>n\<close> slots from a byte offset on, and the offset after the last.\<close>

fun layout_slots :: "u64 \<Rightarrow> nat \<Rightarrow> u64 \<Rightarrow> vic_luks_keyslot list \<times> u64" where
  "layout_slots sectors 0 byte_offset = ([], byte_offset)"
| "layout_slots sectors (Suc n) byte_offset =
     (let pos = vic_round_up byte_offset LUKS_ALIGN_KEYSLOTS;
          ks = \<lparr> active = LUKS_KEY_DISABLED, iterations = 0, salt = replicate 32 0,
                 key_material_offset = ucast (pos div VIC_SECTOR_SIZE), stripes = LUKS_STRIPES \<rparr>;
          (rest, last) = layout_slots sectors n (pos + sectors * VIC_SECTOR_SIZE)
      in (ks # rest, last))"

definition initialize_hdr ::
    "'g mbedtls \<Rightarrow> u16 \<Rightarrow> u8 list \<Rightarrow> u8 list \<Rightarrow> u8 list \<Rightarrow> u64 \<Rightarrow> u8 list \<Rightarrow> u8 list option \<Rightarrow> u64 \<Rightarrow> (('s, 'g) world, unit, luks1_hdr) action" where
  "initialize_hdr lib ver cname cmode master_key master_key_bytes spec uid mk_iterations =
     bnd (raise_if (ver \<noteq> 1) ()) (\<lambda>_.
     bnd (raise_if (\<not> valid_cipher_name cname) ()) (\<lambda>_.
     bnd (raise_if (\<not> valid_cipher_mode cmode) ()) (\<lambda>_.
     bnd (raise_if (master_key_bytes = 0) ()) (\<lambda>_.
     bnd (raise_if (\<not> valid_hash_spec spec) ()) (\<lambda>_.
     bnd (vic_random lib 32) (\<lambda>dsalt.
     let iter = ucast mk_iterations; field = cfield 32 spec
     in if length master_key < unat master_key_bytes then fault
     else bnd (from_option () (vic_pbkdf2 lib (take (unat master_key_bytes) master_key) dsalt iter field 20)) (\<lambda>digest.
     let base_offset = 592 div VIC_SECTOR_SIZE + 1;
         sectors = ucast LUKS_STRIPES * master_key_bytes div VIC_SECTOR_SIZE + 1;
         (slots, end_offset) = layout_slots sectors LUKS_NUM_KEYS (base_offset * VIC_SECTOR_SIZE);
         h = \<lparr> hdr_magic = LUKS_MAGIC_1ST, version = 1, cipher_name = cfield 32 cname, cipher_mode = cfield 32 cmode,
               hash_spec = field, payload_offset = ucast (vic_round_up end_offset LUKS_DISK_ALIGNMENT div VIC_SECTOR_SIZE),
               key_bytes = ucast master_key_bytes, mk_digest = digest, mk_digest_salt = dsalt, mk_digest_iter = iter,
               uuid = replicate 40 0, keyslots = slots \<rparr>
     in case uid of
          Some u \<Rightarrow> bnd (raise_if (\<not> vic_uuid_valid u) ()) (\<lambda>_. give (h \<lparr> uuid := cfield 40 u \<rparr>))
        | None \<Rightarrow> bnd (vic_uuid_generate lib) (\<lambda>u. give (h \<lparr> uuid := u \<rparr>)))))))))"

definition LUKS_DEFAULT_HASH :: "u8 list" where "LUKS_DEFAULT_HASH = bytes ''sha256''"

definition luks1_format ::
    "'g mbedtls \<Rightarrow> 's vic_blockdev option \<Rightarrow> u8 list option \<Rightarrow> u8 list option \<Rightarrow> u8 list option \<Rightarrow> u8 list option \<Rightarrow>
     u64 \<Rightarrow> u8 list option \<Rightarrow> u64 \<Rightarrow> (('s, 'g) world, vic_result, unit) action" where
  "luks1_format lib dev cname cmode uid hash mk_iterations master_key master_key_bytes =
     bnd (is_valid_device dev) (\<lambda>ok.
     case (cname, cmode) of
       (Some cn, Some cm) \<Rightarrow>
         bnd (raise_if (\<not> ok) VIC_BAD_PARAMETER) (\<lambda>_.
         bnd (raise_if (master_key \<noteq> None \<and> master_key_bytes = 0) VIC_BAD_PARAMETER) (\<lambda>_.
         bnd (raise_if (master_key \<noteq> None \<and> KEY_SIZE < unat master_key_bytes) VIC_KEY_TOO_BIG) (\<lambda>_.
         bnd (case master_key of
                Some k \<Rightarrow> give (k, master_key_bytes)
              | None \<Rightarrow> bnd (vic_random lib KEY_SIZE) (\<lambda>k. give (k, of_nat KEY_SIZE))) (\<lambda>(k, kb).
         let iter = (if mk_iterations < LUKS_MIN_ITERATIONS then LUKS_MIN_ITERATIONS else mk_iterations);
             spec = (case hash of Some s \<Rightarrow> s | None \<Rightarrow> LUKS_DEFAULT_HASH)
         in bnd (or_raise VIC_FAILED (initialize_hdr lib 1 cn cm k kb spec uid iter)) (\<lambda>h.
         bnd (on_disk (vic_blockdev_get_num_blocks dev)) (\<lambda>num_blocks.
         bnd (raise_if (num_blocks \<le> ucast (payload_offset h)) VIC_DEVICE_TOO_SMALL) (\<lambda>_.
         or_raise VIC_HEADER_WRITE_FAILED (write_luks1_hdr dev h))))))))
     | _ \<Rightarrow> raise VIC_BAD_PARAMETER)"

section \<open>Key slots\<close>

fun find_disabled :: "nat \<Rightarrow> vic_luks_keyslot list \<Rightarrow> nat option" where
  "find_disabled i [] = None"
| "find_disabled i (ks # kss) = (if active ks = LUKS_KEY_DISABLED then Some i else find_disabled (Suc i) kss)"

text \<open>\<open>add_key\<close> returns the changed header, the encrypted stripes and the number of the slot it took.\<close>

definition add_key ::
    "'g mbedtls \<Rightarrow> luks1_hdr \<Rightarrow> u8 list \<Rightarrow> u8 list \<Rightarrow> u64 \<Rightarrow> (('s, 'g) world, unit, luks1_hdr \<times> u8 list \<times> nat) action" where
  "add_key lib h master_key pwd slot_iterations =
     bnd (raise_if (KEY_SIZE < unat (key_bytes h)) ()) (\<lambda>_.
     bnd (from_option () (find_disabled 0 (keyslots h))) (\<lambda>index.
     bnd (vic_random lib 32) (\<lambda>slt.
     let ks = (keyslots h ! index) \<lparr> active := LUKS_KEY_ENABLED, iterations := ucast slot_iterations, salt := slt \<rparr>;
         sz = unat (key_bytes h * stripes ks)
     in bnd (raise_if (sz = 0) ()) (\<lambda>_.
        bnd (calloc lib () sz) (\<lambda>_.
        bnd (calloc lib () sz) (\<lambda>_.
        bnd (from_option () (vic_pbkdf2 lib pwd (salt ks) (iterations ks) (hash_spec h) (ucast (key_bytes h)))) (\<lambda>pbkdf2_key.
        bnd (vic_afsplit lib (hash_spec h) master_key (ucast (key_bytes h)) (stripes ks) sz) (\<lambda>plain.
        bnd (lift_outcome (encrypt lib h pbkdf2_key plain sz 0)) (\<lambda>cipher.
        give (h \<lparr> keyslots := (keyslots h)[index := ks] \<rparr>, cipher, index))))))))))"

text \<open>One slot of the loop of \<^verbatim>\<open>_find_key_by_pwd\<close>: the key its material gives under the password, when the digest agrees.\<close>

definition try_slot ::
    "'g mbedtls \<Rightarrow> 's vic_blockdev option \<Rightarrow> luks1_hdr \<Rightarrow> u8 list \<Rightarrow> vic_luks_keyslot \<Rightarrow> (('s, 'g) world, vic_result, u8 list option) action" where
  "try_slot lib dev h pwd ks =
     bnd (from_option VIC_PBKDF2_FAILED (vic_pbkdf2 lib pwd (salt ks) (iterations ks) (hash_spec h) (ucast (key_bytes h)))) (\<lambda>pbkdf2_key.
     if KEY_SIZE < unat (key_bytes h) then fault
     else let sz = unat (stripes ks * key_bytes h)
     in bnd (calloc lib VIC_OUT_OF_MEMORY sz) (\<lambda>_.
        bnd (or_raise VIC_KEY_MATERIAL_READ_FAILED (read_key_material dev h ks)) (\<lambda>cipher.
        bnd (calloc lib VIC_OUT_OF_MEMORY sz) (\<lambda>_.
        bnd (or_raise VIC_DECRYPT_FAILED (lift_outcome (decrypt lib h pbkdf2_key cipher sz 0))) (\<lambda>plain.
        bnd (or_raise VIC_AFMERGE_FAILED (vic_afmerge lib (ucast (key_bytes h)) (ucast (stripes ks)) (hash_spec h) plain)) (\<lambda>mk.
        bnd (from_option VIC_PBKDF2_FAILED (vic_pbkdf2 lib mk (mk_digest_salt h) (mk_digest_iter h) (hash_spec h) 20)) (\<lambda>digest.
        give (if mk_digest h = digest then Some mk else None))))))))"

fun find_key_by_pwd ::
    "'g mbedtls \<Rightarrow> 's vic_blockdev option \<Rightarrow> luks1_hdr \<Rightarrow> u8 list \<Rightarrow> nat list \<Rightarrow> (('s, 'g) world, vic_result, u8 list \<times> nat) action" where
  "find_key_by_pwd lib dev h pwd [] = raise VIC_NOT_FOUND"
| "find_key_by_pwd lib dev h pwd (i # js) =
     (if active (keyslots h ! i) = LUKS_KEY_ENABLED
      then bnd (try_slot lib dev h pwd (keyslots h ! i)) (\<lambda>r.
           case r of Some mk \<Rightarrow> give (mk, i) | None \<Rightarrow> find_key_by_pwd lib dev h pwd js)
      else find_key_by_pwd lib dev h pwd js)"

section \<open>The interface\<close>

text \<open>The fields LUKS1 and LUKS2 headers have in common (\<^verbatim>\<open>lukscommon.h\<close>, \<^verbatim>\<open>luks.c\<close>).\<close>

record vic_luks_hdr =
  luks_magic :: "u8 list"
  luks_version :: u16
  luks_uuid :: "u8 list"

definition vic_luks_read_hdr :: "'s vic_blockdev option \<Rightarrow> (('s, 'g) world, unit, vic_luks_hdr) action" where
  "vic_luks_read_hdr dev =
     bnd (or_raise () (on_disk (vic_blockdev_get_block_size dev))) (\<lambda>n.
     bnd (raise_if (n \<noteq> VIC_SECTOR_SIZE) ()) (\<lambda>_.
     bnd (is_valid_device dev) (\<lambda>ok.
     bnd (raise_if (\<not> ok) ()) (\<lambda>_.
     bnd (or_raise () (on_disk (vic_blockdev_get dev 0 1))) (\<lambda>block.
     let m = chunk 0 6 block
     in bnd (raise_if (m \<noteq> LUKS_MAGIC_1ST \<and> m \<noteq> LUKS_MAGIC_2ND) ()) (\<lambda>_.
        give \<lparr> luks_magic = m, luks_version = vic_swap_u16 (of_le_bytes (chunk 6 2 block)), luks_uuid = chunk 168 40 block \<rparr>))))))"

definition all_slots :: "nat list" where "all_slots = [0..<LUKS_NUM_KEYS]"

definition luks1_recover_master_key ::
    "'g mbedtls \<Rightarrow> 's vic_blockdev option \<Rightarrow> u8 list option \<Rightarrow> (('s, 'g) world, vic_result, u8 list \<times> u64) action" where
  "luks1_recover_master_key lib dev pwd =
     bnd (is_valid_device dev) (\<lambda>ok.
     bnd (raise_if (\<not> ok) VIC_BAD_DEVICE) (\<lambda>_.
     case pwd of None \<Rightarrow> raise VIC_BAD_PARAMETER
     | Some p \<Rightarrow>
         bnd (or_raise VIC_HEADER_READ_FAILED (luks1_read_hdr lib dev)) (\<lambda>h.
         bnd (find_key_by_pwd lib dev h p all_slots) (\<lambda>(mk, i).
         give (mk @ replicate (KEY_SIZE - length mk) 0, ucast (key_bytes h))))))"

text \<open>
  The version decides between \<^verbatim>\<open>luks1.c\<close> and \<^verbatim>\<open>luks2.c\<close>; \<open>luks2\<close> is the routine of the latter with the same
  arguments.
\<close>

definition by_version ::
    "'s vic_blockdev option \<Rightarrow> (('s, 'g) world, vic_result, 'a) action \<Rightarrow> (('s, 'g) world, vic_result, 'a) action \<Rightarrow> (('s, 'g) world, vic_result, 'a) action" where
  "by_version dev luks1 luks2 =
     bnd (is_valid_device dev) (\<lambda>ok.
     bnd (raise_if (\<not> ok) VIC_BAD_PARAMETER) (\<lambda>_.
     bnd (or_raise VIC_FAILED (vic_luks_read_hdr dev)) (\<lambda>h.
     if luks_version h = 1 then luks1 else if luks_version h = 2 then luks2 else raise VIC_BAD_VERSION)))"

definition vic_luks_recover_master_key ::
    "'g mbedtls \<Rightarrow> (('s, 'g) world, vic_result, u8 list \<times> u64) action \<Rightarrow> 's vic_blockdev option \<Rightarrow> u8 list option \<Rightarrow>
     (('s, 'g) world, vic_result, u8 list \<times> u64) action" where
  "vic_luks_recover_master_key lib luks2 dev pwd = by_version dev (luks1_recover_master_key lib dev pwd) luks2"

text \<open>What both ways of adding a key do after the master key is known.\<close>

definition store_new_key ::
    "'g mbedtls \<Rightarrow> 's vic_blockdev option \<Rightarrow> luks1_hdr \<Rightarrow> u8 list \<Rightarrow> u8 list \<Rightarrow> u64 \<Rightarrow> (('s, 'g) world, vic_result, unit) action" where
  "store_new_key lib dev h mk pwd slot_iterations =
     bnd (or_raise VIC_FAILED (add_key lib h mk pwd slot_iterations)) (\<lambda>(h', data, index).
     bnd (raise_if (LUKS_NUM_KEYS \<le> index) VIC_OUT_OF_BOUNDS) (\<lambda>_.
     bnd (or_raise VIC_HEADER_WRITE_FAILED (write_luks1_hdr dev h')) (\<lambda>_.
     or_raise VIC_KEY_MATERIAL_WRITE_FAILED (write_key_material lib dev h' (keyslots h' ! index) (Some data)))))"

definition min_iterations :: "u64 \<Rightarrow> u64" where
  "min_iterations n = (if n < LUKS_MIN_ITERATIONS then LUKS_MIN_ITERATIONS else n)"

definition luks1_add_key ::
    "'g mbedtls \<Rightarrow> (('s, 'g) world, vic_result, u8 list \<times> u64) action \<Rightarrow> 's vic_blockdev option \<Rightarrow> u64 \<Rightarrow> u8 list option \<Rightarrow> u8 list option \<Rightarrow>
     (('s, 'g) world, vic_result, unit) action" where
  "luks1_add_key lib luks2 dev slot_iterations pwd new_pwd =
     bnd (is_valid_device dev) (\<lambda>ok.
     bnd (raise_if (\<not> ok) VIC_BAD_DEVICE) (\<lambda>_.
     case (pwd, new_pwd) of
       (Some p, Some q) \<Rightarrow>
         bnd (or_raise VIC_HEADER_READ_FAILED (luks1_read_hdr lib dev)) (\<lambda>h.
         bnd (or_raise VIC_FAILED (vic_luks_recover_master_key lib luks2 dev pwd)) (\<lambda>(mk, _).
         store_new_key lib dev h mk q (min_iterations slot_iterations)))
     | _ \<Rightarrow> raise VIC_BAD_PARAMETER))"

definition luks1_add_key_by_master_key ::
    "'g mbedtls \<Rightarrow> 's vic_blockdev option \<Rightarrow> u64 \<Rightarrow> u8 list option \<Rightarrow> u64 \<Rightarrow> u8 list option \<Rightarrow> (('s, 'g) world, vic_result, unit) action" where
  "luks1_add_key_by_master_key lib dev slot_iterations master_key master_key_bytes pwd =
     bnd (is_valid_device dev) (\<lambda>ok.
     bnd (raise_if (\<not> ok) VIC_BAD_DEVICE) (\<lambda>_.
     case (master_key, pwd) of
       (Some mk, Some p) \<Rightarrow>
         bnd (or_raise VIC_HEADER_READ_FAILED (luks1_read_hdr lib dev)) (\<lambda>h.
         bnd (raise_if (master_key_bytes \<noteq> ucast (key_bytes h)) VIC_BAD_PARAMETER) (\<lambda>_.
         store_new_key lib dev h mk p (min_iterations slot_iterations)))
     | _ \<Rightarrow> raise VIC_BAD_PARAMETER))"

text \<open>Disabling a slot: the salt is cleared, the header rewritten and the key material overwritten with zeros.\<close>

definition disable_slot :: "'g mbedtls \<Rightarrow> 's vic_blockdev option \<Rightarrow> luks1_hdr \<Rightarrow> nat \<Rightarrow> (('s, 'g) world, vic_result, unit) action" where
  "disable_slot lib dev h i =
     (let ks = (keyslots h ! i) \<lparr> salt := replicate 32 0, active := LUKS_KEY_DISABLED \<rparr>;
          h' = h \<lparr> keyslots := (keyslots h)[i := ks] \<rparr>
      in bnd (or_raise VIC_HEADER_WRITE_FAILED (write_luks1_hdr dev h')) (\<lambda>_.
         or_raise VIC_KEY_MATERIAL_WRITE_FAILED (write_key_material lib dev h' ks None)))"

definition luks1_remove_key :: "'g mbedtls \<Rightarrow> 's vic_blockdev option \<Rightarrow> u8 list option \<Rightarrow> (('s, 'g) world, vic_result, unit) action" where
  "luks1_remove_key lib dev pwd =
     bnd (is_valid_device dev) (\<lambda>ok.
     bnd (raise_if (\<not> ok) VIC_BAD_DEVICE) (\<lambda>_.
     case pwd of None \<Rightarrow> raise VIC_BAD_PARAMETER
     | Some p \<Rightarrow>
         bnd (or_raise VIC_HEADER_READ_FAILED (luks1_read_hdr lib dev)) (\<lambda>h.
         bnd (find_key_by_pwd lib dev h p all_slots) (\<lambda>(_, i). disable_slot lib dev h i))))"

text \<open>\<^verbatim>\<open>luks1_kill_slot\<close> frees an uninitialised pointer when it leaves before the header is read.\<close>

definition luks1_kill_slot :: "'g mbedtls \<Rightarrow> 's vic_blockdev option \<Rightarrow> u64 \<Rightarrow> (('s, 'g) world, vic_result, unit) action" where
  "luks1_kill_slot lib dev index =
     bnd (is_valid_device dev) (\<lambda>ok.
     if \<not> ok then fault
     else if LUKS_NUM_KEYS \<le> unat index then fault
     else bnd (or_raise VIC_HEADER_READ_FAILED (luks1_read_hdr lib dev)) (\<lambda>h.
          if active (keyslots h ! unat index) = LUKS_KEY_ENABLED then disable_slot lib dev h (unat index) else give ()))"

text \<open>
  \<^verbatim>\<open>luks1_change_key\<close> leaves with \<^verbatim>\<open>GOTO(done)\<close> when it cannot derive, split or encrypt the key; the result is
  then still \<^verbatim>\<open>VIC_OK\<close>.
\<close>

definition luks1_change_key ::
    "'g mbedtls \<Rightarrow> 's vic_blockdev option \<Rightarrow> u8 list option \<Rightarrow> u8 list option \<Rightarrow> (('s, 'g) world, vic_result, unit) action" where
  "luks1_change_key lib dev old_pwd new_pwd =
     bnd (is_valid_device dev) (\<lambda>ok.
     bnd (raise_if (\<not> ok) VIC_BAD_DEVICE) (\<lambda>_.
     case (old_pwd, new_pwd) of
       (Some p, Some q) \<Rightarrow>
         bnd (or_raise VIC_HEADER_READ_FAILED (luks1_read_hdr lib dev)) (\<lambda>h.
         bnd (find_key_by_pwd lib dev h p all_slots) (\<lambda>(mk, i).
         bnd (vic_random lib 32) (\<lambda>slt.
         let ks = (keyslots h ! i) \<lparr> salt := slt \<rparr>;
             h' = h \<lparr> keyslots := (keyslots h)[i := ks] \<rparr>;
             sz = unat (key_bytes h * stripes ks)
         in bnd (attempt
              (bnd (raise_if (sz = 0) ()) (\<lambda>_.
               bnd (calloc lib () sz) (\<lambda>_.
               bnd (calloc lib () sz) (\<lambda>_.
               bnd (from_option () (vic_pbkdf2 lib q (salt ks) (iterations ks) (hash_spec h) (ucast (key_bytes h)))) (\<lambda>pbkdf2_key.
               bnd (vic_afsplit lib (hash_spec h) mk (ucast (key_bytes h)) (stripes ks) sz) (\<lambda>plain.
               lift_outcome (encrypt lib h' pbkdf2_key plain sz 0)))))))) (\<lambda>r.
            case r of
              None \<Rightarrow> give ()
            | Some cipher \<Rightarrow>
                bnd (or_raise VIC_HEADER_WRITE_FAILED (write_luks1_hdr dev h')) (\<lambda>_.
                or_raise VIC_KEY_MATERIAL_WRITE_FAILED (write_key_material lib dev h' ks (Some cipher)))))))
     | _ \<Rightarrow> raise VIC_BAD_PARAMETER))"

record vic_luks_stat =
  stat_version :: u16
  stat_payload_offset :: u64
  stat_payload_size :: u64

text \<open>\<^verbatim>\<open>hdr->payload_offset * VIC_SECTOR_SIZE\<close> is a 32-bit product.\<close>

definition luks1_stat :: "'g mbedtls \<Rightarrow> 's vic_blockdev option \<Rightarrow> (('s, 'g) world, vic_result, vic_luks_stat) action" where
  "luks1_stat lib dev =
     bnd (is_valid_device dev) (\<lambda>ok.
     bnd (raise_if (\<not> ok) VIC_BAD_PARAMETER) (\<lambda>_.
     bnd (or_raise VIC_HEADER_READ_FAILED (luks1_read_hdr lib dev)) (\<lambda>h.
     bnd (on_disk (vic_blockdev_get_num_blocks dev)) (\<lambda>nblocks.
     let offset = ucast (payload_offset h * 512)
     in give \<lparr> stat_version = 1, stat_payload_offset = offset, stat_payload_size = nblocks * VIC_SECTOR_SIZE - offset \<rparr>))))"

end
