(* ===== verification/Luks1_Correct.thy ===== *)
theory Luks1_Correct
  imports Luks1
begin

text \<open>
  Correctness of the LUKS1 operations on any device that keeps the contract \<open>block_device\<close>: which bytes of
  the device each operation reads and writes, which keys a password opens before and after it, and where it
  fails. \<open>slot_opens\<close> is the specification: the key that the material of a slot gives under a password.
\<close>

section \<open>Decryption inverts encryption\<close>

lemma crypt_loop_length:
  "crypt_loop lib h ci opr key bsize sector data i n = Done ys \<Longrightarrow> length ys = n * bsize"
proof (induction n arbitrary: i ys)
  case (Suc n)
  then show ?case
    by (auto split: outcome.splits option.splits if_splits)
qed simp

lemma crypt_loop_inverse:
  assumes "mbedtls_ok lib"
  shows "crypt_loop lib h ci ENCRYPT key bsize sector data i n = Done ys \<Longrightarrow>
    chunk (i * bsize) (n * bsize) c = ys \<Longrightarrow> (i + n) * bsize \<le> length c \<Longrightarrow> (i + n) * bsize \<le> length data \<Longrightarrow>
    crypt_loop lib h ci DECRYPT key bsize sector c i n = Done (chunk (i * bsize) (n * bsize) data)"
proof (induction n arbitrary: i ys)
  case 0
  then show ?case by (simp add: chunk_def)
next
  case (Suc n)
  let ?k = "take (unat (key_bytes h * 8) div 8) key"
  from Suc.prems(1) obtain iv y zs where
      iv: "gen_iv lib h (sector + of_nat i) key = Done iv"
    and y: "cipher_crypt lib ci ENCRYPT ?k iv (chunk (i * bsize) bsize data) = Some y" "length y = bsize"
    and zs: "crypt_loop lib h ci ENCRYPT key bsize sector data (Suc i) n = Done zs" "ys = y @ zs"
    by (auto split: outcome.splits option.splits if_splits)
  have split: "chunk (i * bsize) (Suc n * bsize) xs = chunk (i * bsize) bsize xs @ chunk (Suc i * bsize) (n * bsize) xs" for xs :: "u8 list"
    by (simp add: chunk_def take_add add.commute)
  have len: "length (chunk (i * bsize) bsize c) = bsize"
    using Suc.prems(3) by (simp add: chunk_def algebra_simps)
  have "chunk (i * bsize) bsize c @ chunk (Suc i * bsize) (n * bsize) c = y @ zs"
    using Suc.prems(2) zs(2) unfolding split by simp
  then have c: "chunk (i * bsize) bsize c = y" "chunk (Suc i * bsize) (n * bsize) c = zs"
    using len y(2) by auto
  have d: "cipher_crypt lib ci DECRYPT ?k iv y = Some (chunk (i * bsize) bsize data)"
    by (rule mbedtls_okD(5) [OF assms y(1)])
  have "crypt_loop lib h ci DECRYPT key bsize sector c (Suc i) n = Done (chunk (Suc i * bsize) (n * bsize) data)"
    using Suc.IH [OF zs(1) c(2)] Suc.prems(3,4) by simp
  moreover have "length (chunk (i * bsize) bsize data) = bsize" "\<not> length c < Suc i * bsize"
    using Suc.prems(3,4) by (simp_all add: chunk_def algebra_simps)
  ultimately show ?case
    unfolding split using iv c d by simp
qed

text \<open>The modes that have a cipher are those whose initialization vector needs no hash.\<close>

lemma cipher_info_mode:
  assumes "get_cipher_info lib h = Some ci"
  shows "str_eq (cipher_mode h) ''ecb'' \<or> str_eq (cipher_mode h) ''cbc-plain'' \<or> str_eq (cipher_mode h) ''xts-plain64''"
    and "key_bytes h * 8 \<in> {128, 256, 257, 512, 513}"
proof -
  have d: "x div 2 = 128 \<Longrightarrow> x = 256 \<or> x = 257" "x div 2 = 256 \<Longrightarrow> x = 512 \<or> x = 513" for x :: u32
    by (auto simp: word_eq_unat unat_div_distrib)
  show "str_eq (cipher_mode h) ''ecb'' \<or> str_eq (cipher_mode h) ''cbc-plain'' \<or> str_eq (cipher_mode h) ''xts-plain64''"
    "key_bytes h * 8 \<in> {128, 256, 257, 512, 513}"
    using assms d [of "key_bytes h * 8"] by (auto simp: get_cipher_info_def Let_def split: option.splits if_splits)
qed

definition crypt_block :: "'g mbedtls \<Rightarrow> luks1_hdr \<Rightarrow> nat" where
  "crypt_block lib h = (case get_cipher_info lib h of None \<Rightarrow> 512
     | Some ci \<Rightarrow> if str_eq (cipher_mode h) ''ecb'' then unat (cipher_block_size lib ci) else 512)"

lemma crypt_works:
  assumes works: "mbedtls_works lib" "mbedtls_ok lib" and ci: "get_cipher_info lib h = Some ci"
    and size: "sz mod 512 = 0" "sz \<le> length data"
  shows "\<exists>c. crypt lib h opr key data sz sector = Done c \<and> length c = sz"
proof -
  define b where "b = crypt_block lib h"
  have b: "b = 16 \<or> b = 512" "b = (if str_eq (cipher_mode h) ''ecb'' then unat (cipher_block_size lib ci) else 512)"
    using ci mbedtls_worksD(10) [OF works(1), of ci] by (auto simp: b_def crypt_block_def)
  then have div: "sz mod b = 0" "b mod 16 = 0" using size(1) by auto
  have iv: "\<exists>iv. gen_iv lib h s key = Done iv" for s
    using cipher_info_mode(1) [OF ci] by (auto simp: gen_iv_def)
  have loop: "\<exists>ys. crypt_loop lib h ci opr key b sector data i n = Done ys" if "(i + n) * b \<le> length data" for i n
    using that
  proof (induction n arbitrary: i)
    case (Suc n)
    obtain v where "gen_iv lib h (sector + of_nat i) key = Done v" using iv by blast
    moreover have l: "length (chunk (i * b) b data) = b" "\<not> length data < Suc i * b"
      using Suc.prems by (simp_all add: chunk_def algebra_simps)
    moreover obtain y where y: "cipher_crypt lib ci opr (take (unat (key_bytes h * 8) div 8) key) v (chunk (i * b) b data) = Some y"
      using mbedtls_worksD(12) [OF works(1), of "chunk (i * b) b data"] l(1) div(2) by fastforce
    moreover have "length y = b" using mbedtls_okD(4) [OF works(2) y] l(1) by simp
    moreover obtain ys where "crypt_loop lib h ci opr key b sector data (Suc i) n = Done ys"
      using Suc.IH [of "Suc i"] Suc.prems by auto
    ultimately show ?case by simp
  qed simp
  have sb: "sz div b * b = sz" using div(1) by (metis div_mult_mod_eq add_0_right)
  obtain ys where "crypt_loop lib h ci opr key b sector data 0 (sz div b) = Done ys"
    using loop [of 0 "sz div b"] size(2) sb by auto
  moreover from crypt_loop_length [OF this] have "length ys = sz" using sb by simp
  ultimately show ?thesis
    using ci mbedtls_worksD(9,11) [OF works(1)] by (auto simp: crypt_def Let_def b(2) [symmetric])
qed

lemma decrypt_encrypt:
  assumes "mbedtls_ok lib" and "mbedtls_works lib" and "crypt lib h ENCRYPT key data sz sector = Done c" and "sz = length data" and "sz mod 512 = 0"
  shows "crypt lib h DECRYPT key c sz sector = Done data"
proof -
  from assms(3) obtain ci where ci: "get_cipher_info lib h = Some ci"
    by (auto simp: crypt_def split: option.splits)
  define b where "b = (if str_eq (cipher_mode h) ''ecb'' then unat (cipher_block_size lib ci) else 512)"
  have "sz mod b = 0" using assms(5) mbedtls_worksD(10) [OF assms(2), of ci] by (auto simp: b_def)
  then have sb: "sz div b * b = sz" by (metis div_mult_mod_eq add_0_right)
  from assms(3) ci obtain ys where ys: "crypt_loop lib h ci ENCRYPT key b sector data 0 (sz div b) = Done ys" "c = ys @ replicate (sz - length ys) 0"
    by (auto simp: crypt_def Let_def b_def [symmetric] split: if_splits outcome.splits)
  have len: "length ys = sz" using crypt_loop_length [OF ys(1)] sb by simp
  then have "crypt_loop lib h ci DECRYPT key b sector c 0 (sz div b) = Done (chunk (0 * b) (sz div b * b) data)"
    using ys(2) sb assms(4) by (intro crypt_loop_inverse [OF assms(1) ys(1)]) (simp_all add: chunk_def)
  also have "chunk (0 * b) (sz div b * b) data = data" using sb assms(4) by (simp add: chunk_def)
  finally show ?thesis
    using ci mbedtls_worksD(9,11) [OF assms(2)] assms(4) by (simp add: crypt_def Let_def b_def [symmetric])
qed

section \<open>Merging is a function of the stripes\<close>

lemma from_option_pure: "from_option e x v = (fst (from_option e x ()), v)"
  by (cases x) (simp_all add: from_option_def)

lemma afmerge_loop_pure: "afmerge_loop lib kb n spec sk js key v = (fst (afmerge_loop lib kb n spec sk js key ()), v)"
proof (induction js arbitrary: key)
  case (Cons i js)
  then show ?case by (auto simp: Let_def from_option_def split: option.splits)
qed simp

lemma vic_afmerge_pure: "vic_afmerge lib kb n spec sk v = (fst (vic_afmerge lib kb n spec sk ()), v)"
proof -
  have "bnd (afmerge_loop lib k n spec sk js key) (\<lambda>key. if b then give key else Pair Diverge) v
      = (fst (bnd (afmerge_loop lib k n spec sk js key) (\<lambda>key. if b then give key else Pair Diverge) ()), v)" for k n js key b
    by (simp add: bnd_def afmerge_loop_pure [of _ _ _ _ _ _ _ v] split: prod.splits outcome.splits)
  then show ?thesis by (simp add: vic_afmerge_def)
qed

lemma vic_afmerge_works:
  assumes works: "mbedtls_works lib" "mbedtls_ok lib" and sizes: "af_sizes kb n" and spec: "built_in (vic_hash_type spec)"
    and len: "length sk = unat n * unat kb"
  shows "\<exists>mk. fst (vic_afmerge lib kb (ucast n) spec sk ()) = Done mk \<and> length mk = unat kb"
proof -
  note u = af_sizes_unat [OF sizes]
  have kn: "unat kb \<le> KEY_SIZE" "unat n < 2 ^ 32"
    using sizes unat_u32 by (auto simp: af_sizes_def KEY_SIZE_def word_le_nat_alt)
  have loop: "\<exists>mk. afmerge_loop lib (unat kb) (unat n) spec sk js key () = (Done mk, ()) \<and> length mk = unat kb"
    if "set js \<subseteq> {i. i < unat n}" "length key = unat kb" for js key
    using that
  proof (induction js arbitrary: key)
    case (Cons i js)
    have le: "Suc i * unat kb \<le> length sk" unfolding len using Cons.prems by (intro mult_le_mono1) auto
    let ?x = "compute_xor key (chunk (i * unat kb) (unat kb) sk)"
    have x: "length ?x = unat kb" using le Cons.prems by simp
    obtain d where d: "diffuse lib spec ?x = Some d" using diffuse_works [OF works(1) spec] by blast
    then have "length d = unat kb" using diffuse_length [OF works(2)] x by metis
    then show ?case
      using Cons.IH [of d] Cons.IH [of ?x] Cons.prems le x d by (simp add: Let_def from_option_def not_less)
  qed simp
  obtain mk where "afmerge_loop lib (unat kb) (unat n) spec sk [0..<unat n] (replicate (unat kb) 0) () = (Done mk, ())" "length mk = unat kb"
    using loop [of "[0..<unat n]" "replicate (unat kb) 0"] by (auto simp: subset_eq)
  then show ?thesis
    using kn by (simp add: vic_afmerge_def u(5) not_less)
qed

section \<open>Volumes\<close>

definition slot_start :: "vic_luks_keyslot \<Rightarrow> nat" where
  "slot_start ks = unat (key_material_offset ks) * 512"

definition slot_size :: "luks1_hdr \<Rightarrow> vic_luks_keyslot \<Rightarrow> nat" where
  "slot_size h ks = unat (stripes ks) * unat (key_bytes h)"

text \<open>The key a password opens in a slot: derive, decrypt, merge, and compare the digest.\<close>

definition slot_opens :: "'g mbedtls \<Rightarrow> luks1_hdr \<Rightarrow> u8 list \<Rightarrow> u8 list \<Rightarrow> vic_luks_keyslot \<Rightarrow> u8 list option" where
  "slot_opens lib h d pwd ks =
     (case vic_pbkdf2 lib pwd (salt ks) (iterations ks) (hash_spec h) (ucast (key_bytes h)) of
        None \<Rightarrow> None
      | Some k \<Rightarrow>
          (case decrypt lib h k (chunk (slot_start ks) (slot_size h ks) d) (slot_size h ks) 0 of
             Done plain \<Rightarrow>
               (case fst (vic_afmerge lib (ucast (key_bytes h)) (ucast (stripes ks)) (hash_spec h) plain ()) of
                  Done mk \<Rightarrow>
                    (if vic_pbkdf2 lib mk (mk_digest_salt h) (mk_digest_iter h) (hash_spec h) 20 = Some (mk_digest h)
                     then Some mk else None)
                | _ \<Rightarrow> None)
           | _ \<Rightarrow> None))"

text \<open>The areas of the key slots lie between header and payload and do not overlap.\<close>

definition slot_ok :: "luks1_hdr \<Rightarrow> vic_luks_keyslot \<Rightarrow> bool" where
  "slot_ok h ks \<longleftrightarrow>
     af_sizes (ucast (key_bytes h)) (stripes ks) \<and> slot_size h ks mod 512 = 0 \<and> slot_size h ks \<le> MAX_RW_COUNT \<and>
     1024 \<le> slot_start ks \<and> slot_start ks + slot_size h ks \<le> unat (payload_offset h) * 512"

definition layout_ok :: "luks1_hdr \<Rightarrow> bool" where
  "layout_ok h \<longleftrightarrow>
     (\<forall>ks\<in>set (keyslots h). slot_ok h ks) \<and>
     (\<forall>i<8. \<forall>j<8. i \<noteq> j \<longrightarrow>
        slot_start (keyslots h ! i) + slot_size h (keyslots h ! i) \<le> slot_start (keyslots h ! j) \<or>
        slot_start (keyslots h ! j) + slot_size h (keyslots h ! j) \<le> slot_start (keyslots h ! i))"

definition luks1_volume :: "'g mbedtls \<Rightarrow> luks1_hdr \<Rightarrow> u8 list \<Rightarrow> bool" where
  "luks1_volume lib h d \<longleftrightarrow>
     hdr_wf h \<and> is_valid_luks1_hdr h False \<and> built_in (vic_hash_type (hash_spec h)) \<and> get_cipher_info lib h \<noteq> None \<and>
     layout_ok h \<and> 1024 \<le> length d \<and> unat (payload_offset h) * 512 \<le> length d \<and>
     take 592 d = hdr_bytes (fix_luks1_hdr_byte_order h)"

section \<open>Changing one slot\<close>

text \<open>Encryption does not depend on the key slots.\<close>

lemma get_cipher_info_keyslots [simp]: "get_cipher_info lib (h \<lparr> keyslots := x \<rparr>) = get_cipher_info lib h"
  by (simp add: get_cipher_info_def cong: if_cong)

lemma crypt_loop_keyslots [simp]:
  "crypt_loop lib (h \<lparr> keyslots := x \<rparr>) ci opr key b sector data i n = crypt_loop lib h ci opr key b sector data i n"
proof (induction n arbitrary: i)
  case (Suc n)
  have "gen_iv lib (h \<lparr> keyslots := x \<rparr>) s key = gen_iv lib h s key" for s by (simp add: gen_iv_def)
  then show ?case by (simp add: Suc split: outcome.split option.split)
qed simp

lemma crypt_keyslots [simp]: "crypt lib (h \<lparr> keyslots := x \<rparr>) opr key data n sector = crypt lib h opr key data n sector"
  by (simp add: crypt_def Let_def split: option.split)

lemma slot_size_keyslots [simp]: "slot_size (h \<lparr> keyslots := x \<rparr>) ks = slot_size h ks"
  by (simp add: slot_size_def)

lemma slot_opens_keyslots [simp]: "slot_opens lib (h \<lparr> keyslots := x \<rparr>) d pwd ks = slot_opens lib h d pwd ks"
  by (auto simp: slot_opens_def decrypt_def split: option.split outcome.split)

lemma slot_opens_cong:
  "chunk (slot_start ks) (slot_size h ks) d' = chunk (slot_start ks) (slot_size h ks) d \<Longrightarrow> slot_opens lib h d' pwd ks = slot_opens lib h d pwd ks"
  by (simp add: slot_opens_def cong: option.case_cong outcome.case_cong)

text \<open>The bytes of the device after slot \<open>i\<close> was replaced by \<open>ks\<close> with the key material \<open>bs\<close>.\<close>

definition set_slot :: "luks1_hdr \<Rightarrow> nat \<Rightarrow> vic_luks_keyslot \<Rightarrow> luks1_hdr" where
  "set_slot h i ks = h \<lparr> keyslots := (keyslots h)[i := ks] \<rparr>"

definition put_slot :: "luks1_hdr \<Rightarrow> vic_luks_keyslot \<Rightarrow> u8 list \<Rightarrow> u8 list \<Rightarrow> u8 list" where
  "put_slot h ks bs d =
     overwrite (slot_start ks) bs (overwrite 0 (hdr_bytes (fix_luks1_hdr_byte_order h) @ replicate 432 0) d)"

lemma drop_same: "drop m xs = drop m ys \<Longrightarrow> m \<le> n \<Longrightarrow> drop n xs = drop n ys"
  by (metis drop_drop le_add_diff_inverse2)

text \<open>A slot keeps its place when only its state, iterations and salt change.\<close>

definition same_place :: "vic_luks_keyslot \<Rightarrow> vic_luks_keyslot \<Rightarrow> bool" where
  "same_place ks ks' \<longleftrightarrow> key_material_offset ks = key_material_offset ks' \<and> stripes ks = stripes ks' \<and> length (salt ks) = 32"

lemma same_place_area: "same_place ks ks' \<Longrightarrow> slot_start ks = slot_start ks' \<and> slot_size h ks = slot_size h ks'"
  by (simp add: same_place_def slot_start_def slot_size_def)

lemma set_slot_nth: "hdr_wf h \<Longrightarrow> j < 8 \<Longrightarrow> keyslots (set_slot h i ks) ! j = (if j = i then ks else keyslots h ! j)"
  by (simp add: set_slot_def hdr_wf_def)

lemma set_slot_members: "x \<in> set (keyslots (set_slot h i ks)) \<Longrightarrow> x = ks \<or> x \<in> set (keyslots h)"
  unfolding set_slot_def by (auto dest: set_update_subset_insert [THEN subsetD])

lemma slot_ok_place: "same_place ks ks' \<Longrightarrow> slot_ok h ks' \<Longrightarrow> slot_ok (h \<lparr> keyslots := x \<rparr>) ks"
  using same_place_area [of ks ks'] by (simp add: slot_ok_def same_place_def)

lemma set_slot_wf: "hdr_wf h \<Longrightarrow> same_place ks ks' \<Longrightarrow> hdr_wf (set_slot h i ks)"
  using set_slot_members [of _ h i ks]
  by (auto simp: hdr_wf_def list_all_iff keyslot_wf_def same_place_def) (simp_all add: set_slot_def)

lemma set_slot_layout:
  assumes wf: "hdr_wf h" and lay: "layout_ok h" and i: "i < 8" and place: "same_place ks (keyslots h ! i)"
  shows "layout_ok (set_slot h i ks)"
proof -
  let ?h = "set_slot h i ks"
  have oki: "slot_ok h (keyslots h ! i)" using wf lay i by (simp add: layout_ok_def hdr_wf_def)
  have "slot_ok ?h x" if "x \<in> set (keyslots ?h)" for x
    using set_slot_members [OF that] lay slot_ok_place [OF place oki]
    by (auto simp: set_slot_def layout_ok_def slot_ok_def)
  moreover have "slot_start (keyslots ?h ! j) = slot_start (keyslots h ! j)" "slot_size ?h (keyslots ?h ! j) = slot_size h (keyslots h ! j)" if "j < 8" for j
    using set_slot_nth [OF wf that, of i ks] same_place_area [OF place] by (simp_all add: set_slot_def)
  ultimately show ?thesis
    using lay unfolding layout_ok_def by simp
qed

text \<open>Writing the header and the material of one slot leaves the areas of the others and the payload alone.\<close>

lemma put_slot_frame:
  assumes wf: "hdr_wf h'" and len: "1024 \<le> length d" and area: "1024 \<le> slot_start ks" "slot_start ks + length bs \<le> length d"
  shows "length (put_slot h' ks bs d) = length d" and "take 592 (put_slot h' ks bs d) = hdr_bytes (fix_luks1_hdr_byte_order h')"
    and "chunk (slot_start ks) (length bs) (put_slot h' ks bs d) = bs"
    and "1024 \<le> k \<Longrightarrow> k + n \<le> slot_start ks \<or> slot_start ks + length bs \<le> k \<Longrightarrow> chunk k n (put_slot h' ks bs d) = chunk k n d"
    and "slot_start ks + length bs \<le> k \<Longrightarrow> drop k (put_slot h' ks bs d) = drop k d"
proof -
  let ?b = "hdr_bytes (fix_luks1_hdr_byte_order h')"
  define e where "e = overwrite 0 (?b @ replicate 432 0) d"
  have B: "length ?b = 592" using wf by (simp add: hdr_bytes_length)
  have e: "length e = length d" "drop 1024 e = drop 1024 d" "take 592 e = ?b"
    using len B by (simp_all add: e_def overwrite_def)
  have D: "put_slot h' ks bs d = overwrite (slot_start ks) bs e" by (simp add: put_slot_def e_def)
  show "length (put_slot h' ks bs d) = length d" using area e(1) by (simp add: D)
  show "take 592 (put_slot h' ks bs d) = ?b"
    using area len e(1,3) by (simp add: D overwrite_def)
  show "chunk (slot_start ks) (length bs) (put_slot h' ks bs d) = bs"
    using area e(1) by (simp add: D chunk_overwrite_same)
  show "chunk k n (put_slot h' ks bs d) = chunk k n d" if "1024 \<le> k" "k + n \<le> slot_start ks \<or> slot_start ks + length bs \<le> k"
  proof -
    have "chunk k n (put_slot h' ks bs d) = chunk k n e"
      using that(2) area e(1) unfolding D by (auto intro: chunk_overwrite_before chunk_overwrite_after)
    then show ?thesis unfolding chunk_def by (simp only: drop_same [OF e(2) that(1)])
  qed
  show "drop k (put_slot h' ks bs d) = drop k d" if "slot_start ks + length bs \<le> k"
    using that area e(1) drop_same [OF e(2), of k] by (simp add: D overwrite_def)
qed

lemma put_slot_volume:
  assumes vol: "luks1_volume lib h d" and i: "i < 8" and place: "same_place ks (keyslots h ! i)" and bs: "length bs = slot_size h ks"
  shows "luks1_volume lib (set_slot h i ks) (put_slot (set_slot h i ks) ks bs d)"
    and "chunk (slot_start ks) (slot_size h ks) (put_slot (set_slot h i ks) ks bs d) = bs"
    and "j < 8 \<Longrightarrow> j \<noteq> i \<Longrightarrow>
      slot_opens lib (set_slot h i ks) (put_slot (set_slot h i ks) ks bs d) pwd (keyslots h ! j) = slot_opens lib h d pwd (keyslots h ! j)"
    and "drop (unat (payload_offset h) * 512) (put_slot (set_slot h i ks) ks bs d) = drop (unat (payload_offset h) * 512) d"
    and "length (put_slot (set_slot h i ks) ks bs d) = length d"
proof -
  let ?h = "set_slot h i ks" and ?d = "put_slot (set_slot h i ks) ks bs d"
  have v: "hdr_wf h" "layout_ok h" "1024 \<le> length d" "unat (payload_offset h) * 512 \<le> length d" "length (keyslots h) = 8"
    using vol by (simp_all add: luks1_volume_def hdr_wf_def)
  note same = same_place_area [OF place, of h]
  have ok: "slot_ok h (keyslots h ! j)" if "j < 8" for j using v(2,5) that by (simp add: layout_ok_def)
  have area: "1024 \<le> slot_start ks" "slot_start ks + length bs \<le> unat (payload_offset h) * 512"
    using ok [OF i] same bs by (simp_all add: slot_ok_def)
  have room: "slot_start ks + length bs \<le> length d" using area(2) v(4) by simp
  note f = put_slot_frame [OF set_slot_wf [OF v(1) place] v(3) area(1) room]
  show "length ?d = length d" by (rule f(1))
  show "chunk (slot_start ks) (slot_size h ks) ?d = bs" using f(3) bs by simp
  show "drop (unat (payload_offset h) * 512) ?d = drop (unat (payload_offset h) * 512) d" using area(2) by (rule f(5))
  show "slot_opens lib ?h ?d pwd (keyslots h ! j) = slot_opens lib h d pwd (keyslots h ! j)" if j: "j < 8" "j \<noteq> i"
  proof -
    let ?k = "keyslots h ! j"
    have "slot_start ks + slot_size h ks \<le> slot_start ?k \<or> slot_start ?k + slot_size h ?k \<le> slot_start ks"
      using v(2) i j same unfolding layout_ok_def by metis
    then have "chunk (slot_start ?k) (slot_size h ?k) ?d = chunk (slot_start ?k) (slot_size h ?k) d"
      using ok [OF j(1)] bs by (intro f(4)) (auto simp: slot_ok_def)
    then show ?thesis unfolding set_slot_def slot_opens_keyslots by (rule slot_opens_cong)
  qed
  show "luks1_volume lib ?h ?d"
    unfolding luks1_volume_def
    using vol set_slot_wf [OF v(1) place] set_slot_layout [OF v(1,2) i place] f(1,2)
    by (simp add: luks1_volume_def set_slot_def is_valid_luks1_hdr_def)
qed

section \<open>Any device that keeps the contract\<close>

lemma on_disk_eq: "m (disk w) = (r, d) \<Longrightarrow> on_disk m w = (r, w \<lparr> disk := d \<rparr>)"
  by (simp add: on_disk_def)

lemma slot_unat:
  assumes "slot_ok h ks"
  shows "unat (stripes ks * key_bytes h) = slot_size h ks" and "unat (key_bytes h * stripes ks) = slot_size h ks"
    and "unat (ucast ((stripes ks * key_bytes h) div 512) :: u64) * 512 = slot_size h ks"
    and "unat (ucast (key_material_offset ks) :: u64) * 512 = slot_start ks"
    and "unat (key_bytes h) \<le> KEY_SIZE" and "key_bytes h \<noteq> 0" and "slot_size h ks \<noteq> 0"
    and "unat (ucast (key_bytes h) :: u64) = unat (key_bytes h)"
proof -
  note u = unat_ucast_up
  have a: "0 < unat (key_bytes h)" "unat (key_bytes h) \<le> 128" "0 < unat (stripes ks)" "slot_size h ks < 2 ^ 32"
    using assms by (auto simp: slot_ok_def af_sizes_def slot_size_def word_less_nat_alt word_le_nat_alt u)
  show p: "unat (stripes ks * key_bytes h) = slot_size h ks"
    using a by (subst unat_mult_small) (simp_all add: slot_size_def)
  then show "unat (key_bytes h * stripes ks) = slot_size h ks" by (simp add: mult.commute)
  have "unat ((stripes ks * key_bytes h) div 512) = slot_size h ks div 512"
    by (simp add: unat_div_distrib p)
  moreover have "slot_size h ks mod 512 = 0" using assms by (simp add: slot_ok_def)
  ultimately show "unat (ucast ((stripes ks * key_bytes h) div 512) :: u64) * 512 = slot_size h ks"
    unfolding u by (metis div_mult_mod_eq add_0_right)
  show "unat (ucast (key_material_offset ks) :: u64) * 512 = slot_start ks" by (simp only: u slot_start_def)
  show "unat (key_bytes h) \<le> KEY_SIZE" "key_bytes h \<noteq> 0" "slot_size h ks \<noteq> 0"
    using a by (auto simp: KEY_SIZE_def slot_size_def)
  show "unat (ucast (key_bytes h) :: u64) = unat (key_bytes h)" by (rule u)
qed

lemma slot_fits: "slot_ok h ks \<Longrightarrow> fits (ucast (key_material_offset ks)) (ucast ((stripes ks * key_bytes h) div 512))"
proof -
  assume s: "slot_ok h ks"
  have "unat (ucast (key_material_offset ks) :: u64) < 2 ^ 40"
    using unat_u32 [of "key_material_offset ks"] by (simp add: unat_ucast_up)
  with s slot_unat(3) [OF s] show ?thesis by (simp add: slot_ok_def)
qed

context block_device
begin

lemma device_get:
  assumes "ok (disk w)" and "fits b n" and "(unat b + unat n) * 512 \<le> length (data (disk w))"
  shows "\<exists>t. on_disk (vic_blockdev_get (Some dev) b n) w = (Done (chunk (unat b * 512) (unat n * 512) (data (disk w))), t) \<and>
    ok (disk t) \<and> data (disk t) = data (disk w)"
proof -
  obtain r d where g: "bd_get dev b n (disk w) = (r, d)" by fastforce
  then show ?thesis
    using get_law [OF assms] get_keeps [OF assms(1), of b n] on_disk_eq [of "bd_get dev b n" w]
    by (simp add: vic_blockdev_get_def with_bd_def chunk_def)
qed

lemma device_put:
  assumes "ok (disk w)" and "fits b n" and "(unat b + unat n) * 512 \<le> length (data (disk w))" and "unat n * 512 \<le> length bs"
  shows "\<exists>t. on_disk (vic_blockdev_put (Some dev) b bs n) w = (Done (), t) \<and> ok (disk t) \<and>
    data (disk t) = overwrite (unat b * 512) (take (unat n * 512) bs) (data (disk w))"
proof -
  obtain r d where g: "bd_put dev b bs n (disk w) = (r, d)" by fastforce
  then show ?thesis
    using put_law [OF assms] on_disk_eq [of "bd_put dev b bs n" w]
    by (simp add: vic_blockdev_put_def with_bd_def)
qed

lemma device_valid: "ok (disk w) \<Longrightarrow> is_valid_device (Some dev) w = (Done True, w)"
  by (simp add: is_valid_device_def bnd_def attempt_def on_disk_def vic_blockdev_get_block_size_def with_bd_def
      block_size_law VIC_SECTOR_SIZE_def)

lemma device_num_blocks:
  "ok (disk w) \<Longrightarrow> on_disk (vic_blockdev_get_num_blocks (Some dev)) w = (Done (of_nat (length (data (disk w)) div 512)), w)"
  by (simp add: on_disk_def vic_blockdev_get_num_blocks_def with_bd_def num_blocks_law)

lemma read_hdr_volume:
  assumes "ok (disk w)" and "luks1_volume lib h (data (disk w))" and "mbedtls_works lib"
  shows "\<exists>t. luks1_read_hdr lib (Some dev) w = (Done h, t) \<and> ok (disk t) \<and> data (disk t) = data (disk w)"
proof -
  let ?d = "data (disk w)"
  have v: "hdr_wf h" "is_valid_luks1_hdr h False" "1024 \<le> length ?d" "take 592 ?d = hdr_bytes (fix_luks1_hdr_byte_order h)"
    using assms(2) by (simp_all add: luks1_volume_def)
  obtain t where t: "on_disk (vic_blockdev_get (Some dev) 0 2) w = (Done (chunk 0 1024 ?d), t)" "ok (disk t)" "data (disk t) = ?d"
    using device_get [OF assms(1), of 0 2] v(3) by (auto simp: MAX_RW_COUNT_def)
  have "chunk 0 1024 ?d = take 592 ?d @ take 432 (drop 592 ?d)"
    by (simp add: chunk_def take_add [of 592 432, simplified])
  then have h: "hdr_of_bytes (chunk 0 1024 ?d) = fix_luks1_hdr_byte_order h"
    using v(1,4) by (simp add: hdr_round_trip)
  obtain g where "calloc lib () 592 t = (Done (), t \<lparr> env := g \<rparr>)" using calloc_works [OF assms(3), of "()" 592 t] by (elim exE)
  then show ?thesis
    using t v(2) by (simp add: luks1_read_hdr_def device_valid [OF assms(1)] h Let_def)
qed

lemma write_hdr_volume:
  assumes "ok (disk w)" and "hdr_wf h" and "1024 \<le> length (data (disk w))"
  shows "\<exists>t. write_luks1_hdr (Some dev) h w = (Done (), t) \<and> ok (disk t) \<and>
    data (disk t) = overwrite 0 (hdr_bytes (fix_luks1_hdr_byte_order h) @ replicate 432 0) (data (disk w))"
proof -
  have l: "length (hdr_bytes (fix_luks1_hdr_byte_order h)) = 592" using assms(2) by (simp add: hdr_bytes_length)
  obtain t where "on_disk (vic_blockdev_put (Some dev) 0 (hdr_bytes (fix_luks1_hdr_byte_order h) @ replicate 432 0) 2) w = (Done (), t)"
    "ok (disk t)" "data (disk t) = overwrite 0 (hdr_bytes (fix_luks1_hdr_byte_order h) @ replicate 432 0) (data (disk w))"
    using device_put [OF assms(1), of 0 2 "hdr_bytes (fix_luks1_hdr_byte_order h) @ replicate 432 0"] assms(3) l
    by (auto simp: MAX_RW_COUNT_def)
  then show ?thesis by (simp add: write_luks1_hdr_def l Let_def)
qed

lemma read_material_volume:
  assumes "ok (disk w)" and "slot_ok h ks" and "slot_start ks + slot_size h ks \<le> length (data (disk w))"
  shows "\<exists>t. read_key_material (Some dev) h ks w = (Done (chunk (slot_start ks) (slot_size h ks) (data (disk w))), t) \<and>
    ok (disk t) \<and> data (disk t) = data (disk w)"
proof -
  note u = slot_unat [OF assms(2)]
  have "(unat (ucast (key_material_offset ks) :: u64) + unat (ucast ((stripes ks * key_bytes h) div 512) :: u64)) * 512 \<le> length (data (disk w))"
    using assms(3) by (simp only: add_mult_distrib u)
  from device_get [OF assms(1) slot_fits [OF assms(2)] this] obtain t where
    "on_disk (vic_blockdev_get (Some dev) (ucast (key_material_offset ks)) (ucast ((stripes ks * key_bytes h) div 512))) w =
      (Done (chunk (slot_start ks) (slot_size h ks) (data (disk w))), t)" "ok (disk t)" "data (disk t) = data (disk w)"
    unfolding u by blast
  moreover have "length (chunk (slot_start ks) (slot_size h ks) (data (disk w))) = slot_size h ks"
    using assms(3) by simp
  ultimately show ?thesis by (simp add: read_key_material_def Let_def u(1))
qed

lemma write_material_volume:
  assumes "ok (disk w)" and "slot_ok h ks" and "slot_start ks + slot_size h ks \<le> length (data (disk w))"
    and "mbedtls_works lib" and "\<And>bs. buf = Some bs \<Longrightarrow> length bs = slot_size h ks"
  shows "\<exists>t. write_key_material lib (Some dev) h ks buf w = (Done (), t) \<and> ok (disk t) \<and>
    data (disk t) = overwrite (slot_start ks) (case buf of Some bs \<Rightarrow> bs | None \<Rightarrow> replicate (slot_size h ks) 0) (data (disk w))"
proof -
  note u = slot_unat [OF assms(2)]
  have room: "(unat (ucast (key_material_offset ks) :: u64) + unat (ucast ((stripes ks * key_bytes h) div 512) :: u64)) * 512 \<le> length (data (disk w))"
    using assms(3) by (simp only: add_mult_distrib u)
  have put: "\<exists>t. on_disk (vic_blockdev_put (Some dev) (ucast (key_material_offset ks)) bs (ucast ((stripes ks * key_bytes h) div 512))) v = (Done (), t) \<and>
      ok (disk t) \<and> data (disk t) = overwrite (slot_start ks) bs (data (disk w))"
    if "length bs = slot_size h ks" "ok (disk v)" "data (disk v) = data (disk w)" for bs v
    using device_put [OF that(2) slot_fits [OF assms(2)], of bs] room that unfolding u by simp
  show ?thesis
  proof (cases buf)
    case None
    obtain g where "calloc lib () (slot_size h ks) w = (Done (), w \<lparr> env := g \<rparr>)"
      using calloc_works [OF assms(4), of "()" "slot_size h ks" w] by (elim exE)
    with put [of "replicate (slot_size h ks) 0" "w \<lparr> env := g \<rparr>"] assms(1) show ?thesis
      by (auto simp: write_key_material_def Let_def None u(1))
  next
    case (Some bs)
    with put [of bs w] assms(1,5) show ?thesis by (auto simp: write_key_material_def Let_def)
  qed
qed

lemma try_slot_volume:
  assumes "ok (disk w)" and vol: "luks1_volume lib h (data (disk w))" and ks: "ks \<in> set (keyslots h)"
    and works: "mbedtls_works lib" "mbedtls_ok lib" and pwd: "pwd \<noteq> []"
  shows "\<exists>t. try_slot lib (Some dev) h pwd ks w = (Done (slot_opens lib h (data (disk w)) pwd ks), t) \<and>
    ok (disk t) \<and> data (disk t) = data (disk w)"
proof -
  let ?d = "data (disk w)" and ?sz = "slot_size h ks" and ?kb = "ucast (key_bytes h) :: u64"
  have v: "hdr_wf h" "built_in (vic_hash_type (hash_spec h))" "slot_ok h ks" "unat (payload_offset h) * 512 \<le> length ?d"
    using vol ks by (auto simp: luks1_volume_def layout_ok_def)
  obtain ci where ci: "get_cipher_info lib h = Some ci" using vol by (auto simp: luks1_volume_def)
  note u = slot_unat [OF v(3)]
  have salt: "salt ks \<noteq> []" "mk_digest_salt h \<noteq> []"
    using v(1) ks by (auto simp: hdr_wf_def list_all_iff keyslot_wf_def)
  have area: "slot_start ks + ?sz \<le> length ?d" using v(3,4) by (simp add: slot_ok_def)
  have kb0: "?kb \<noteq> 0" "?kb \<le> 0xFFFFFFFF"
    using u(5,6,8) by (auto simp: word_eq_unat word_le_nat_alt KEY_SIZE_def)
  obtain k where k: "vic_pbkdf2 lib pwd (salt ks) (iterations ks) (hash_spec h) ?kb = Some k"
    using vic_pbkdf2_works [OF works v(2) pwd salt(1) kb0] by blast
  obtain g where c1: "calloc lib VIC_OUT_OF_MEMORY ?sz w = (Done (), w \<lparr> env := g \<rparr>)"
    using calloc_works [OF works(1), of VIC_OUT_OF_MEMORY ?sz w] by (elim exE)
  obtain t where t: "read_key_material (Some dev) h ks (w \<lparr> env := g \<rparr>) = (Done (chunk (slot_start ks) ?sz ?d), t)" "ok (disk t)" "data (disk t) = ?d"
    using read_material_volume [OF _ v(3), of "w \<lparr> env := g \<rparr>"] assms(1) area by auto
  obtain g2 where c2: "calloc lib VIC_OUT_OF_MEMORY ?sz t = (Done (), t \<lparr> env := g2 \<rparr>)"
    using calloc_works [OF works(1), of VIC_OUT_OF_MEMORY ?sz t] by (elim exE)
  have m: "?sz mod 512 = 0" "length (chunk (slot_start ks) ?sz ?d) = ?sz" using v(3) area by (simp_all add: slot_ok_def)
  obtain plain where p: "decrypt lib h k (chunk (slot_start ks) ?sz ?d) ?sz 0 = Done plain" "length plain = ?sz"
    using crypt_works [OF works ci m(1), of "chunk (slot_start ks) ?sz ?d" DECRYPT k 0] m(2) by (auto simp: decrypt_def)
  obtain mk where mk: "fst (vic_afmerge lib ?kb (ucast (stripes ks)) (hash_spec h) plain ()) = Done mk" "length mk = unat ?kb"
    using vic_afmerge_works [OF works _ v(2), of ?kb "stripes ks" plain] v(3) p(2) by (auto simp: slot_ok_def slot_size_def u(8))
  have "mk \<noteq> []" using mk(2) u(6,8) by (auto simp: word_eq_unat)
  from vic_pbkdf2_works [OF works v(2) this salt(2), of 20] obtain digest where
      dg: "vic_pbkdf2 lib mk (mk_digest_salt h) (mk_digest_iter h) (hash_spec h) 20 = Some digest" by auto
  have "slot_opens lib h ?d pwd ks = (if mk_digest h = digest then Some mk else None)"
    by (auto simp: slot_opens_def k p mk dg)
  moreover have "vic_afmerge lib ?kb (ucast (stripes ks)) (hash_spec h) plain s = (Done mk, s)" for s :: "('s, 'a) world"
    using vic_afmerge_pure [of lib ?kb "ucast (stripes ks)" "hash_spec h" plain s] mk(1) by simp
  ultimately show ?thesis
    using k u(1,5) c1 t c2 p dg by (simp add: try_slot_def from_option_def lift_outcome_def or_raise_def bnd_def Let_def)
qed

end

end
