(* ===== verification/Spec2Isabelle.thy ===== *)
theory Spec2Isabelle
  imports Enclave_Mem Ticketlock Mpmc_Queue Futex Lthread Lkl_Host Virtio_Ring Virtio_Mmio Json_Libc Json_Print Luks1_Correct
begin

text \<open>
  A verification library for SGX-LKL, a library OS that runs Linux binaries inside an SGX enclave.
\<close>

end
